theory Spec2Isabelle
  imports Complex_Main "HOL-Library.Word"
begin

section \<open>Scalar types and enumerations (types.h)\<close>

text \<open>
  Identifiers are unsigned machine words. \<open>Price\<close> and \<open>Quantity\<close> are \<open>int64_t\<close> in the
  source; signed overflow is undefined behaviour in C++, so they are modelled as
  mathematical integers and every statement below is about executions in which no
  signed operation overflows. Integer division truncates towards zero (\<open>cdiv\<close>).
  \<open>double\<close> values are modelled as exact reals: rounding of IEEE arithmetic is
  abstracted away. A \<open>Timestamp\<close> is a reading of the steady clock.
\<close>

type_synonym UserId = "32 word"
type_synonym InstrumentId = "32 word"
type_synonym OrderId = "64 word"
type_synonym Price = int
type_synonym Quantity = int
type_synonym Timestamp = int

datatype Side = BUY | SELL

datatype TimeInForce = GFD | IOC

datatype InstrumentType = SCALAR | CALL | PUT

datatype OrderStatus = PENDING | PARTIAL | FILLED | CANCELLED | REJECTED

definition cdiv :: "int \<Rightarrow> int \<Rightarrow> int" where
  "cdiv a b = (if (a < 0) = (b < 0) then \<bar>a\<bar> div \<bar>b\<bar> else - (\<bar>a\<bar> div \<bar>b\<bar>))"

text \<open>\<open>std::signbit\<close> applied to an integer converts it to \<open>double\<close>: true iff negative.\<close>

definition signbit :: "int \<Rightarrow> bool" where
  "signbit x = (x < 0)"

record InstrumentSpec =
  id :: InstrumentId
  symbol :: string
  type :: InstrumentType
  reference_id :: InstrumentId
  strike :: Price
  tick_size :: Price
  lot_size :: Quantity
  tick_value :: real
  is_halted :: bool

record OrderRequest =
  user_id :: UserId
  instrument_id :: InstrumentId
  side :: Side
  price :: Price
  quantity :: Quantity
  tif :: TimeInForce
  post_only :: bool

record Fill =
  order_id :: OrderId
  user_id :: UserId
  instrument_id :: InstrumentId
  side :: Side
  price :: Price
  quantity :: Quantity
  timestamp :: Timestamp

record Position =
  instrument_id :: InstrumentId
  net_qty :: Quantity
  vwap :: Price
  realized_pnl :: real
  unrealized_pnl :: real

text \<open>The default constructor \<open>Position()\<close>.\<close>

definition Position0 :: Position where
  "Position0 = \<lparr> Position.instrument_id = 0, net_qty = 0, vwap = 0,
                  realized_pnl = 0, unrealized_pnl = 0 \<rparr>"

record PriceLevel =
  price :: Price
  size :: Quantity

record MarketSnapshot =
  instrument_id :: InstrumentId
  bids :: "PriceLevel list"
  asks :: "PriceLevel list"
  last_price :: Price
  timestamp :: Timestamp

text \<open>
  The declaration of \<open>struct Order\<close> lives in \<open>order_book.h\<close>; its fields are the ones
  \<open>Engine::submit_order\<close> assigns one by one.
\<close>

record Order =
  id :: OrderId
  user_id :: UserId
  instrument_id :: InstrumentId
  side :: Side
  price :: Price
  quantity :: Quantity
  filled_quantity :: Quantity
  status :: OrderStatus
  tif :: TimeInForce
  post_only :: bool
  timestamp :: Timestamp

section \<open>Shared objects and the clock\<close>

text \<open>
  Orders are heap objects shared through \<open>std::shared_ptr\<close>: the price-level queues, the
  book's \<open>orders_\<close> map and the engine's \<open>active_orders_\<close> all point to the same object. The
  store maps an address to the object it holds; \<open>brk\<close> is the next address
  \<open>std::make_shared\<close> hands out. \<open>clock\<close> is the sequence of values successive calls of
  \<open>steady_clock::now()\<close> return and \<open>reads\<close> counts the calls made so far.
\<close>

type_synonym addr = nat

record mem =
  heap :: "addr \<Rightarrow> Order"
  brk :: addr
  clock :: "nat \<Rightarrow> Timestamp"
  reads :: nat

definition now :: "mem \<Rightarrow> Timestamp \<times> mem" where
  "now m = (clock m (reads m), m\<lparr> reads := Suc (reads m) \<rparr>)"

definition add_filled :: "addr \<Rightarrow> Quantity \<Rightarrow> mem \<Rightarrow> mem" where
  "add_filled x q m =
     m\<lparr> heap := (heap m)(x := (heap m x)\<lparr> filled_quantity := filled_quantity (heap m x) + q \<rparr>) \<rparr>"

definition set_status :: "addr \<Rightarrow> OrderStatus \<Rightarrow> mem \<Rightarrow> mem" where
  "set_status x s m = m\<lparr> heap := (heap m)(x := (heap m x)\<lparr> status := s \<rparr>) \<rparr>"

definition remaining :: "mem \<Rightarrow> addr \<Rightarrow> Quantity" where
  "remaining m x = Order.quantity (heap m x) - filled_quantity (heap m x)"

section \<open>The order book (order\_book.cpp)\<close>

text \<open>
  A side of the book is a \<open>std::map\<close> from price to a FIFO list of order pointers,
  iterated best price first (bids with \<open>std::greater\<close>, asks ascending). It is modelled
  as the list of its entries in iteration order; \<open>begin()\<close> is the head.
\<close>

type_synonym levels = "(Price \<times> addr list) list"

record OrderBook =
  instrument_id :: InstrumentId
  bids :: levels
  asks :: levels
  orders :: "OrderId \<rightharpoonup> addr"
  last_price :: Price

text \<open>The constructor \<open>OrderBook(instrument_id)\<close>.\<close>

definition OrderBook0 :: "InstrumentId \<Rightarrow> OrderBook" where
  "OrderBook0 i = \<lparr> OrderBook.instrument_id = i, OrderBook.bids = [], OrderBook.asks = [],
                     orders = Map.empty, OrderBook.last_price = 0 \<rparr>"

definition create_fill :: "InstrumentId \<Rightarrow> addr \<Rightarrow> addr \<Rightarrow> Price \<Rightarrow> Quantity \<Rightarrow> mem \<Rightarrow> Fill \<times> mem" where
  "create_fill inst aggressor passive p q m =
     (case now m of (t, m') \<Rightarrow>
        (\<lparr> order_id = Order.id (heap m aggressor),
           Fill.user_id = Order.user_id (heap m aggressor),
           Fill.instrument_id = inst,
           Fill.side = Order.side (heap m aggressor),
           Fill.price = p,
           Fill.quantity = q,
           Fill.timestamp = t \<rparr>, m'))"

text \<open>
  The state the matching loops work on: the store, the price-level queue at hand (inner
  loop) or the opposite side (outer loop), the \<open>orders_\<close> map, \<open>last_price_\<close> and the fills
  emitted so far.
\<close>

type_synonym level_state = "mem \<times> addr list \<times> (OrderId \<rightharpoonup> addr) \<times> Price \<times> Fill list"
type_synonym side_state = "mem \<times> levels \<times> (OrderId \<rightharpoonup> addr) \<times> Price \<times> Fill list"

text \<open>One pass of the inner loop body up to and including \<open>last_price_ = price\<close>.\<close>

definition execute_match :: "InstrumentId \<Rightarrow> addr \<Rightarrow> addr \<Rightarrow> Price \<Rightarrow> mem \<Rightarrow> Fill \<times> Fill \<times> mem" where
  "execute_match inst ord passive_order p m =
     (let match_qty = min (remaining m ord) (remaining m passive_order) in
      case create_fill inst ord passive_order p match_qty m of (f1, m1) \<Rightarrow>
      case create_fill inst passive_order ord p match_qty m1 of (f2, m2) \<Rightarrow>
        (f1, f2, add_filled passive_order match_qty (add_filled ord match_qty m2)))"


lemma execute_match_exhausts:
  assumes "execute_match inst ord passive_order p m = (f1, f2, m')"
    and "filled_quantity (heap m ord) < Order.quantity (heap m ord)"
    and "\<not> Order.quantity (heap m' passive_order) \<le> filled_quantity (heap m' passive_order)"
  shows "\<not> filled_quantity (heap (set_status passive_order s m') ord) < Order.quantity (heap (set_status passive_order s m') ord)"
  using assms
  by (auto simp: execute_match_def create_fill_def now_def add_filled_def set_status_def
      remaining_def Let_def min_def split: if_splits)

text \<open>
  The inner \<open>while\<close> loop over one price level. It ends because every pass either pops
  the front of the queue or fills the incoming order completely.
\<close>

function match_level :: "InstrumentId \<Rightarrow> addr \<Rightarrow> Price \<Rightarrow> level_state \<Rightarrow> level_state" where
  "match_level inst ord p (m, orders_at_level, os, lp, fills) =
     (if orders_at_level \<noteq> [] \<and> filled_quantity (heap m ord) < Order.quantity (heap m ord) then
        (let passive_order = hd orders_at_level in
         case execute_match inst ord passive_order p m of (f1, f2, m') \<Rightarrow>
           if Order.quantity (heap m' passive_order) \<le> filled_quantity (heap m' passive_order) then
             match_level inst ord p
               (set_status passive_order FILLED m', tl orders_at_level,
                os(Order.id (heap m' passive_order) := None), p, fills @ [f1, f2])
           else
             match_level inst ord p
               (set_status passive_order PARTIAL m', orders_at_level, os, p, fills @ [f1, f2]))
      else (m, orders_at_level, os, lp, fills))"
  by pat_completeness auto
termination
  apply (relation "measure (\<lambda>(inst, ord, p, (m, q, os, lp, fills)).
         2 * length q + (if filled_quantity (heap m ord) < Order.quantity (heap m ord) then 1 else 0))")
    apply simp
   apply (case_tac orders_at_level; simp)
  apply (simp only: in_measure prod.case)
  apply (drule sym [of _ "execute_match _ _ _ _ _"])
  apply (drule sym [of "(_, _)" ])
  apply (elim conjE)
  apply hypsubst
  apply (frule (2) execute_match_exhausts [where s = PARTIAL])
  apply simp
  done


declare match_level.simps [simp del]

lemma match_level_stop:
  "q = [] \<or> \<not> filled_quantity (heap m ord) < Order.quantity (heap m ord) \<Longrightarrow>
   match_level inst ord p (m, q, os, lp, fills) = (m, q, os, lp, fills)"
  by (subst match_level.simps) auto

lemma match_level_pop:
  "filled_quantity (heap m ord) < Order.quantity (heap m ord) \<Longrightarrow>
   execute_match inst ord x p m = (f1, f2, m1) \<Longrightarrow>
   Order.quantity (heap m1 x) \<le> filled_quantity (heap m1 x) \<Longrightarrow>
   match_level inst ord p (m, x # xs, os, lp, fills) =
   match_level inst ord p
     (set_status x FILLED m1, xs, os(Order.id (heap m1 x) := None), p, fills @ [f1, f2])"
  by (subst match_level.simps) simp

lemma match_level_keep:
  assumes lt: "filled_quantity (heap m ord) < Order.quantity (heap m ord)"
    and ex: "execute_match inst ord x p m = (f1, f2, m1)"
    and kept: "\<not> Order.quantity (heap m1 x) \<le> filled_quantity (heap m1 x)"
  shows "match_level inst ord p (m, x # xs, os, lp, fills) =
         (set_status x PARTIAL m1, x # xs, os, p, fills @ [f1, f2])"
proof -
  have "match_level inst ord p (m, x # xs, os, lp, fills) =
        match_level inst ord p (set_status x PARTIAL m1, x # xs, os, p, fills @ [f1, f2])"
    using assms by (subst match_level.simps) simp
  also have "\<dots> = (set_status x PARTIAL m1, x # xs, os, p, fills @ [f1, f2])"
    by (rule match_level_stop) (use execute_match_exhausts [OF ex lt kept] in simp)
  finally show ?thesis .
qed

text \<open>Induction along the inner loop, one case per way a pass can go.\<close>

lemma match_level_cases [case_names stop pop keep]:
  fixes P :: "level_state \<Rightarrow> bool"
  assumes stop: "\<And>m q os lp fills.
      q = [] \<or> \<not> filled_quantity (heap m ord) < Order.quantity (heap m ord) \<Longrightarrow>
      P (m, q, os, lp, fills)"
    and pop: "\<And>m x xs os lp fills f1 f2 m1.
      filled_quantity (heap m ord) < Order.quantity (heap m ord) \<Longrightarrow>
      execute_match inst ord x p m = (f1, f2, m1) \<Longrightarrow>
      Order.quantity (heap m1 x) \<le> filled_quantity (heap m1 x) \<Longrightarrow>
      P (set_status x FILLED m1, xs, os(Order.id (heap m1 x) := None), p, fills @ [f1, f2]) \<Longrightarrow>
      P (m, x # xs, os, lp, fills)"
    and keep: "\<And>m x xs os lp fills f1 f2 m1.
      filled_quantity (heap m ord) < Order.quantity (heap m ord) \<Longrightarrow>
      execute_match inst ord x p m = (f1, f2, m1) \<Longrightarrow>
      \<not> Order.quantity (heap m1 x) \<le> filled_quantity (heap m1 x) \<Longrightarrow>
      P (m, x # xs, os, lp, fills)"
  shows "P st"
proof -
  have "inst' = inst \<Longrightarrow> ord' = ord \<Longrightarrow> p' = p \<Longrightarrow> P st" for inst' ord' p'
  proof (induction inst' ord' p' st rule: match_level.induct)
    case (1 inst' ord' p' m q os lp fills)
    note eqs = "1.prems"
    show ?case
    proof (cases "q \<noteq> [] \<and> filled_quantity (heap m ord) < Order.quantity (heap m ord)")
      case False
      then show ?thesis by (intro stop) auto
    next
      case True
      then obtain x xs where q: "q = x # xs" by (cases q) auto
      obtain f1 f2 m1 where ex: "execute_match inst ord x p m = (f1, f2, m1)"
        by (cases "execute_match inst ord x p m") auto
      have hdq: "x = hd q" and tlq: "tl q = xs" using q by simp_all
      from True have lt: "filled_quantity (heap m ord) < Order.quantity (heap m ord)" by simp
      show ?thesis
      proof (cases "Order.quantity (heap m1 x) \<le> filled_quantity (heap m1 x)")
        case popped: True
        from "1.IH"(1) [unfolded eqs, OF True hdq ex [symmetric] refl popped refl refl refl, unfolded tlq]
        show ?thesis unfolding q by (rule pop [OF lt ex popped])
      next
        case False
        show ?thesis unfolding q by (rule keep [OF lt ex False])
      qed
    qed
  qed
  then show ?thesis by simp
qed

lemma match_level_leaves:
  "match_level inst ord p st = (m', q', os', lp', fills') \<Longrightarrow> q' \<noteq> [] \<Longrightarrow>
     \<not> filled_quantity (heap m' ord) < Order.quantity (heap m' ord)"
proof (induction st rule: match_level_cases [where inst = inst and ord = ord and p = p])
  case (stop m q os lp fills)
  then show ?case by (auto simp: match_level_stop)
next
  case (pop m x xs os lp fills f1 f2 m1)
  then show ?case by (simp add: match_level_pop)
next
  case (keep m x xs os lp fills f1 f2 m1)
  from keep(4) [unfolded match_level_keep [OF keep(1-3)]] execute_match_exhausts [OF keep(2,1,3)]
  show ?case by auto
qed

text \<open>
  The cross test of the outer loop: an incoming BUY stops at \<open>order->price < price\<close>, an
  incoming SELL at \<open>order->price > price\<close>.
\<close>

definition crosses :: "Side \<Rightarrow> Price \<Rightarrow> Price \<Rightarrow> bool" where
  "crosses s order_price level_price =
     (case s of BUY \<Rightarrow> \<not> order_price < level_price | SELL \<Rightarrow> \<not> order_price > level_price)"

text \<open>
  The outer \<open>while\<close> loop of \<open>match_order\<close> over the opposite side. The source writes it
  twice, once on \<open>asks_\<close> for a BUY and once on \<open>bids_\<close> for a SELL; the two copies differ
  only in the side they walk and in the cross test, which are the parameters here.
\<close>

function match_loop :: "InstrumentId \<Rightarrow> Side \<Rightarrow> addr \<Rightarrow> side_state \<Rightarrow> side_state" where
  "match_loop inst s ord (m, lv, os, lp, fills) =
     (if filled_quantity (heap m ord) < Order.quantity (heap m ord) \<and> lv \<noteq> [] then
        (case hd lv of (p, orders_at_level) \<Rightarrow>
           if \<not> crosses s (Order.price (heap m ord)) p then (m, lv, os, lp, fills)
           else if Order.post_only (heap m ord) then (set_status ord REJECTED m, lv, os, lp, fills)
           else (case match_level inst ord p (m, orders_at_level, os, lp, fills) of
                   (m', q', os', lp', fills') \<Rightarrow>
                     if q' = [] then match_loop inst s ord (m', tl lv, os', lp', fills')
                     else match_loop inst s ord (m', (p, q') # tl lv, os', lp', fills')))
      else (m, lv, os, lp, fills))"
  by pat_completeness auto
termination
  apply (relation "measure (\<lambda>(inst, s, ord, (m, lv, os, lp, fills)).
         2 * length lv + (if filled_quantity (heap m ord) < Order.quantity (heap m ord) then 1 else 0))")
    apply simp
   apply (case_tac lv; simp)
  apply (simp only: in_measure prod.case)
  apply (elim conjE)
  apply (drule sym [of _ "match_level _ _ _ _"])
  apply (drule sym [of "(_, _)"])+
  apply hypsubst
  apply (frule (1) match_level_leaves)
  apply (case_tac lv; simp)
  done

declare match_loop.simps [simp del]

lemma match_loop_stop:
  "\<not> filled_quantity (heap m ord) < Order.quantity (heap m ord) \<or> lv = [] \<Longrightarrow>
   match_loop inst s ord (m, lv, os, lp, fills) = (m, lv, os, lp, fills)"
  by (subst match_loop.simps) auto

lemma match_loop_break:
  "filled_quantity (heap m ord) < Order.quantity (heap m ord) \<Longrightarrow>
   \<not> crosses s (Order.price (heap m ord)) p \<Longrightarrow>
   match_loop inst s ord (m, (p, q) # lv, os, lp, fills) = (m, (p, q) # lv, os, lp, fills)"
  by (subst match_loop.simps) simp

lemma match_loop_reject:
  "filled_quantity (heap m ord) < Order.quantity (heap m ord) \<Longrightarrow>
   crosses s (Order.price (heap m ord)) p \<Longrightarrow> Order.post_only (heap m ord) \<Longrightarrow>
   match_loop inst s ord (m, (p, q) # lv, os, lp, fills) =
   (set_status ord REJECTED m, (p, q) # lv, os, lp, fills)"
  by (subst match_loop.simps) simp

lemma match_loop_next:
  "filled_quantity (heap m ord) < Order.quantity (heap m ord) \<Longrightarrow>
   crosses s (Order.price (heap m ord)) p \<Longrightarrow> \<not> Order.post_only (heap m ord) \<Longrightarrow>
   match_level inst ord p (m, q, os, lp, fills) = (m', [], os', lp', fills') \<Longrightarrow>
   match_loop inst s ord (m, (p, q) # lv, os, lp, fills) =
   match_loop inst s ord (m', lv, os', lp', fills')"
  by (subst match_loop.simps) simp

lemma match_loop_last:
  assumes lt: "filled_quantity (heap m ord) < Order.quantity (heap m ord)"
    and cr: "crosses s (Order.price (heap m ord)) p"
    and po: "\<not> Order.post_only (heap m ord)"
    and ml: "match_level inst ord p (m, q, os, lp, fills) = (m', q', os', lp', fills')"
    and ne: "q' \<noteq> []"
  shows "match_loop inst s ord (m, (p, q) # lv, os, lp, fills) = (m', (p, q') # lv, os', lp', fills')"
proof -
  have "match_loop inst s ord (m, (p, q) # lv, os, lp, fills) =
        match_loop inst s ord (m', (p, q') # lv, os', lp', fills')"
    using assms by (subst match_loop.simps) simp
  also have "\<dots> = (m', (p, q') # lv, os', lp', fills')"
    by (rule match_loop_stop) (use match_level_leaves [OF ml ne] in simp)
  finally show ?thesis .
qed

text \<open>Induction along the outer loop.\<close>

lemma match_loop_cases [case_names stop break reject advance last]:
  fixes P :: "side_state \<Rightarrow> bool"
  assumes stop: "\<And>m lv os lp fills.
      \<not> filled_quantity (heap m ord) < Order.quantity (heap m ord) \<or> lv = [] \<Longrightarrow>
      P (m, lv, os, lp, fills)"
    and break: "\<And>m p q lv os lp fills.
      filled_quantity (heap m ord) < Order.quantity (heap m ord) \<Longrightarrow>
      \<not> crosses s (Order.price (heap m ord)) p \<Longrightarrow>
      P (m, (p, q) # lv, os, lp, fills)"
    and reject: "\<And>m p q lv os lp fills.
      filled_quantity (heap m ord) < Order.quantity (heap m ord) \<Longrightarrow>
      crosses s (Order.price (heap m ord)) p \<Longrightarrow> Order.post_only (heap m ord) \<Longrightarrow>
      P (m, (p, q) # lv, os, lp, fills)"
    and advance: "\<And>m p q lv os lp fills m' os' lp' fills'.
      filled_quantity (heap m ord) < Order.quantity (heap m ord) \<Longrightarrow>
      crosses s (Order.price (heap m ord)) p \<Longrightarrow> \<not> Order.post_only (heap m ord) \<Longrightarrow>
      match_level inst ord p (m, q, os, lp, fills) = (m', [], os', lp', fills') \<Longrightarrow>
      P (m', lv, os', lp', fills') \<Longrightarrow>
      P (m, (p, q) # lv, os, lp, fills)"
    and last: "\<And>m p q lv os lp fills m' q' os' lp' fills'.
      filled_quantity (heap m ord) < Order.quantity (heap m ord) \<Longrightarrow>
      crosses s (Order.price (heap m ord)) p \<Longrightarrow> \<not> Order.post_only (heap m ord) \<Longrightarrow>
      match_level inst ord p (m, q, os, lp, fills) = (m', q', os', lp', fills') \<Longrightarrow>
      q' \<noteq> [] \<Longrightarrow>
      P (m, (p, q) # lv, os, lp, fills)"
  shows "P st"
proof -
  have "inst' = inst \<Longrightarrow> s' = s \<Longrightarrow> ord' = ord \<Longrightarrow> P st" for inst' s' ord'
  proof (induction inst' s' ord' st rule: match_loop.induct)
    case (1 inst' s' ord' m lv os lp fills)
    note eqs = "1.prems"
    show ?case
    proof (cases "filled_quantity (heap m ord) < Order.quantity (heap m ord) \<and> lv \<noteq> []")
      case False
      then show ?thesis by (intro stop) auto
    next
      case True
      then obtain p q lv' where lv: "lv = (p, q) # lv'" by (cases lv) auto
      from True have lt: "filled_quantity (heap m ord) < Order.quantity (heap m ord)" by simp
      have hd: "(p, q) = hd lv" and tl: "tl lv = lv'" using lv by simp_all
      show ?thesis
      proof (cases "crosses s (Order.price (heap m ord)) p")
        case False
        show ?thesis unfolding lv by (rule break [OF lt False])
      next
        case cr: True
        show ?thesis
        proof (cases "Order.post_only (heap m ord)")
          case True
          show ?thesis unfolding lv by (rule reject [OF lt cr True])
        next
          case po: False
          obtain m' q' os' lp' fills' where
            ml: "match_level inst ord p (m, q, os, lp, fills) = (m', q', os', lp', fills')"
            by (cases "match_level inst ord p (m, q, os, lp, fills)") auto
          show ?thesis
          proof (cases "q' = []")
            case True
            have cr': "\<not> \<not> crosses s (Order.price (heap m ord)) p" using cr by simp
            from "1.IH"(1) [unfolded eqs, OF \<open>_ \<and> lv \<noteq> []\<close> hd cr' po ml [symmetric]
                refl refl refl True refl refl refl, unfolded tl]
            show ?thesis unfolding lv by (rule advance [OF lt cr po ml [unfolded True]])
          next
            case False
            show ?thesis unfolding lv by (rule last [OF lt cr po ml False])
          qed
        qed
      qed
    qed
  qed
  then show ?thesis by simp
qed

definition match_order :: "addr \<Rightarrow> OrderBook \<Rightarrow> mem \<Rightarrow> Fill list \<times> OrderBook \<times> mem" where
  "match_order ord book m =
     (case Order.side (heap m ord) of
        BUY \<Rightarrow>
          (case match_loop (OrderBook.instrument_id book) BUY ord
                  (m, OrderBook.asks book, orders book, OrderBook.last_price book, []) of
             (m', lv, os, lp, fills) \<Rightarrow>
               (fills, book\<lparr> OrderBook.asks := lv, orders := os, OrderBook.last_price := lp \<rparr>, m'))
      | SELL \<Rightarrow>
          (case match_loop (OrderBook.instrument_id book) SELL ord
                  (m, OrderBook.bids book, orders book, OrderBook.last_price book, []) of
             (m', lv, os, lp, fills) \<Rightarrow>
               (fills, book\<lparr> OrderBook.bids := lv, orders := os, OrderBook.last_price := lp \<rparr>, m')))"

text \<open>
  \<open>side[price].push_back(order)\<close>: \<open>operator[]\<close> finds the level or creates an empty one at
  its place in the key order (\<open>cmp\<close> is the map's comparison), then the order is
  appended to the level's queue.
\<close>

fun level_push :: "(Price \<Rightarrow> Price \<Rightarrow> bool) \<Rightarrow> Price \<Rightarrow> addr \<Rightarrow> levels \<Rightarrow> levels" where
  "level_push cmp p x [] = [(p, [x])]"
| "level_push cmp p x ((p', q) # lv) =
     (if cmp p p' then (p, [x]) # (p', q) # lv
      else if p = p' then (p', q @ [x]) # lv
      else (p', q) # level_push cmp p x lv)"

definition add_to_book :: "addr \<Rightarrow> mem \<Rightarrow> OrderBook \<Rightarrow> OrderBook" where
  "add_to_book ord m book =
     (case Order.side (heap m ord) of
        BUY \<Rightarrow> book\<lparr> OrderBook.bids :=
                 level_push (\<lambda>a b. a > b) (Order.price (heap m ord)) ord (OrderBook.bids book) \<rparr>
      | SELL \<Rightarrow> book\<lparr> OrderBook.asks :=
                 level_push (\<lambda>a b. a < b) (Order.price (heap m ord)) ord (OrderBook.asks book) \<rparr>)"

definition add_order :: "addr \<Rightarrow> OrderBook \<Rightarrow> mem \<Rightarrow> Fill list \<times> OrderBook \<times> mem" where
  "add_order ord book m =
     (case match_order ord (book\<lparr> orders := (orders book)(Order.id (heap m ord) \<mapsto> ord) \<rparr>) m of
        (fills, book', m') \<Rightarrow>
          if status (heap m' ord) = REJECTED then
            (fills, book'\<lparr> orders := (orders book')(Order.id (heap m' ord) := None) \<rparr>, m')
          else if filled_quantity (heap m' ord) < Order.quantity (heap m' ord)
                  \<and> Order.tif (heap m' ord) \<noteq> IOC then
            (fills, add_to_book ord m' book',
             set_status ord (if filled_quantity (heap m' ord) > 0 then PARTIAL else PENDING) m')
          else if Order.quantity (heap m' ord) \<le> filled_quantity (heap m' ord) then
            (fills, book', set_status ord FILLED m')
          else
            (fills, book', set_status ord CANCELLED m'))"

text \<open>
  \<open>find(price)\<close>, then \<open>orders_at_level.remove(order)\<close> (\<open>std::list::remove\<close> drops every
  element equal to the pointer) and the level is erased when its queue is empty.
\<close>

fun level_remove :: "Price \<Rightarrow> addr \<Rightarrow> levels \<Rightarrow> levels" where
  "level_remove p x [] = []"
| "level_remove p x ((p', q) # lv) =
     (if p = p' then (if removeAll x q = [] then lv else (p', removeAll x q) # lv)
      else (p', q) # level_remove p x lv)"

definition OrderBook_cancel_order :: "OrderId \<Rightarrow> OrderBook \<Rightarrow> mem \<Rightarrow> bool \<times> OrderBook \<times> mem" where
  "OrderBook_cancel_order oid book m =
     (case orders book oid of
        None \<Rightarrow> (False, book, m)
      | Some ord \<Rightarrow>
          (let book' =
             (case Order.side (heap m ord) of
                BUY \<Rightarrow> book\<lparr> OrderBook.bids :=
                         level_remove (Order.price (heap m ord)) ord (OrderBook.bids book) \<rparr>
              | SELL \<Rightarrow> book\<lparr> OrderBook.asks :=
                         level_remove (Order.price (heap m ord)) ord (OrderBook.asks book) \<rparr>)
           in (True, book'\<lparr> orders := (orders book')(oid := None) \<rparr>, set_status ord CANCELLED m)))"

text \<open>The loop of \<open>get_snapshot\<close> over one side; \<open>count\<close> is the number of levels emitted.\<close>

fun snapshot_levels :: "mem \<Rightarrow> nat \<Rightarrow> nat \<Rightarrow> levels \<Rightarrow> PriceLevel list" where
  "snapshot_levels m depth count [] = []"
| "snapshot_levels m depth count ((p, q) # lv) =
     (if count \<ge> depth then []
      else (let total_size = foldl (\<lambda>t x. t + remaining m x) 0 q in
            if total_size > 0
            then \<lparr> PriceLevel.price = p, size = total_size \<rparr> # snapshot_levels m depth (Suc count) lv
            else snapshot_levels m depth count lv))"

definition OrderBook_get_snapshot :: "nat \<Rightarrow> OrderBook \<Rightarrow> mem \<Rightarrow> MarketSnapshot \<times> mem" where
  "OrderBook_get_snapshot depth book m =
     (case now m of (t, m') \<Rightarrow>
        (\<lparr> MarketSnapshot.instrument_id = OrderBook.instrument_id book,
           MarketSnapshot.bids = snapshot_levels m depth 0 (OrderBook.bids book),
           MarketSnapshot.asks = snapshot_levels m depth 0 (OrderBook.asks book),
           MarketSnapshot.last_price = OrderBook.last_price book,
           MarketSnapshot.timestamp = t \<rparr>, m'))"

definition get_best_bid :: "OrderBook \<Rightarrow> Price" where
  "get_best_bid book = (if OrderBook.bids book = [] then 0 else fst (hd (OrderBook.bids book)))"

definition get_best_ask :: "OrderBook \<Rightarrow> Price" where
  "get_best_ask book = (if OrderBook.asks book = [] then 0 else fst (hd (OrderBook.asks book)))"

definition get_last_price :: "OrderBook \<Rightarrow> Price" where
  "get_last_price book = OrderBook.last_price book"


section \<open>The engine (engine.h, engine.cpp)\<close>

record RiskLimits =
  max_position :: Quantity
  max_notional :: real
  max_orders_per_sec :: "32 word"

record Stats =
  total_orders :: "64 word"
  total_fills :: "64 word"
  total_cancels :: "64 word"
  total_rejects :: "64 word"

record TradeRecord =
  buy_order_id :: OrderId
  sell_order_id :: OrderId
  buyer_id :: UserId
  seller_id :: UserId
  instrument_id :: InstrumentId
  price :: Price
  quantity :: Quantity
  timestamp :: Timestamp

record OrderResult =
  order_id :: OrderId
  success :: bool
  error_message :: string
  fills :: "Fill list"

text \<open>
  Maps that are only looked up, assigned and erased are partial functions. \<open>positions_\<close>
  is iterated (settlement, P\&L), so it is the list of the \<open>std::map\<close>'s entries in key
  order, nested as in the source. \<open>memory\<close> is the store the engine's orders live in.
\<close>

record Engine =
  next_order_id :: OrderId
  instruments :: "InstrumentId \<rightharpoonup> InstrumentSpec"
  order_books :: "InstrumentId \<rightharpoonup> OrderBook"
  positions :: "(UserId \<times> (InstrumentId \<times> Position) list) list"
  risk_limits :: "UserId \<rightharpoonup> RiskLimits"
  active_orders :: "OrderId \<rightharpoonup> addr"
  user_orders :: "UserId \<rightharpoonup> OrderId list"
  trade_history :: "TradeRecord list"
  fill_history :: "Fill list"
  stats :: Stats
  memory :: mem

text \<open>The constructor \<open>Engine()\<close>, in a given store.\<close>

definition Engine0 :: "mem \<Rightarrow> Engine" where
  "Engine0 m = \<lparr> next_order_id = 1, instruments = Map.empty, order_books = Map.empty,
       positions = [], risk_limits = Map.empty, active_orders = Map.empty,
       user_orders = Map.empty, trade_history = [], fill_history = [],
       stats = \<lparr> total_orders = 0, total_fills = 0, total_cancels = 0, total_rejects = 0 \<rparr>,
       memory = m \<rparr>"

text \<open>
  Operations of an ordered \<open>std::map\<close> on the list of its entries. All three walk the
  entries in key order and stop where the key is or would be, as the search of the
  ordered container does. \<open>map_find\<close> is \<open>find\<close>. \<open>map_at k d f\<close> is \<open>m[k]\<close> used as an
  lvalue: the entry is found, or a default-constructed value \<open>d\<close> is inserted at its place
  in the key order, and \<open>f\<close> is applied to it. \<open>map_modify\<close> changes in place the entry an
  iterator from \<open>find\<close> points to.
\<close>

fun map_find :: "'k::linorder \<Rightarrow> ('k \<times> 'v) list \<Rightarrow> 'v option" where
  "map_find k [] = None"
| "map_find k ((k', v) # m) =
     (if k < k' then None else if k = k' then Some v else map_find k m)"

fun map_at :: "'k::linorder \<Rightarrow> 'v \<Rightarrow> ('v \<Rightarrow> 'v) \<Rightarrow> ('k \<times> 'v) list \<Rightarrow> ('k \<times> 'v) list" where
  "map_at k d f [] = [(k, f d)]"
| "map_at k d f ((k', v) # m) =
     (if k < k' then (k, f d) # (k', v) # m
      else if k = k' then (k', f v) # m
      else (k', v) # map_at k d f m)"

fun map_modify :: "'k::linorder \<Rightarrow> ('v \<Rightarrow> 'v) \<Rightarrow> ('k \<times> 'v) list \<Rightarrow> ('k \<times> 'v) list" where
  "map_modify k f [] = []"
| "map_modify k f ((k', v) # m) =
     (if k < k' then (k', v) # m
      else if k = k' then (k', f v) # m
      else (k', v) # map_modify k f m)"

definition add_instrument :: "InstrumentSpec \<Rightarrow> Engine \<Rightarrow> bool \<times> Engine" where
  "add_instrument spec e =
     (if instruments e (InstrumentSpec.id spec) \<noteq> None then (False, e)
      else (True, e\<lparr> instruments := (instruments e)(InstrumentSpec.id spec \<mapsto> spec),
                      order_books := (order_books e)(InstrumentSpec.id spec \<mapsto>
                                        OrderBook0 (InstrumentSpec.id spec)) \<rparr>))"

definition halt_instrument :: "InstrumentId \<Rightarrow> bool \<Rightarrow> Engine \<Rightarrow> bool \<times> Engine" where
  "halt_instrument i halted e =
     (case instruments e i of
        None \<Rightarrow> (False, e)
      | Some inst \<Rightarrow> (True, e\<lparr> instruments := (instruments e)(i \<mapsto> inst\<lparr> is_halted := halted \<rparr>) \<rparr>))"

definition set_risk_limits :: "UserId \<Rightarrow> RiskLimits \<Rightarrow> Engine \<Rightarrow> Engine" where
  "set_risk_limits user limits e = e\<lparr> risk_limits := (risk_limits e)(user \<mapsto> limits) \<rparr>"

definition check_risk :: "UserId \<Rightarrow> InstrumentId \<Rightarrow> Side \<Rightarrow> Quantity \<Rightarrow> Engine \<Rightarrow> bool" where
  "check_risk user inst_id s qty e =
     (case risk_limits e user of
        None \<Rightarrow> True
      | Some limits \<Rightarrow>
          (case map_find user (positions e) of
             None \<Rightarrow> True
           | Some user_positions \<Rightarrow>
               (case map_find inst_id user_positions of
                  None \<Rightarrow> True
                | Some pos \<Rightarrow>
                    (let current_pos = net_qty pos;
                         new_pos = current_pos + (if s = BUY then qty else - qty)
                     in \<not> \<bar>new_pos\<bar> > max_position limits))))"

text \<open>The local \<open>fill_qty\<close> of \<open>update_position\<close>: the fill's quantity, signed by its side.\<close>

definition fill_qty :: "Fill \<Rightarrow> Quantity" where
  "fill_qty fill = (if Fill.side fill = BUY then Fill.quantity fill else - Fill.quantity fill)"

text \<open>The body of \<open>update_position\<close> on the position \<open>positions_[user_id][instrument_id]\<close>.\<close>

definition position_after_fill :: "Fill \<Rightarrow> Position \<Rightarrow> Position" where
  "position_after_fill fill p0 =
     (let pos = p0\<lparr> Position.instrument_id := Fill.instrument_id fill \<rparr>
      in if net_qty pos = 0 then
           pos\<lparr> vwap := Fill.price fill, net_qty := fill_qty fill \<rparr>
         else if (net_qty pos > 0 \<and> fill_qty fill > 0) \<or> (net_qty pos < 0 \<and> fill_qty fill < 0) then
           (let abs_old = \<bar>net_qty pos\<bar>; abs_new = \<bar>fill_qty fill\<bar>
            in pos\<lparr> vwap := cdiv (vwap pos * abs_old + Fill.price fill * abs_new) (abs_old + abs_new),
                    net_qty := net_qty pos + fill_qty fill \<rparr>)
         else
           (let reduce_qty = min \<bar>net_qty pos\<bar> \<bar>fill_qty fill\<bar>;
                pnl_per_unit = real_of_int (Fill.price fill - vwap pos) / 100;
                pnl_per_unit' = (if net_qty pos < 0 then - pnl_per_unit else pnl_per_unit);
                pos' = pos\<lparr> realized_pnl := realized_pnl pos + pnl_per_unit' * real_of_int reduce_qty,
                           net_qty := net_qty pos + fill_qty fill \<rparr>
            in if net_qty pos' \<noteq> 0 \<and> signbit (net_qty pos') \<noteq> signbit (net_qty pos' - fill_qty fill)
               then pos'\<lparr> vwap := Fill.price fill \<rparr>
               else pos'))"

definition update_position :: "UserId \<Rightarrow> Fill \<Rightarrow> Engine \<Rightarrow> Engine" where
  "update_position user fill e =
     e\<lparr> positions :=
          map_at user [] (map_at (Fill.instrument_id fill) Position0 (position_after_fill fill))
            (positions e) \<rparr>"

text \<open>The part of the fill loop of \<open>submit_order\<close> done for each single fill.\<close>

definition record_fill :: "Fill \<Rightarrow> Engine \<Rightarrow> Engine" where
  "record_fill fill e =
     (let e1 = update_position (Fill.user_id fill) fill e
      in e1\<lparr> fill_history := fill_history e1 @ [fill],
              stats := (stats e1)\<lparr> total_fills := total_fills (stats e1) + 1 \<rparr> \<rparr>)"

definition make_trade :: "Fill \<Rightarrow> Fill \<Rightarrow> TradeRecord" where
  "make_trade fill1 fill2 =
     (if Fill.side fill1 = BUY then
        \<lparr> buy_order_id = Fill.order_id fill1, sell_order_id = Fill.order_id fill2,
          buyer_id = Fill.user_id fill1, seller_id = Fill.user_id fill2,
          TradeRecord.instrument_id = Fill.instrument_id fill1,
          TradeRecord.price = Fill.price fill1, TradeRecord.quantity = Fill.quantity fill1,
          TradeRecord.timestamp = Fill.timestamp fill1 \<rparr>
      else
        \<lparr> buy_order_id = Fill.order_id fill2, sell_order_id = Fill.order_id fill1,
          buyer_id = Fill.user_id fill2, seller_id = Fill.user_id fill1,
          TradeRecord.instrument_id = Fill.instrument_id fill1,
          TradeRecord.price = Fill.price fill1, TradeRecord.quantity = Fill.quantity fill1,
          TradeRecord.timestamp = Fill.timestamp fill1 \<rparr>)"

text \<open>The loop \<open>for (i = 0; i < fills.size(); i += 2)\<close> of \<open>submit_order\<close>.\<close>

fun process_fills :: "Fill list \<Rightarrow> Engine \<Rightarrow> Engine" where
  "process_fills [] e = e"
| "process_fills [fill1] e = record_fill fill1 e"
| "process_fills (fill1 # fill2 # rest) e =
     process_fills rest
       (let e2 = record_fill fill2 (record_fill fill1 e)
        in e2\<lparr> trade_history := trade_history e2 @ [make_trade fill1 fill2] \<rparr>)"

text \<open>An early return of \<open>submit_order\<close> with an error message.\<close>

definition reject :: "string \<Rightarrow> Engine \<Rightarrow> OrderResult \<times> Engine" where
  "reject msg e =
     (\<lparr> OrderResult.order_id = 0, success = False, error_message = msg, fills = [] \<rparr>,
      e\<lparr> stats := (stats e)\<lparr> total_rejects := total_rejects (stats e) + 1 \<rparr> \<rparr>)"

text \<open>\<open>std::set::insert\<close> on the sorted list of a set's elements.\<close>

definition set_insert :: "'a::linorder \<Rightarrow> 'a list \<Rightarrow> 'a list" where
  "set_insert x xs = (if x \<in> set xs then xs else insort x xs)"

text \<open>\<open>submit_order\<close> from \<open>// Create order\<close> on, with the instrument's book at hand.\<close>

definition place_order :: "OrderRequest \<Rightarrow> OrderBook \<Rightarrow> Engine \<Rightarrow> OrderResult \<times> Engine" where
  "place_order request book e =
     (let m0 = memory e;
          ord = brk m0;
          oid = next_order_id e;
          (t, m1) = now (m0\<lparr> brk := Suc ord \<rparr>);
          m2 = m1\<lparr> heap := (heap m1)(ord :=
                 \<lparr> Order.id = oid,
                   Order.user_id = OrderRequest.user_id request,
                   Order.instrument_id = OrderRequest.instrument_id request,
                   Order.side = OrderRequest.side request,
                   Order.price = OrderRequest.price request,
                   Order.quantity = OrderRequest.quantity request,
                   filled_quantity = 0,
                   status = PENDING,
                   Order.tif = OrderRequest.tif request,
                   Order.post_only = OrderRequest.post_only request,
                   Order.timestamp = t \<rparr>) \<rparr>;
          (result_fills, book', m3) = add_order ord book m2;
          e1 = e\<lparr> next_order_id := oid + 1,
                  order_books := (order_books e)(OrderRequest.instrument_id request \<mapsto> book'),
                  memory := m3 \<rparr>;
          e2 = (if status (heap m3 ord) = PENDING \<or> status (heap m3 ord) = PARTIAL then
                  e1\<lparr> active_orders := (active_orders e1)(oid \<mapsto> ord),
                       user_orders := (user_orders e1)(OrderRequest.user_id request \<mapsto>
                         set_insert oid (case user_orders e1 (OrderRequest.user_id request) of
                                           None \<Rightarrow> [] | Some ids \<Rightarrow> ids)) \<rparr>
                else e1);
          e3 = process_fills result_fills e2
      in (\<lparr> OrderResult.order_id = oid, success = True, error_message = [], fills = result_fills \<rparr>,
          e3\<lparr> stats := (stats e3)\<lparr> total_orders := total_orders (stats e3) + 1 \<rparr> \<rparr>))"

text \<open>
  \<open>order_books_[id]\<close> on an instrument without a book would hand back a null pointer,
  and calling through it is undefined: that outcome is \<open>None\<close>.
\<close>

definition submit_order :: "OrderRequest \<Rightarrow> Engine \<Rightarrow> (OrderResult \<times> Engine) option" where
  "submit_order request e =
     (case instruments e (OrderRequest.instrument_id request) of
        None \<Rightarrow> Some (reject ''Instrument not found'' e)
      | Some inst \<Rightarrow>
          if is_halted inst then Some (reject ''Instrument is halted'' e)
          else if \<not> check_risk (OrderRequest.user_id request) (OrderRequest.instrument_id request)
                    (OrderRequest.side request) (OrderRequest.quantity request) e
          then Some (reject ''Risk limit exceeded'' e)
          else if OrderRequest.quantity request \<le> 0 then Some (reject ''Invalid quantity'' e)
          else (case order_books e (OrderRequest.instrument_id request) of
                  None \<Rightarrow> None
                | Some book \<Rightarrow> Some (place_order request book e)))"

definition cancel_order :: "OrderId \<Rightarrow> UserId \<Rightarrow> Engine \<Rightarrow> (bool \<times> Engine) option" where
  "cancel_order oid user e =
     (case active_orders e oid of
        None \<Rightarrow> Some (False, e)
      | Some ord \<Rightarrow>
          if Order.user_id (heap (memory e) ord) \<noteq> user then Some (False, e)
          else (case order_books e (Order.instrument_id (heap (memory e) ord)) of
                  None \<Rightarrow> None
                | Some book \<Rightarrow>
                    (case OrderBook_cancel_order oid book (memory e) of
                       (cancelled, book', m') \<Rightarrow>
                         (let e1 = e\<lparr> order_books := (order_books e)
                                        (Order.instrument_id (heap (memory e) ord) \<mapsto> book'),
                                      memory := m' \<rparr>
                          in if cancelled then
                               Some (True, e1\<lparr> active_orders := (active_orders e1)(oid := None),
                                     user_orders := (user_orders e1)(user \<mapsto>
                                       removeAll oid (case user_orders e1 user of
                                                        None \<Rightarrow> [] | Some ids \<Rightarrow> ids)),
                                     stats := (stats e1)\<lparr> total_cancels :=
                                                total_cancels (stats e1) + 1 \<rparr> \<rparr>)
                             else Some (False, e1)))))"

definition replace_order ::
  "OrderId \<Rightarrow> UserId \<Rightarrow> Price option \<Rightarrow> Quantity option \<Rightarrow> Engine \<Rightarrow> (bool \<times> Engine) option" where
  "replace_order oid user new_price new_qty e =
     (case active_orders e oid of
        None \<Rightarrow> Some (False, e)
      | Some old_order \<Rightarrow>
          if Order.user_id (heap (memory e) old_order) \<noteq> user then Some (False, e)
          else (case cancel_order oid user e of
                  None \<Rightarrow> None
                | Some (cancelled, e1) \<Rightarrow>
                    if \<not> cancelled then Some (False, e1)
                    else (let old = heap (memory e1) old_order;
                              request = \<lparr> OrderRequest.user_id = user,
                                 OrderRequest.instrument_id = Order.instrument_id old,
                                 OrderRequest.side = Order.side old,
                                 OrderRequest.price =
                                   (case new_price of Some p \<Rightarrow> p | None \<Rightarrow> Order.price old),
                                 OrderRequest.quantity =
                                   (case new_qty of Some q \<Rightarrow> q
                                    | None \<Rightarrow> Order.quantity old - filled_quantity old),
                                 OrderRequest.tif = Order.tif old,
                                 OrderRequest.post_only = Order.post_only old \<rparr>
                          in (case submit_order request e1 of
                                None \<Rightarrow> None
                              | Some (result, e2) \<Rightarrow> Some (success result, e2)))))"

text \<open>The loop of \<open>cancel_all\<close> over the copied set of order ids.\<close>

fun cancel_each :: "OrderId list \<Rightarrow> UserId \<Rightarrow> Engine \<Rightarrow> Engine option" where
  "cancel_each [] user e = Some e"
| "cancel_each (oid # ids) user e =
     (case cancel_order oid user e of None \<Rightarrow> None | Some (r, e') \<Rightarrow> cancel_each ids user e')"

definition cancel_all :: "UserId \<Rightarrow> Engine \<Rightarrow> (bool \<times> Engine) option" where
  "cancel_all user e =
     (case user_orders e user of
        None \<Rightarrow> Some (True, e)
      | Some order_ids \<Rightarrow>
          (case cancel_each order_ids user e of None \<Rightarrow> None | Some e' \<Rightarrow> Some (True, e')))"

text \<open>
  \<open>Engine::get_snapshot\<close> calls the book with the default depth, which the missing header
  \<open>order_book.h\<close> declares; the specification gives it as 10 levels per side.
\<close>

definition default_depth :: nat where
  "default_depth = 10"

definition MarketSnapshot0 :: MarketSnapshot where
  "MarketSnapshot0 = \<lparr> MarketSnapshot.instrument_id = 0, MarketSnapshot.bids = [],
       MarketSnapshot.asks = [], MarketSnapshot.last_price = 0, MarketSnapshot.timestamp = 0 \<rparr>"

definition get_snapshot :: "InstrumentId \<Rightarrow> Engine \<Rightarrow> MarketSnapshot \<times> Engine" where
  "get_snapshot i e =
     (case order_books e i of
        None \<Rightarrow> (MarketSnapshot0, e)
      | Some book \<Rightarrow>
          (case OrderBook_get_snapshot default_depth book (memory e) of
             (snapshot, m') \<Rightarrow> (snapshot, e\<lparr> memory := m' \<rparr>)))"

definition get_mark_price :: "InstrumentId \<Rightarrow> Engine \<Rightarrow> Price" where
  "get_mark_price i e =
     (case order_books e i of
        None \<Rightarrow> 0
      | Some book \<Rightarrow>
          (let last = get_last_price book in
           if last > 0 then last
           else (let bid = get_best_bid book; ask = get_best_ask book in
                 if bid > 0 \<and> ask > 0 then cdiv (bid + ask) 2 else 0)))"

definition get_total_pnl :: "UserId \<Rightarrow> Engine \<Rightarrow> real" where
  "get_total_pnl user e =
     (case map_find user (positions e) of
        None \<Rightarrow> 0
      | Some user_positions \<Rightarrow>
          foldl (\<lambda>total (inst_id, pos).
                   (let total' = total + realized_pnl pos in
                    if net_qty pos \<noteq> 0 then
                      (let mark = get_mark_price inst_id e in
                       if mark > 0 then
                         total' + (real_of_int mark / 100 - real_of_int (vwap pos) / 100)
                                    * real_of_int (net_qty pos)
                       else total')
                    else total'))
                0 user_positions)"

definition get_positions :: "UserId \<Rightarrow> Engine \<Rightarrow> Position list" where
  "get_positions user e =
     (case map_find user (positions e) of
        None \<Rightarrow> []
      | Some user_positions \<Rightarrow>
          concat (map (\<lambda>(inst_id, pos).
                   if net_qty pos \<noteq> 0 then
                     (let mark = get_mark_price inst_id e in
                      if mark > 0 then
                        [pos\<lparr> unrealized_pnl :=
                               (real_of_int mark / 100 - real_of_int (vwap pos) / 100)
                                 * real_of_int (net_qty pos) \<rparr>]
                      else [pos])
                   else [])
                 user_positions))"

text \<open>The body of the settlement loop for one position with \<open>net_qty \<noteq> 0\<close>.\<close>

definition settle_position :: "InstrumentSpec \<Rightarrow> Price \<Rightarrow> Position \<Rightarrow> Position" where
  "settle_position inst settlement_value pos =
     (let payoff =
            (case type inst of
               SCALAR \<Rightarrow> (real_of_int settlement_value / 100) * real_of_int (net_qty pos)
                           * tick_value inst
             | CALL \<Rightarrow> max 0 (real_of_int (settlement_value - strike inst) / 100)
                           * real_of_int (net_qty pos) * tick_value inst
             | PUT \<Rightarrow> max 0 (real_of_int (strike inst - settlement_value) / 100)
                           * real_of_int (net_qty pos) * tick_value inst);
          cost_basis = (real_of_int (vwap pos) / 100) * real_of_int (net_qty pos) * tick_value inst
      in pos\<lparr> realized_pnl := realized_pnl pos + (payoff - cost_basis),
              unrealized_pnl := 0, net_qty := 0, vwap := 0 \<rparr>)"

definition settle_user ::
  "InstrumentSpec \<Rightarrow> InstrumentId \<Rightarrow> Price \<Rightarrow> (InstrumentId \<times> Position) list \<Rightarrow> (InstrumentId \<times> Position) list" where
  "settle_user inst i settlement_value user_positions =
     (case map_find i user_positions of
        None \<Rightarrow> user_positions
      | Some pos \<Rightarrow>
          if net_qty pos = 0 then user_positions
          else map_modify i (settle_position inst settlement_value) user_positions)"

definition settle_instrument :: "InstrumentId \<Rightarrow> Price \<Rightarrow> Engine \<Rightarrow> bool \<times> Engine" where
  "settle_instrument i settlement_value e =
     (case instruments e i of
        None \<Rightarrow> (False, e)
      | Some inst \<Rightarrow>
          (True, e\<lparr> positions := map (\<lambda>(user, user_positions).
                                      (user, settle_user inst i settlement_value user_positions))
                                    (positions e),
                    instruments := (instruments e)(i \<mapsto> inst\<lparr> is_halted := True \<rparr>) \<rparr>))"

section \<open>Runs of the engine\<close>

text \<open>
  The calls of the public interface that change the engine (\<open>get_snapshot\<close> is among
  them because it reads the clock), and the state a sequence of calls leads to. \<open>None\<close>
  is the undefined outcome of calling through a missing book.
\<close>

datatype Op =
    AddInstrument InstrumentSpec
  | HaltInstrument InstrumentId bool
  | SubmitOrder OrderRequest
  | CancelOrder OrderId UserId
  | ReplaceOrder OrderId UserId "Price option" "Quantity option"
  | CancelAll UserId
  | SettleInstrument InstrumentId Price
  | SetRiskLimits UserId RiskLimits
  | GetSnapshot InstrumentId

fun apply_op :: "Op \<Rightarrow> Engine \<Rightarrow> Engine option" where
  "apply_op (AddInstrument spec) e = Some (snd (add_instrument spec e))"
| "apply_op (HaltInstrument i halted) e = Some (snd (halt_instrument i halted e))"
| "apply_op (SubmitOrder request) e = map_option snd (submit_order request e)"
| "apply_op (CancelOrder oid user) e = map_option snd (cancel_order oid user e)"
| "apply_op (ReplaceOrder oid user new_price new_qty) e =
     map_option snd (replace_order oid user new_price new_qty e)"
| "apply_op (CancelAll user) e = map_option snd (cancel_all user e)"
| "apply_op (SettleInstrument i settlement_value) e = Some (snd (settle_instrument i settlement_value e))"
| "apply_op (SetRiskLimits user limits) e = Some (set_risk_limits user limits e)"
| "apply_op (GetSnapshot i) e = Some (snd (get_snapshot i e))"

fun run :: "Op list \<Rightarrow> Engine \<Rightarrow> Engine option" where
  "run [] e = Some e"
| "run (op # ops) e = (case apply_op op e of None \<Rightarrow> None | Some e' \<Rightarrow> run ops e')"

section \<open>Notions the statements use\<close>

text \<open>
  The position \<open>positions_[user][instrument]\<close> would read: the stored one, or a
  default-constructed \<open>Position()\<close> when the user or the instrument has no entry yet.
\<close>

definition position_of :: "Engine \<Rightarrow> UserId \<Rightarrow> InstrumentId \<Rightarrow> Position" where
  "position_of e user i =
     (case map_find user (positions e) of
        None \<Rightarrow> Position0
      | Some user_positions \<Rightarrow>
          (case map_find i user_positions of None \<Rightarrow> Position0 | Some pos \<Rightarrow> pos))"

text \<open>The fields of an order that matching never writes.\<close>

definition ident :: "Order \<Rightarrow> OrderId \<times> UserId \<times> InstrumentId \<times> Side \<times> Price \<times> Quantity \<times> TimeInForce \<times> bool \<times> Timestamp" where
  "ident x = (Order.id x, Order.user_id x, Order.instrument_id x, Order.side x, Order.price x,
              Order.quantity x, Order.tif x, Order.post_only x, Order.timestamp x)"

definition party :: "Order \<Rightarrow> OrderId \<times> UserId \<times> Side" where
  "party x = (Order.id x, Order.user_id x, Order.side x)"

definition fill_party :: "Fill \<Rightarrow> OrderId \<times> UserId \<times> Side" where
  "fill_party f = (Fill.order_id f, Fill.user_id f, Fill.side f)"

text \<open>
  The fill sequence the specification describes: fills come in adjacent pairs, the first
  of a pair for the aggressor \<open>a\<close>, the second for one of the resting parties \<open>ps\<close>, both
  with the same price, quantity and instrument.
\<close>

fun fill_pairs :: "OrderId \<times> UserId \<times> Side \<Rightarrow> (OrderId \<times> UserId \<times> Side) list \<Rightarrow> Fill list \<Rightarrow> bool" where
  "fill_pairs a ps [] = True"
| "fill_pairs a ps [f] = False"
| "fill_pairs a ps (f1 # f2 # fs) =
     (fill_party f1 = a \<and> fill_party f2 \<in> set ps \<and>
      Fill.price f1 = Fill.price f2 \<and> Fill.quantity f1 = Fill.quantity f2 \<and>
      Fill.instrument_id f1 = Fill.instrument_id f2 \<and> fill_pairs a ps fs)"

text \<open>
  The orders resting on the side an incoming order of side \<open>s\<close> matches against, in the
  order the book holds them: levels best price first, each level's queue front to back.
\<close>

definition own_levels :: "OrderBook \<Rightarrow> Side \<Rightarrow> levels" where
  "own_levels book s = (case s of BUY \<Rightarrow> OrderBook.bids book | SELL \<Rightarrow> OrderBook.asks book)"

definition opposite_levels :: "OrderBook \<Rightarrow> Side \<Rightarrow> levels" where
  "opposite_levels book s = (case s of BUY \<Rightarrow> OrderBook.asks book | SELL \<Rightarrow> OrderBook.bids book)"

definition opposite_queue :: "OrderBook \<Rightarrow> Side \<Rightarrow> addr list" where
  "opposite_queue book s = concat (map snd (opposite_levels book s))"

text \<open>The second fill of every pair: the fills of the resting orders, in emission order.\<close>

fun passives :: "Fill list \<Rightarrow> Fill list" where
  "passives (f1 # f2 # fs) = f2 # passives fs"
| "passives fs = []"

text \<open>The queue of one price level, empty when the side has no such level.\<close>

fun level_queue :: "Price \<Rightarrow> levels \<Rightarrow> addr list" where
  "level_queue p [] = []"
| "level_queue p ((p', q) # lv) = (if p = p' then q else level_queue p lv)"

text \<open>The resting orders of a side, each with the price of the level it rests at.\<close>

definition priced_queue :: "levels \<Rightarrow> (Price \<times> addr) list" where
  "priced_queue lv = concat (map (\<lambda>(p, q). map (\<lambda>x. (p, x)) q) lv)"

text \<open>Both sides in the key order of their maps: bids descending, asks ascending.\<close>

definition book_sorted :: "OrderBook \<Rightarrow> bool" where
  "book_sorted book \<longleftrightarrow>
     sorted_wrt (\<lambda>a b. a > b) (map fst (OrderBook.bids book)) \<and>
     sorted_wrt (\<lambda>a b. a < b) (map fst (OrderBook.asks book))"

text \<open>
  The effect of \<open>update_position\<close> on \<open>positions_\<close> for one fill, and a sum over the users'
  positions in one instrument (\<open>Position()\<close> for a user without an entry in it).
\<close>

definition ledger_fill ::
  "Fill \<Rightarrow> (UserId \<times> (InstrumentId \<times> Position) list) list \<Rightarrow> (UserId \<times> (InstrumentId \<times> Position) list) list" where
  "ledger_fill fill P =
     map_at (Fill.user_id fill) [] (map_at (Fill.instrument_id fill) Position0 (position_after_fill fill)) P"

definition ledger_pos :: "InstrumentId \<Rightarrow> (InstrumentId \<times> Position) list \<Rightarrow> Position" where
  "ledger_pos i user_positions = (case map_find i user_positions of None \<Rightarrow> Position0 | Some pos \<Rightarrow> pos)"

definition ledger_sum ::
  "(Position \<Rightarrow> 'a::comm_monoid_add) \<Rightarrow> InstrumentId \<Rightarrow> (UserId \<times> (InstrumentId \<times> Position) list) list \<Rightarrow> 'a" where
  "ledger_sum g i P = sum_list (map (\<lambda>(user, user_positions). g (ledger_pos i user_positions)) P)"

text \<open>
  What a position is worth in cash terms before any payoff: realized P\&L minus the cost
  basis \<open>(vwap/100) * net_qty\<close> of what is still held.
\<close>

definition cash :: "Position \<Rightarrow> real" where
  "cash pos = realized_pnl pos - (real_of_int (vwap pos) / 100) * real_of_int (net_qty pos)"

text \<open>
  The averaging step of \<open>update_position\<close> loses nothing to integer division: when the
  fill adds to the position, the divisor divides the weighted sum.
\<close>

definition vwap_exact :: "Fill \<Rightarrow> Position \<Rightarrow> bool" where
  "vwap_exact fill pos \<longleftrightarrow>
     ((net_qty pos > 0 \<and> fill_qty fill > 0) \<or> (net_qty pos < 0 \<and> fill_qty fill < 0) \<longrightarrow>
      (\<bar>net_qty pos\<bar> + \<bar>fill_qty fill\<bar>) dvd (vwap pos * \<bar>net_qty pos\<bar> + Fill.price fill * \<bar>fill_qty fill\<bar>))"

fun fills_exact :: "Fill list \<Rightarrow> (UserId \<times> (InstrumentId \<times> Position) list) list \<Rightarrow> bool" where
  "fills_exact [] P = True"
| "fills_exact (fill # rest) P =
     (vwap_exact fill
        (case map_find (Fill.user_id fill) P of
           None \<Rightarrow> Position0
         | Some user_positions \<Rightarrow> ledger_pos (Fill.instrument_id fill) user_positions) \<and>
      fills_exact rest (ledger_fill fill P))"

text \<open>
  A run in which no averaging step truncates: the fills every call appends to
  \<open>fill_history_\<close> are exact for the positions the call started from.
\<close>

fun exact_run :: "Op list \<Rightarrow> Engine \<Rightarrow> bool" where
  "exact_run [] e = True"
| "exact_run (op # ops) e =
     (case apply_op op e of
        None \<Rightarrow> True
      | Some e' \<Rightarrow> fills_exact (drop (length (fill_history e)) (fill_history e')) (positions e) \<and>
                   exact_run ops e')"

text \<open>The order requests a run submits.\<close>

fun requests :: "Op list \<Rightarrow> OrderRequest list" where
  "requests [] = []"
| "requests (SubmitOrder request # ops) = request # requests ops"
| "requests (op # ops) = requests ops"

fun new_prices :: "Op list \<Rightarrow> Price list" where
  "new_prices [] = []"
| "new_prices (SubmitOrder request # ops) = OrderRequest.price request # new_prices ops"
| "new_prices (ReplaceOrder oid user (Some p) new_qty # ops) = p # new_prices ops"
| "new_prices (op # ops) = new_prices ops"

fun added_specs :: "Op list \<Rightarrow> InstrumentSpec list" where
  "added_specs [] = []"
| "added_specs (AddInstrument spec # ops) = spec # added_specs ops"
| "added_specs (op # ops) = added_specs ops"

text \<open>
  The shape every reachable book has: an order object is queued once, on the side it
  belongs to, it was allocated by the engine, and both sides are in key order.
\<close>

definition book_wf :: "mem \<Rightarrow> OrderBook \<Rightarrow> bool" where
  "book_wf m book \<longleftrightarrow>
     distinct (concat (map snd (OrderBook.bids book))) \<and>
     distinct (concat (map snd (OrderBook.asks book))) \<and>
     (\<forall>x \<in> set (concat (map snd (OrderBook.bids book))). x < brk m \<and> Order.side (heap m x) = BUY) \<and>
     (\<forall>x \<in> set (concat (map snd (OrderBook.asks book))). x < brk m \<and> Order.side (heap m x) = SELL) \<and>
     book_sorted book"

definition engine_wf :: "Engine \<Rightarrow> bool" where
  "engine_wf e \<longleftrightarrow>
     (\<forall>i. (instruments e i = None) = (order_books e i = None)) \<and>
     (\<forall>i book. order_books e i = Some book \<longrightarrow>
        OrderBook.instrument_id book = i \<and> book_wf (memory e) book) \<and>
     (\<forall>oid a. active_orders e oid = Some a \<longrightarrow>
        a < brk (memory e) \<and> order_books e (Order.instrument_id (heap (memory e) a)) \<noteq> None)"

text \<open>The store once \<open>submit_order\<close> has created its order object.\<close>

definition new_order_mem :: "OrderRequest \<Rightarrow> OrderId \<Rightarrow> mem \<Rightarrow> mem" where
  "new_order_mem request oid m =
     m\<lparr> brk := Suc (brk m), reads := Suc (reads m),
        heap := (heap m)(brk m :=
          \<lparr> Order.id = oid,
            Order.user_id = OrderRequest.user_id request,
            Order.instrument_id = OrderRequest.instrument_id request,
            Order.side = OrderRequest.side request,
            Order.price = OrderRequest.price request,
            Order.quantity = OrderRequest.quantity request,
            filled_quantity = 0,
            status = PENDING,
            Order.tif = OrderRequest.tif request,
            Order.post_only = OrderRequest.post_only request,
            Order.timestamp = clock m (reads m) \<rparr>) \<rparr>"

text \<open>The side an order trades against.\<close>

definition other_side :: "Side \<Rightarrow> Side" where
  "other_side s = (case s of BUY \<Rightarrow> SELL | SELL \<Rightarrow> BUY)"

text \<open>
  Fills as trades: adjacent pairs in instrument \<open>i\<close>, the two fills of a pair on opposite
  sides with the same price and quantity.
\<close>

fun trade_pairs :: "InstrumentId \<Rightarrow> Fill list \<Rightarrow> bool" where
  "trade_pairs i [] = True"
| "trade_pairs i [f] = False"
| "trade_pairs i (f1 # f2 # fs) =
     (Fill.instrument_id f1 = i \<and> Fill.instrument_id f2 = i \<and>
      Fill.price f1 = Fill.price f2 \<and> Fill.quantity f1 = Fill.quantity f2 \<and>
      Fill.side f1 \<noteq> Fill.side f2 \<and> trade_pairs i fs)"

text \<open>The price keys of both sides of a book.\<close>

definition book_prices :: "OrderBook \<Rightarrow> Price set" where
  "book_prices book = set (map fst (OrderBook.bids book)) \<union> set (map fst (OrderBook.asks book))"

text \<open>
  What a call of \<open>submit_order\<close> that reaches the book does to the engine: \<open>fs\<close> are the
  fills of the call, \<open>book'\<close> is the instrument's book after it.
\<close>

definition placed :: "OrderRequest \<Rightarrow> OrderBook \<Rightarrow> Engine \<Rightarrow> Engine \<Rightarrow> Fill list \<Rightarrow> OrderBook \<Rightarrow> bool" where
  "placed request book e e' fs book' \<longleftrightarrow>
    positions e' = fold ledger_fill fs (positions e) \<and>
    fill_history e' = fill_history e @ fs \<and>
    instruments e' = instruments e \<and>
    order_books e' = (order_books e)(OrderRequest.instrument_id request \<mapsto> book') \<and>
    trade_pairs (OrderRequest.instrument_id request) fs \<and>
    (\<forall>f \<in> set fs. Fill.price f \<in> book_prices book) \<and>
    book_prices book' \<subseteq> insert (OrderRequest.price request) (book_prices book) \<and>
    brk (memory e') = Suc (brk (memory e)) \<and>
    (\<forall>x. x < brk (memory e) \<longrightarrow> ident (heap (memory e') x) = ident (heap (memory e) x)) \<and>
    Order.price (heap (memory e') (brk (memory e))) = OrderRequest.price request \<and>
    Order.instrument_id (heap (memory e') (brk (memory e))) = OrderRequest.instrument_id request \<and>
    (active_orders e' = active_orders e \<or>
     active_orders e' = (active_orders e)(next_order_id e \<mapsto> brk (memory e))) \<and>
    book_wf (memory e') book' \<and>
    OrderBook.instrument_id book' = OrderRequest.instrument_id request"

text \<open>
  The quantity a list of fill pairs credits to the order at address \<open>x\<close>, when the pairs
  were made by the incoming order \<open>ord\<close> against the resting orders \<open>ys\<close>, one pair each.
\<close>

fun credited :: "addr \<Rightarrow> addr list \<Rightarrow> Fill list \<Rightarrow> addr \<Rightarrow> Quantity" where
  "credited ord (y # ys) (f1 # f2 # fs) x =
     (if x = ord then Fill.quantity f1 else 0) + (if x = y then Fill.quantity f2 else 0) +
     credited ord ys fs x"
| "credited ord ys fs x = 0"

text \<open>
  What a stretch of matching moved: one fill pair for each matched resting order of
  \<open>pxs\<close> (with the price of its level), the passive fill in the name of that order and at
  that price, and every order's \<open>filled_quantity\<close> raised by exactly what its fills say.
\<close>

definition moved :: "mem \<Rightarrow> addr \<Rightarrow> (Price \<times> addr) list \<Rightarrow> Fill list \<Rightarrow> mem \<Rightarrow> bool" where
  "moved m ord pxs new m' \<longleftrightarrow>
     length new = 2 * length pxs \<and>
     map fill_party (passives new) = map (\<lambda>px. party (heap m (snd px))) pxs \<and>
     map Fill.price (passives new) = map fst pxs \<and>
     (\<forall>x. filled_quantity (heap m' x) =
            filled_quantity (heap m x) + credited ord (map snd pxs) new x) \<and>
     (\<forall>x. ident (heap m' x) = ident (heap m x))"

text \<open>
  No negative price anywhere the ledger takes prices from: the levels of the books,
  the active orders (a replacement resubmits the old order's price), and the average
  prices of the positions themselves.
\<close>

definition ledger_nonneg :: "(UserId \<times> (InstrumentId \<times> Position) list) list \<Rightarrow> bool" where
  "ledger_nonneg P \<longleftrightarrow> (\<forall>u ups j pos. (u, ups) \<in> set P \<longrightarrow> (j, pos) \<in> set ups \<longrightarrow> 0 \<le> vwap pos)"

definition prices_ok :: "Engine \<Rightarrow> bool" where
  "prices_ok e \<longleftrightarrow>
     (\<forall>i book p. order_books e i = Some book \<longrightarrow> p \<in> book_prices book \<longrightarrow> 0 \<le> p) \<and>
     (\<forall>oid a. active_orders e oid = Some a \<longrightarrow> 0 \<le> Order.price (heap (memory e) a)) \<and>
     ledger_nonneg (positions e)"

section \<open>Concrete states used to instantiate the theorems\<close>

definition Order0 :: Order where
  "Order0 = \<lparr> Order.id = 0, Order.user_id = 0, Order.instrument_id = 0, Order.side = BUY,
     Order.price = 0, Order.quantity = 0, filled_quantity = 0, status = PENDING,
     Order.tif = GFD, Order.post_only = False, Order.timestamp = 0 \<rparr>"

text \<open>An empty store whose clock advances by one at every reading.\<close>

definition mem0 :: mem where
  "mem0 = \<lparr> heap = (\<lambda>_. Order0), brk = 0, clock = (\<lambda>n. int n), reads = 0 \<rparr>"

definition demo_spec :: "InstrumentId \<Rightarrow> InstrumentType \<Rightarrow> Price \<Rightarrow> InstrumentSpec" where
  "demo_spec i t k = \<lparr> InstrumentSpec.id = i, symbol = ''TEST'', type = t, reference_id = 0,
     strike = k, tick_size = 1, lot_size = 1, tick_value = 1, is_halted = False \<rparr>"

definition demo_request :: "UserId \<Rightarrow> InstrumentId \<Rightarrow> Side \<Rightarrow> Price \<Rightarrow> Quantity \<Rightarrow> OrderRequest" where
  "demo_request u i s p q = \<lparr> OrderRequest.user_id = u, OrderRequest.instrument_id = i,
     OrderRequest.side = s, OrderRequest.price = p, OrderRequest.quantity = q,
     OrderRequest.tif = GFD, OrderRequest.post_only = False \<rparr>"

definition demo_fill :: "UserId \<Rightarrow> InstrumentId \<Rightarrow> Side \<Rightarrow> Price \<Rightarrow> Quantity \<Rightarrow> Fill" where
  "demo_fill u i s p q = \<lparr> Fill.order_id = 7, Fill.user_id = u, Fill.instrument_id = i,
     Fill.side = s, Fill.price = p, Fill.quantity = q, Fill.timestamp = 0 \<rparr>"

definition demo_position :: "InstrumentId \<Rightarrow> Quantity \<Rightarrow> Price \<Rightarrow> Position" where
  "demo_position i n w = \<lparr> Position.instrument_id = i, net_qty = n, vwap = w,
     realized_pnl = 0, unrealized_pnl = 0 \<rparr>"

text \<open>An engine with one instrument \<open>i\<close> of type \<open>t\<close> and one position of user 1 in it.\<close>

definition demo_engine :: "InstrumentId \<Rightarrow> InstrumentType \<Rightarrow> Price \<Rightarrow> Quantity \<Rightarrow> Price \<Rightarrow> Engine" where
  "demo_engine i t k n w =
     (Engine0 mem0)\<lparr> instruments := [i \<mapsto> demo_spec i t k],
                      order_books := [i \<mapsto> OrderBook0 i],
                      positions := [(1, [(i, demo_position i n w)])] \<rparr>"


definition demo_limits :: RiskLimits where
  "demo_limits = \<lparr> max_position = 10, max_notional = 1000000, max_orders_per_sec = 50 \<rparr>"

text \<open>An engine with a bid of user 1 for 100 at 10000 resting in the book of instrument 1.\<close>

definition demo_resting :: Engine where
  "demo_resting =
     (Engine0 mem0)\<lparr>
        next_order_id := 2,
        instruments := [1 \<mapsto> demo_spec 1 SCALAR 0],
        order_books := [1 \<mapsto> (OrderBook0 1)\<lparr> OrderBook.bids := [(10000, [0])], orders := [1 \<mapsto> 0] \<rparr>],
        active_orders := [1 \<mapsto> 0],
        user_orders := [1 \<mapsto> [1]],
        memory := mem0\<lparr> brk := 1, reads := 1,
           heap := (heap mem0)(0 := Order0\<lparr> Order.id := 1, Order.user_id := 1,
              Order.instrument_id := 1, Order.price := 10000, Order.quantity := 100 \<rparr>) \<rparr> \<rparr>"

text \<open>A book with one ask of user 1 (100 at 10000) and an incoming BUY of user 2 at address 3.\<close>

definition demo_ask_mem :: mem where
  "demo_ask_mem = mem0\<lparr> brk := 4, reads := 2,
      heap := (heap mem0)
        (2 := Order0\<lparr> Order.id := 1, Order.user_id := 1, Order.instrument_id := 1, Order.side := SELL,
                      Order.price := 10000, Order.quantity := 100 \<rparr>,
         3 := Order0\<lparr> Order.id := 2, Order.user_id := 2, Order.instrument_id := 1, Order.side := BUY,
                      Order.price := 10000, Order.quantity := 100, Order.timestamp := 1 \<rparr>) \<rparr>"

definition demo_ask_book :: OrderBook where
  "demo_ask_book = (OrderBook0 1)\<lparr> OrderBook.asks := [(10000, [2])], orders := [1 \<mapsto> 2] \<rparr>"

definition demo_post_only_mem :: mem where
  "demo_post_only_mem =
     demo_ask_mem\<lparr> heap := (heap demo_ask_mem)(3 := (heap demo_ask_mem 3)\<lparr> Order.post_only := True \<rparr>) \<rparr>"

text \<open>Three bids at one price, booked in the order of their addresses, and an incoming SELL of 150.\<close>

definition demo_fifo_mem :: mem where
  "demo_fifo_mem = mem0\<lparr> brk := 6, reads := 4,
      heap := (heap mem0)
        (2 := Order0\<lparr> Order.id := 1, Order.user_id := 1, Order.instrument_id := 1,
                      Order.price := 10000, Order.quantity := 100 \<rparr>,
         3 := Order0\<lparr> Order.id := 2, Order.user_id := 2, Order.instrument_id := 1,
                      Order.price := 10000, Order.quantity := 100, Order.timestamp := 1 \<rparr>,
         4 := Order0\<lparr> Order.id := 3, Order.user_id := 3, Order.instrument_id := 1,
                      Order.price := 10000, Order.quantity := 100, Order.timestamp := 2 \<rparr>,
         5 := Order0\<lparr> Order.id := 4, Order.user_id := 9, Order.instrument_id := 1, Order.side := SELL,
                      Order.price := 10000, Order.quantity := 150, Order.timestamp := 3 \<rparr>) \<rparr>"

definition demo_fifo_book :: OrderBook where
  "demo_fifo_book = (OrderBook0 1)\<lparr> OrderBook.bids := [(10000, [2, 3, 4])],
                                     orders := [1 \<mapsto> 2, 2 \<mapsto> 3, 3 \<mapsto> 4] \<rparr>"


text \<open>
  A book with two bid levels (100 at 10100; two bids of 100 at 10000) and two ask levels
  (100 at 10150, 100 at 10200), and two incoming SELLs of user 9: at address 5 for 150
  with limit 10000, at address 8 for 250 with limit 10050.
\<close>

definition demo_depth_mem :: mem where
  "demo_depth_mem = mem0\<lparr> brk := 9, reads := 6,
      heap := (heap mem0)
        (2 := Order0\<lparr> Order.id := 1, Order.user_id := 1, Order.instrument_id := 1,
                      Order.price := 10100, Order.quantity := 100 \<rparr>,
         3 := Order0\<lparr> Order.id := 2, Order.user_id := 2, Order.instrument_id := 1,
                      Order.price := 10000, Order.quantity := 100, Order.timestamp := 1 \<rparr>,
         4 := Order0\<lparr> Order.id := 3, Order.user_id := 3, Order.instrument_id := 1,
                      Order.price := 10000, Order.quantity := 100, Order.timestamp := 2 \<rparr>,
         6 := Order0\<lparr> Order.id := 4, Order.user_id := 4, Order.instrument_id := 1, Order.side := SELL,
                      Order.price := 10150, Order.quantity := 100, Order.timestamp := 3 \<rparr>,
         7 := Order0\<lparr> Order.id := 5, Order.user_id := 5, Order.instrument_id := 1, Order.side := SELL,
                      Order.price := 10200, Order.quantity := 100, Order.timestamp := 4 \<rparr>,
         5 := Order0\<lparr> Order.id := 6, Order.user_id := 9, Order.instrument_id := 1, Order.side := SELL,
                      Order.price := 10000, Order.quantity := 150, Order.timestamp := 5 \<rparr>,
         8 := Order0\<lparr> Order.id := 7, Order.user_id := 9, Order.instrument_id := 1, Order.side := SELL,
                      Order.price := 10050, Order.quantity := 250, Order.timestamp := 5 \<rparr>) \<rparr>"

definition demo_depth_book :: OrderBook where
  "demo_depth_book = (OrderBook0 1)\<lparr>
      OrderBook.bids := [(10100, [2]), (10000, [3, 4])],
      OrderBook.asks := [(10150, [6]), (10200, [7])],
      orders := [1 \<mapsto> 2, 2 \<mapsto> 3, 3 \<mapsto> 4, 4 \<mapsto> 6, 5 \<mapsto> 7] \<rparr>"

section \<open>Facts about the ordered maps\<close>

lemma map_find_map_at:
  "map_find j (map_at k d f m) =
     (if j = k then Some (f (case map_find k m of None \<Rightarrow> d | Some v \<Rightarrow> v)) else map_find j m)"
  by (induction m) auto

lemma map_find_map_modify:
  "map_find j (map_modify k f m) = (if j = k then map_option f (map_find k m) else map_find j m)"
  by (induction m) auto

lemma map_find_map_values:
  "map_find k (map (\<lambda>(u, x). (u, g u x)) m) = map_option (g k) (map_find k m)"
  by (induction m) auto

section \<open>The position ledger\<close>

lemma position_of_update_position:
  "position_of (update_position user fill e) u i =
     (if u = user \<and> i = Fill.instrument_id fill
      then position_after_fill fill (position_of e user (Fill.instrument_id fill))
      else position_of e u i)"
  by (auto simp: position_of_def update_position_def map_find_map_at split: option.splits)

text \<open>
  Claim C4. A fill with signed quantity \<open>q\<close> (the quantity for a BUY, its negation for a
  SELL) applied by \<open>update_position\<close> to the position of its user and instrument: from a
  flat position the position becomes \<open>q\<close> at the fill price; a fill of the same sign adds
  \<open>q\<close> and replaces \<open>vwap\<close> by the quotient of \<open>n = vwap * |net| + price * |q|\<close> by
  \<open>d = |net| + |q|\<close>, an integer division that truncates towards zero (\<open>n div d\<close> for
  \<open>n \<ge> 0\<close>, \<open>- ((- n) div d)\<close> for \<open>n < 0\<close>; it is the exact quotient when \<open>d\<close> divides
  \<open>n\<close>); a fill of the opposite sign adds \<open>((price - vwap)/100) * min(|net|, |q|)\<close> to
  \<open>realized_pnl\<close>, negated for a short position, adds \<open>q\<close> to \<open>net_qty\<close>, keeps \<open>vwap\<close> on a
  reduction and sets it to the fill price when the position changes sides.
\<close>

theorem update_position_branches:
  "let pos = position_of e user (Fill.instrument_id fill);
       pos' = position_of (update_position user fill e) user (Fill.instrument_id fill);
       q = (if Fill.side fill = BUY then Fill.quantity fill else - Fill.quantity fill);
       n = vwap pos * \<bar>net_qty pos\<bar> + Fill.price fill * \<bar>q\<bar>;
       d = \<bar>net_qty pos\<bar> + \<bar>q\<bar>
   in (net_qty pos = 0 \<longrightarrow>
         net_qty pos' = q \<and> vwap pos' = Fill.price fill \<and> realized_pnl pos' = realized_pnl pos) \<and>
      ((0 < net_qty pos \<and> 0 < q) \<or> (net_qty pos < 0 \<and> q < 0) \<longrightarrow>
         vwap pos' = (if 0 \<le> n then n div d else - ((- n) div d)) \<and>
         (d dvd n \<longrightarrow> real_of_int (vwap pos') = real_of_int n / real_of_int d) \<and>
         \<bar>vwap pos'\<bar> * d \<le> \<bar>n\<bar> \<and> \<bar>n\<bar> < (\<bar>vwap pos'\<bar> + 1) * d \<and>
         net_qty pos' = net_qty pos + q \<and>
         realized_pnl pos' = realized_pnl pos) \<and>
      ((0 < net_qty pos \<and> q < 0) \<or> (net_qty pos < 0 \<and> 0 < q) \<longrightarrow>
         realized_pnl pos' = realized_pnl pos +
           (if net_qty pos < 0 then - (real_of_int (Fill.price fill - vwap pos) / 100)
            else real_of_int (Fill.price fill - vwap pos) / 100)
           * real_of_int (min \<bar>net_qty pos\<bar> \<bar>q\<bar>) \<and>
         net_qty pos' = net_qty pos + q \<and>
         (\<bar>q\<bar> \<le> \<bar>net_qty pos\<bar> \<longrightarrow> vwap pos' = vwap pos) \<and>
         (\<bar>net_qty pos\<bar> < \<bar>q\<bar> \<longrightarrow> vwap pos' = Fill.price fill))"
proof -
  define pos where "pos = position_of e user (Fill.instrument_id fill)"
  define q where "q = (if Fill.side fill = BUY then Fill.quantity fill else - Fill.quantity fill)"
  define n where "n = vwap pos * \<bar>net_qty pos\<bar> + Fill.price fill * \<bar>q\<bar>"
  define d where "d = \<bar>net_qty pos\<bar> + \<bar>q\<bar>"
  define w where "w = (if 0 \<le> n then n div d else - ((- n) div d))"
  have fq: "fill_qty fill = q" by (simp add: fill_qty_def q_def)
  have cd: "cdiv n d = w" if "0 < d"
    using that by (auto simp: cdiv_def w_def)
  have exact: "real_of_int w = real_of_int n / real_of_int d" if "0 < d" "d dvd n"
  proof -
    from that(2) obtain c where c: "n = d * c" by (auto simp: dvd_def)
    have "- n = d * (- c)" by (simp add: c)
    with that(1) have "(- n) div d = - c" by (metis less_irrefl nonzero_mult_div_cancel_left)
    moreover from that(1) c have "n div d = c" by simp
    ultimately have "w = c" by (simp add: w_def)
    with that(1) c show ?thesis by simp
  qed
  have aw: "\<bar>w\<bar> = \<bar>n\<bar> div d" if "0 < d"
    using that by (auto simp: w_def pos_imp_zdiv_nonneg_iff)
  have lo: "\<bar>w\<bar> * d \<le> \<bar>n\<bar>" if "0 < d"
  proof -
    have "\<bar>n\<bar> = d * (\<bar>n\<bar> div d) + \<bar>n\<bar> mod d" by simp
    moreover have "0 \<le> \<bar>n\<bar> mod d" using that by simp
    ultimately have "d * (\<bar>n\<bar> div d) \<le> \<bar>n\<bar>" by linarith
    then show ?thesis unfolding aw [OF that] by (simp add: algebra_simps)
  qed
  have hi: "\<bar>n\<bar> < (\<bar>w\<bar> + 1) * d" if "0 < d"
  proof -
    have "\<bar>n\<bar> = d * (\<bar>n\<bar> div d) + \<bar>n\<bar> mod d" by simp
    moreover have "\<bar>n\<bar> mod d < d" using that by simp
    ultimately have "\<bar>n\<bar> < d * (\<bar>n\<bar> div d) + d" by linarith
    then show ?thesis unfolding aw [OF that] by (simp add: algebra_simps)
  qed
  have dpos: "0 < d" if "(0 < net_qty pos \<and> 0 < q) \<or> (net_qty pos < 0 \<and> q < 0)"
    using that by (auto simp: d_def)
  have avg: "vwap (position_after_fill fill pos) = w \<and>
             net_qty (position_after_fill fill pos) = net_qty pos + q \<and>
             realized_pnl (position_after_fill fill pos) = realized_pnl pos"
    if "(0 < net_qty pos \<and> 0 < q) \<or> (net_qty pos < 0 \<and> q < 0)"
    using that cd [OF dpos [OF that]]
    by (auto simp: position_after_fill_def Let_def fq n_def d_def)
  have flat: "net_qty (position_after_fill fill pos) = q \<and>
              vwap (position_after_fill fill pos) = Fill.price fill \<and>
              realized_pnl (position_after_fill fill pos) = realized_pnl pos" if "net_qty pos = 0"
    using that by (simp add: position_after_fill_def Let_def fq)
  have red: "realized_pnl (position_after_fill fill pos) = realized_pnl pos +
           (if net_qty pos < 0 then - (real_of_int (Fill.price fill - vwap pos) / 100)
            else real_of_int (Fill.price fill - vwap pos) / 100)
           * real_of_int (min \<bar>net_qty pos\<bar> \<bar>q\<bar>) \<and>
         net_qty (position_after_fill fill pos) = net_qty pos + q \<and>
         (\<bar>q\<bar> \<le> \<bar>net_qty pos\<bar> \<longrightarrow> vwap (position_after_fill fill pos) = vwap pos) \<and>
         (\<bar>net_qty pos\<bar> < \<bar>q\<bar> \<longrightarrow> vwap (position_after_fill fill pos) = Fill.price fill)"
    if "(0 < net_qty pos \<and> q < 0) \<or> (net_qty pos < 0 \<and> 0 < q)"
    using that by (auto simp: position_after_fill_def Let_def fq signbit_def)
  show ?thesis
    unfolding position_of_update_position Let_def
    unfolding pos_def [symmetric] q_def [symmetric]
    unfolding n_def [symmetric] d_def [symmetric]
    using flat avg red exact lo hi dpos by (simp add: w_def [symmetric])
qed

text \<open>
  The branches on concrete positions of user 1: averaging 100 at 10000 with a BUY of 100
  at 11000 gives 200 at 10500; averaging 1 at 100 with a BUY of 3 at 101 gives 4 at 100
  (403/4 truncated); averaging a short 100 at 10000 with a SELL of 100 at 11000 gives
  \<open>- 200\<close> at 10500; with negative prices, 1 at \<open>- 3\<close> and a BUY of 1 at 0 give 2 at \<open>- 1\<close>
  (\<open>- 3/2\<close> truncated towards zero); a SELL of 40 at 10500 against 100 at 10000 leaves
  60 at 10000 and realizes 200; a SELL of 150 flips to \<open>- 50\<close> at 10500 and realizes 500;
  a BUY of 40 at 9500 against a short 100 at 10000 realizes 200; a BUY of 7 at 250 on a
  flat position gives 7 at 250.
\<close>

theorem update_position_branches_witness:
  "position_of (update_position 1 (demo_fill 1 1 BUY 11000 100) (demo_engine 1 SCALAR 0 100 10000)) 1 1
     = \<lparr> Position.instrument_id = 1, net_qty = 200, vwap = 10500, realized_pnl = 0, unrealized_pnl = 0 \<rparr> \<and>
   position_of (update_position 1 (demo_fill 1 1 BUY 101 3) (demo_engine 1 SCALAR 0 1 100)) 1 1
     = \<lparr> Position.instrument_id = 1, net_qty = 4, vwap = 100, realized_pnl = 0, unrealized_pnl = 0 \<rparr> \<and>
   position_of (update_position 1 (demo_fill 1 1 SELL 11000 100) (demo_engine 1 SCALAR 0 (- 100) 10000)) 1 1
     = \<lparr> Position.instrument_id = 1, net_qty = - 200, vwap = 10500, realized_pnl = 0, unrealized_pnl = 0 \<rparr> \<and>
   position_of (update_position 1 (demo_fill 1 1 BUY 0 1) (demo_engine 1 SCALAR 0 1 (- 3))) 1 1
     = \<lparr> Position.instrument_id = 1, net_qty = 2, vwap = - 1, realized_pnl = 0, unrealized_pnl = 0 \<rparr> \<and>
   position_of (update_position 1 (demo_fill 1 1 SELL 10500 40) (demo_engine 1 SCALAR 0 100 10000)) 1 1
     = \<lparr> Position.instrument_id = 1, net_qty = 60, vwap = 10000, realized_pnl = 200, unrealized_pnl = 0 \<rparr> \<and>
   position_of (update_position 1 (demo_fill 1 1 SELL 10500 150) (demo_engine 1 SCALAR 0 100 10000)) 1 1
     = \<lparr> Position.instrument_id = 1, net_qty = - 50, vwap = 10500, realized_pnl = 500, unrealized_pnl = 0 \<rparr> \<and>
   position_of (update_position 1 (demo_fill 1 1 BUY 9500 40) (demo_engine 1 SCALAR 0 (- 100) 10000)) 1 1
     = \<lparr> Position.instrument_id = 1, net_qty = - 60, vwap = 10000, realized_pnl = 200, unrealized_pnl = 0 \<rparr> \<and>
   position_of (update_position 1 (demo_fill 1 1 BUY 250 7) (demo_engine 1 SCALAR 0 0 0)) 1 1
     = \<lparr> Position.instrument_id = 1, net_qty = 7, vwap = 250, realized_pnl = 0, unrealized_pnl = 0 \<rparr>"
proof -
  have p: "position_of (demo_engine 1 SCALAR 0 n w) 1 1 = demo_position 1 n w" for n w
    by (simp add: demo_engine_def position_of_def Engine0_def)
  have i: "Fill.instrument_id (demo_fill 1 1 s x y) = 1" for s x y
    by (simp add: demo_fill_def)
  have eqI: "a = b" if "Position.instrument_id a = Position.instrument_id b" "net_qty a = net_qty b"
    "vwap a = vwap b" "realized_pnl a = realized_pnl b" "unrealized_pnl a = unrealized_pnl b"
    for a b :: Position
    using that by simp
  have k: "Position.instrument_id (position_of (update_position 1 (demo_fill 1 1 s x y) (demo_engine 1 SCALAR 0 n w)) 1 1) = 1 \<and>
           unrealized_pnl (position_of (update_position 1 (demo_fill 1 1 s x y) (demo_engine 1 SCALAR 0 n w)) 1 1) = 0"
    for s x y n w
    by (simp add: position_of_update_position i p position_after_fill_def Let_def demo_position_def demo_fill_def)
  have t1: "position_of (update_position 1 (demo_fill 1 1 BUY 11000 100) (demo_engine 1 SCALAR 0 100 10000)) 1 1
     = \<lparr> Position.instrument_id = 1, net_qty = 200, vwap = 10500, realized_pnl = 0, unrealized_pnl = 0 \<rparr>"
    using update_position_branches [of "demo_engine 1 SCALAR 0 100 10000" 1 "demo_fill 1 1 BUY 11000 100"]
      k [of BUY 11000 100 100 10000]
    unfolding i p by (intro eqI) (simp_all add: Let_def demo_position_def demo_fill_def)
  have t2: "position_of (update_position 1 (demo_fill 1 1 BUY 101 3) (demo_engine 1 SCALAR 0 1 100)) 1 1
     = \<lparr> Position.instrument_id = 1, net_qty = 4, vwap = 100, realized_pnl = 0, unrealized_pnl = 0 \<rparr>"
    using update_position_branches [of "demo_engine 1 SCALAR 0 1 100" 1 "demo_fill 1 1 BUY 101 3"]
      k [of BUY 101 3 1 100]
    unfolding i p by (intro eqI) (simp_all add: Let_def demo_position_def demo_fill_def)
  have t3: "position_of (update_position 1 (demo_fill 1 1 SELL 11000 100) (demo_engine 1 SCALAR 0 (- 100) 10000)) 1 1
     = \<lparr> Position.instrument_id = 1, net_qty = - 200, vwap = 10500, realized_pnl = 0, unrealized_pnl = 0 \<rparr>"
    using update_position_branches [of "demo_engine 1 SCALAR 0 (- 100) 10000" 1 "demo_fill 1 1 SELL 11000 100"]
      k [of SELL 11000 100 "- 100" 10000]
    unfolding i p by (intro eqI) (simp_all add: Let_def demo_position_def demo_fill_def)
  have t4: "position_of (update_position 1 (demo_fill 1 1 BUY 0 1) (demo_engine 1 SCALAR 0 1 (- 3))) 1 1
     = \<lparr> Position.instrument_id = 1, net_qty = 2, vwap = - 1, realized_pnl = 0, unrealized_pnl = 0 \<rparr>"
    using update_position_branches [of "demo_engine 1 SCALAR 0 1 (- 3)" 1 "demo_fill 1 1 BUY 0 1"]
      k [of BUY 0 1 1 "- 3"]
    unfolding i p by (intro eqI) (simp_all add: Let_def demo_position_def demo_fill_def)
  have t5: "position_of (update_position 1 (demo_fill 1 1 SELL 10500 40) (demo_engine 1 SCALAR 0 100 10000)) 1 1
     = \<lparr> Position.instrument_id = 1, net_qty = 60, vwap = 10000, realized_pnl = 200, unrealized_pnl = 0 \<rparr>"
    using update_position_branches [of "demo_engine 1 SCALAR 0 100 10000" 1 "demo_fill 1 1 SELL 10500 40"]
      k [of SELL 10500 40 100 10000]
    unfolding i p by (intro eqI) (simp_all add: Let_def demo_position_def demo_fill_def)
  have t6: "position_of (update_position 1 (demo_fill 1 1 SELL 10500 150) (demo_engine 1 SCALAR 0 100 10000)) 1 1
     = \<lparr> Position.instrument_id = 1, net_qty = - 50, vwap = 10500, realized_pnl = 500, unrealized_pnl = 0 \<rparr>"
    using update_position_branches [of "demo_engine 1 SCALAR 0 100 10000" 1 "demo_fill 1 1 SELL 10500 150"]
      k [of SELL 10500 150 100 10000]
    unfolding i p by (intro eqI) (simp_all add: Let_def demo_position_def demo_fill_def)
  have t7: "position_of (update_position 1 (demo_fill 1 1 BUY 9500 40) (demo_engine 1 SCALAR 0 (- 100) 10000)) 1 1
     = \<lparr> Position.instrument_id = 1, net_qty = - 60, vwap = 10000, realized_pnl = 200, unrealized_pnl = 0 \<rparr>"
    using update_position_branches [of "demo_engine 1 SCALAR 0 (- 100) 10000" 1 "demo_fill 1 1 BUY 9500 40"]
      k [of BUY 9500 40 "- 100" 10000]
    unfolding i p by (intro eqI) (simp_all add: Let_def demo_position_def demo_fill_def)
  have t8: "position_of (update_position 1 (demo_fill 1 1 BUY 250 7) (demo_engine 1 SCALAR 0 0 0)) 1 1
     = \<lparr> Position.instrument_id = 1, net_qty = 7, vwap = 250, realized_pnl = 0, unrealized_pnl = 0 \<rparr>"
    using update_position_branches [of "demo_engine 1 SCALAR 0 0 0" 1 "demo_fill 1 1 BUY 250 7"]
      k [of BUY 250 7 0 0]
    unfolding i p by (intro eqI) (simp_all add: Let_def demo_position_def demo_fill_def)
  from t1 t2 t3 t4 t5 t6 t7 t8 show ?thesis by (intro conjI)
qed

section \<open>Settlement\<close>

lemma position_of_settle:
  "instruments e i = Some inst \<Longrightarrow>
   position_of (snd (settle_instrument i v e)) user j =
     (if j = i \<and> net_qty (position_of e user i) \<noteq> 0
      then settle_position inst v (position_of e user i) else position_of e user j)"
  by (auto simp: position_of_def settle_instrument_def settle_user_def map_find_map_values
      map_find_map_modify Position0_def split: option.splits)

section \<open>Order submission\<close>

lemma place_order_success: "place_order request book e = (result, e') \<Longrightarrow> success result"
  by (auto simp: place_order_def Let_def split: prod.splits)


lemma place_order_success': "success (fst (place_order request book e))"
  by (cases "place_order request book e") (auto dest: place_order_success)

lemma submit_order_total:
  "(instruments e (OrderRequest.instrument_id request) \<noteq> None \<longrightarrow>
      order_books e (OrderRequest.instrument_id request) \<noteq> None) \<Longrightarrow>
   \<exists>result e'. submit_order request e = Some (result, e')"
  by (cases "instruments e (OrderRequest.instrument_id request)")
     (auto simp: submit_order_def reject_def intro: prod.exhaust)

text \<open>
  Claim C9. \<open>submit_order\<close> returns \<open>success = false\<close> in exactly four cases, tested in this
  order: unknown instrument ("Instrument not found"), halted instrument ("Instrument is
  halted"), failed risk check ("Risk limit exceeded"), quantity \<open>\<le> 0\<close> ("Invalid
  quantity"). Such a reject returns \<open>order_id = 0\<close>, adds exactly 1 to \<open>total_rejects\<close> and
  changes nothing else: order books, orders, positions, histories and the other
  counters stay as they were. The call returns whenever every registered instrument
  has its book, which \<open>add_instrument\<close> guarantees.
\<close>

theorem submit_order_rejects:
  assumes "instruments e (OrderRequest.instrument_id request) \<noteq> None \<longrightarrow>
           order_books e (OrderRequest.instrument_id request) \<noteq> None"
  shows "\<exists>result e'. submit_order request e = Some (result, e') \<and>
         (\<not> success result \<longleftrightarrow>
            instruments e (OrderRequest.instrument_id request) = None
          \<or> map_option is_halted (instruments e (OrderRequest.instrument_id request)) = Some True
          \<or> \<not> check_risk (OrderRequest.user_id request) (OrderRequest.instrument_id request)
                 (OrderRequest.side request) (OrderRequest.quantity request) e
          \<or> OrderRequest.quantity request \<le> 0) \<and>
         (\<not> success result \<longrightarrow>
            error_message result =
              (if instruments e (OrderRequest.instrument_id request) = None
                 then ''Instrument not found''
               else if map_option is_halted (instruments e (OrderRequest.instrument_id request)) = Some True
                 then ''Instrument is halted''
               else if \<not> check_risk (OrderRequest.user_id request) (OrderRequest.instrument_id request)
                         (OrderRequest.side request) (OrderRequest.quantity request) e
                 then ''Risk limit exceeded''
               else ''Invalid quantity'') \<and>
            OrderResult.order_id result = 0 \<and>
            fills result = [] \<and>
            e' = e\<lparr> stats := (stats e)\<lparr> total_rejects := total_rejects (stats e) + 1 \<rparr> \<rparr> \<and>
            total_rejects (stats e') = total_rejects (stats e) + 1 \<and>
            total_orders (stats e') = total_orders (stats e) \<and>
            total_fills (stats e') = total_fills (stats e) \<and>
            total_cancels (stats e') = total_cancels (stats e) \<and>
            order_books e' = order_books e \<and> memory e' = memory e \<and>
            positions e' = positions e \<and>
            trade_history e' = trade_history e \<and> fill_history e' = fill_history e \<and>
            active_orders e' = active_orders e \<and> user_orders e' = user_orders e \<and>
            instruments e' = instruments e \<and> risk_limits e' = risk_limits e \<and>
            next_order_id e' = next_order_id e)"
proof -
  obtain result e' where s: "submit_order request e = Some (result, e')"
    using submit_order_total [OF assms] by blast
  then show ?thesis
    by (auto simp: submit_order_def reject_def split: option.splits if_splits
        dest: place_order_success)
qed

theorem submit_order_rejects_witness:
  "order_books (demo_engine 1 SCALAR 0 100 10000) 1 \<noteq> None \<and>
   submit_order (demo_request 1 1 BUY 10000 0) (demo_engine 1 SCALAR 0 100 10000) =
     Some (\<lparr> OrderResult.order_id = 0, success = False, error_message = ''Invalid quantity'', fills = [] \<rparr>,
           (demo_engine 1 SCALAR 0 100 10000)\<lparr> stats :=
              \<lparr> total_orders = 0, total_fills = 0, total_cancels = 0, total_rejects = 1 \<rparr> \<rparr>)"
proof -
  have b: "instruments (demo_engine 1 SCALAR 0 100 10000) (OrderRequest.instrument_id (demo_request 1 1 BUY 10000 0)) \<noteq> None \<longrightarrow>
           order_books (demo_engine 1 SCALAR 0 100 10000) (OrderRequest.instrument_id (demo_request 1 1 BUY 10000 0)) \<noteq> None"
    by (simp add: demo_engine_def demo_request_def)
  have q: "OrderRequest.quantity (demo_request 1 1 BUY 10000 0) \<le> 0"
    by (simp add: demo_request_def)
  have i: "instruments (demo_engine 1 SCALAR 0 100 10000) (OrderRequest.instrument_id (demo_request 1 1 BUY 10000 0))
      = Some (demo_spec 1 SCALAR 0)"
    by (simp add: demo_engine_def demo_request_def)
  have c: "check_risk (OrderRequest.user_id (demo_request 1 1 BUY 10000 0))
     (OrderRequest.instrument_id (demo_request 1 1 BUY 10000 0)) (OrderRequest.side (demo_request 1 1 BUY 10000 0))
     (OrderRequest.quantity (demo_request 1 1 BUY 10000 0)) (demo_engine 1 SCALAR 0 100 10000)"
    by (simp add: check_risk_def demo_engine_def demo_request_def Engine0_def)
  have st: "stats (demo_engine 1 SCALAR 0 100 10000) =
      \<lparr> total_orders = 0, total_fills = 0, total_cancels = 0, total_rejects = 0 \<rparr>"
    by (simp add: demo_engine_def Engine0_def)
  obtain result e' where r: "submit_order (demo_request 1 1 BUY 10000 0) (demo_engine 1 SCALAR 0 100 10000) = Some (result, e')"
    and ns: "\<not> success result" and
    rest: "\<not> success result \<longrightarrow> error_message result = ''Invalid quantity'' \<and> OrderResult.order_id result = 0 \<and>
       fills result = [] \<and>
       e' = (demo_engine 1 SCALAR 0 100 10000)\<lparr> stats :=
              \<lparr> total_orders = 0, total_fills = 0, total_cancels = 0, total_rejects = 1 \<rparr> \<rparr>"
    using submit_order_rejects [OF b] q i c st by (auto simp: demo_spec_def)
  have "result = \<lparr> OrderResult.order_id = 0, success = False, error_message = ''Invalid quantity'', fills = [] \<rparr>"
    using ns rest by (cases result) simp
  with r ns rest show ?thesis by (simp add: demo_engine_def)
qed

section \<open>The risk gate\<close>

lemma check_risk_no_limits:
  "risk_limits e user = None \<Longrightarrow> check_risk user i s qty e"
  by (simp add: check_risk_def)

lemma check_risk_with_position:
  "risk_limits e user = Some limits \<Longrightarrow> map_find user (positions e) = Some ups \<Longrightarrow>
   map_find i ups = Some pos \<Longrightarrow>
   check_risk user i s qty e \<longleftrightarrow> \<bar>net_qty pos + (if s = BUY then qty else - qty)\<bar> \<le> max_position limits"
  by (auto simp: check_risk_def Let_def)

lemma check_risk_no_position:
  "map_find user (positions e) = None \<or>
   (\<exists>ups. map_find user (positions e) = Some ups \<and> map_find i ups = None) \<Longrightarrow>
   check_risk user i s qty e"
  by (auto simp: check_risk_def split: option.splits)

text \<open>
  Claim C2, at the input where the code departs from it. User 1 has limits with
  \<open>max_position = 10\<close> and no position yet in instrument 1. A BUY of 1000 would take the
  position to 1000, beyond the limit, yet \<open>check_risk\<close> passes and \<open>submit_order\<close> accepts
  the order: the limit is only tested for a user who already has a position entry in
  the instrument (\<open>check_risk_with_position\<close>, \<open>check_risk_no_position\<close>).
\<close>

theorem check_risk_flat_user_unchecked:
  "check_risk 1 1 BUY 1000
     (snd (add_instrument (demo_spec 1 SCALAR 0) (set_risk_limits 1 demo_limits (Engine0 mem0)))) \<and>
   max_position demo_limits < \<bar>net_qty (position_of
     (snd (add_instrument (demo_spec 1 SCALAR 0) (set_risk_limits 1 demo_limits (Engine0 mem0)))) 1 1) + 1000\<bar> \<and>
   map_option (\<lambda>(result, e'). (success result, error_message result))
     (submit_order (demo_request 1 1 BUY 10000 1000)
        (snd (add_instrument (demo_spec 1 SCALAR 0) (set_risk_limits 1 demo_limits (Engine0 mem0)))))
   = Some (True, [])"
  by (simp add: check_risk_def add_instrument_def set_risk_limits_def Engine0_def demo_spec_def
      demo_limits_def position_of_def Position0_def submit_order_def demo_request_def
      place_order_def Let_def split: prod.splits)

section \<open>Settlement leaves the book alone\<close>

lemma OrderBook_cancel_order_found:
  "orders book oid \<noteq> None \<Longrightarrow> fst (OrderBook_cancel_order oid book m)"
  by (auto simp: OrderBook_cancel_order_def Let_def)

lemma cancel_order_keeps:
  "cancel_order oid user e = Some (r, e1) \<Longrightarrow> instruments e1 = instruments e \<and> positions e1 = positions e"
  by (auto simp: cancel_order_def Let_def split: option.splits prod.splits if_splits)

lemma cancel_order_frame:
  "cancel_order oid user (e\<lparr> positions := P, instruments := I \<rparr>) =
     map_option (\<lambda>(r, e1). (r, e1\<lparr> positions := P, instruments := I \<rparr>)) (cancel_order oid user e)"
  by (simp add: cancel_order_def Let_def split: option.splits prod.splits)

text \<open>
  Claim C10. \<open>settle_instrument\<close> does not touch the order book: books, orders (status,
  filled quantity) and the engine's order indices are unchanged, \<open>get_snapshot\<close> returns
  the same snapshot, and \<open>cancel_order\<close> behaves on the settled engine exactly as on the
  unsettled one; in particular an active order resting in its book is still cancelled
  successfully after settlement has halted the instrument.
\<close>

theorem settle_instrument_keeps_book:
  "order_books (snd (settle_instrument i v e)) = order_books e \<and>
   memory (snd (settle_instrument i v e)) = memory e \<and>
   active_orders (snd (settle_instrument i v e)) = active_orders e \<and>
   user_orders (snd (settle_instrument i v e)) = user_orders e \<and>
   fst (get_snapshot j (snd (settle_instrument i v e))) = fst (get_snapshot j e) \<and>
   cancel_order oid user (snd (settle_instrument i v e)) =
     map_option (\<lambda>(r, e1). (r, snd (settle_instrument i v e1))) (cancel_order oid user e) \<and>
   (\<forall>ord book. active_orders e oid = Some ord \<and> Order.user_id (heap (memory e) ord) = user \<and>
        order_books e (Order.instrument_id (heap (memory e) ord)) = Some book \<and>
        orders book oid \<noteq> None \<longrightarrow>
      map_option fst (cancel_order oid user (snd (settle_instrument i v e))) = Some True)"
proof -
  have frame: "order_books (snd (settle_instrument i v e)) = order_books e"
    "memory (snd (settle_instrument i v e)) = memory e"
    "active_orders (snd (settle_instrument i v e)) = active_orders e"
    "user_orders (snd (settle_instrument i v e)) = user_orders e"
    by (simp_all add: settle_instrument_def split: option.splits)
  have snap: "fst (get_snapshot j (snd (settle_instrument i v e))) = fst (get_snapshot j e)"
    by (simp add: get_snapshot_def frame split: option.splits prod.splits)
  have comm: "cancel_order oid user (snd (settle_instrument i v e)) =
     map_option (\<lambda>(r, e1). (r, snd (settle_instrument i v e1))) (cancel_order oid user e)"
  proof (cases "instruments e i")
    case None
    then show ?thesis
      using cancel_order_keeps [of oid user e]
      by (cases "cancel_order oid user e") (auto simp: settle_instrument_def)
  next
    case (Some inst)
    then show ?thesis
      using cancel_order_keeps [of oid user e]
      by (cases "cancel_order oid user e") (auto simp: settle_instrument_def cancel_order_frame)
  qed
  have can: "map_option fst (cancel_order oid user (snd (settle_instrument i v e))) = Some True"
    if "active_orders e oid = Some ord" "Order.user_id (heap (memory e) ord) = user"
      "order_books e (Order.instrument_id (heap (memory e) ord)) = Some book" "orders book oid \<noteq> None"
    for ord book
    using that OrderBook_cancel_order_found [OF that(4), of "memory e"]
    by (auto simp: cancel_order_def frame Let_def split: prod.splits)
  show ?thesis using frame snap comm can by blast
qed


theorem settle_instrument_keeps_book_witness:
  "active_orders demo_resting 1 = Some 0 \<and>
   Order.user_id (heap (memory demo_resting) 0) = 1 \<and>
   map_option (\<lambda>book. orders book 1) (order_books demo_resting 1) = Some (Some 0) \<and>
   fst (settle_instrument 1 11000 demo_resting) \<and>
   MarketSnapshot.bids (fst (get_snapshot 1 (snd (settle_instrument 1 11000 demo_resting))))
     = [\<lparr> PriceLevel.price = 10000, size = 100 \<rparr>] \<and>
   map_option fst (cancel_order 1 1 (snd (settle_instrument 1 11000 demo_resting))) = Some True"
proof -
  have a: "active_orders demo_resting 1 = Some 0"
    and u: "Order.user_id (heap (memory demo_resting) 0) = 1"
    and i: "Order.instrument_id (heap (memory demo_resting) 0) = 1"
    and b: "order_books demo_resting 1 =
              Some ((OrderBook0 1)\<lparr> OrderBook.bids := [(10000, [0])], orders := [1 \<mapsto> 0] \<rparr>)"
    and s: "fst (settle_instrument 1 11000 demo_resting)"
    by (simp_all add: demo_resting_def mem0_def Order0_def settle_instrument_def)
  have sn: "MarketSnapshot.bids (fst (get_snapshot 1 demo_resting)) = [\<lparr> PriceLevel.price = 10000, size = 100 \<rparr>]"
    by (simp add: get_snapshot_def b OrderBook_get_snapshot_def now_def default_depth_def
        OrderBook0_def remaining_def demo_resting_def mem0_def Order0_def)
  note t = settle_instrument_keeps_book [where i = 1 and v = 11000 and e = demo_resting and j = 1
      and oid = 1 and user = 1]
  from t have snap: "fst (get_snapshot 1 (snd (settle_instrument 1 11000 demo_resting))) =
      fst (get_snapshot 1 demo_resting)"
    by blast
  from t have "\<forall>ord book. active_orders demo_resting 1 = Some ord \<and>
        Order.user_id (heap (memory demo_resting) ord) = 1 \<and>
        order_books demo_resting (Order.instrument_id (heap (memory demo_resting) ord)) = Some book \<and>
        orders book 1 \<noteq> None \<longrightarrow>
      map_option fst (cancel_order 1 1 (snd (settle_instrument 1 11000 demo_resting))) = Some True"
    by blast
  from this [rule_format, of 0 "(OrderBook0 1)\<lparr> OrderBook.bids := [(10000, [0])], orders := [1 \<mapsto> 0] \<rparr>"]
    a u i b
  have can: "map_option fst (cancel_order 1 1 (snd (settle_instrument 1 11000 demo_resting))) = Some True"
    by simp
  show ?thesis
    unfolding snap using a u b s sn can by simp
qed

section \<open>Matching: the fills\<close>

lemma ident_party: "ident a = ident b \<Longrightarrow> party a = party b"
  by (simp add: ident_def party_def)

lemma ident_set_status [simp]: "ident (heap (set_status x s m) y) = ident (heap m y)"
  by (simp add: set_status_def ident_def)

lemma ident_add_filled [simp]: "ident (heap (add_filled x q m) y) = ident (heap m y)"
  by (simp add: add_filled_def ident_def)

lemma clock_set_status [simp]: "clock (set_status x s m) = clock m" "reads (set_status x s m) = reads m"
  "brk (set_status x s m) = brk m"
  by (simp_all add: set_status_def)

lemma clock_add_filled [simp]: "clock (add_filled x q m) = clock m" "reads (add_filled x q m) = reads m"
  "brk (add_filled x q m) = brk m"
  by (simp_all add: add_filled_def)

lemma execute_match_result:
  assumes "execute_match inst ord x p m = (f1, f2, m1)"
  shows "f1 = \<lparr> Fill.order_id = Order.id (heap m ord), Fill.user_id = Order.user_id (heap m ord),
                Fill.instrument_id = inst, Fill.side = Order.side (heap m ord), Fill.price = p,
                Fill.quantity = min (remaining m ord) (remaining m x),
                Fill.timestamp = clock m (reads m) \<rparr>"
    and "f2 = \<lparr> Fill.order_id = Order.id (heap m x), Fill.user_id = Order.user_id (heap m x),
                Fill.instrument_id = inst, Fill.side = Order.side (heap m x), Fill.price = p,
                Fill.quantity = min (remaining m ord) (remaining m x),
                Fill.timestamp = clock m (Suc (reads m)) \<rparr>"
    and "m1 = add_filled x (min (remaining m ord) (remaining m x))
               (add_filled ord (min (remaining m ord) (remaining m x)) (m\<lparr> reads := reads m + 2 \<rparr>))"
  using assms
  by (auto simp: execute_match_def create_fill_def now_def Let_def add_filled_def)

lemma fill_pairs_append:
  "fill_pairs a ps xs \<Longrightarrow> fill_pairs a ps ys \<Longrightarrow> fill_pairs a ps (xs @ ys)"
  by (induction a ps xs rule: fill_pairs.induct) auto

lemma fill_pairs_mono:
  "fill_pairs a ps xs \<Longrightarrow> set ps \<subseteq> set ps' \<Longrightarrow> fill_pairs a ps' xs"
  by (induction a ps xs rule: fill_pairs.induct) auto

lemma fill_pairs_even: "fill_pairs a ps xs \<Longrightarrow> even (length xs)"
  by (induction a ps xs rule: fill_pairs.induct) auto

text \<open>What one run of the inner loop adds to the fills, and what it leaves alone.\<close>

text \<open>
  What a stretch of matching emits and what it leaves alone: the new fills are paired,
  carry successive clock readings, admissible prices and the book's instrument; the
  clock advanced by one reading per fill and no identity field of any order changed.
\<close>

definition emitted ::
  "(Price \<Rightarrow> bool) \<Rightarrow> InstrumentId \<Rightarrow> mem \<Rightarrow> addr \<Rightarrow> addr list \<Rightarrow> Fill list \<Rightarrow> mem \<Rightarrow> bool" where
  "emitted ok inst m ord q new m' \<longleftrightarrow>
     fill_pairs (party (heap m ord)) (map (\<lambda>x. party (heap m x)) q) new \<and>
     map Fill.timestamp new = map (clock m) [reads m ..< reads m + length new] \<and>
     (\<forall>f \<in> set new. ok (Fill.price f) \<and> Fill.instrument_id f = inst) \<and>
     reads m' = reads m + length new \<and> clock m' = clock m \<and> brk m' = brk m \<and>
     (\<forall>x. ident (heap m' x) = ident (heap m x))"

lemma emitted_refl: "emitted ok inst m ord q [] m"
  by (simp add: emitted_def)

lemma emitted_weaken:
  "emitted ok inst m ord q new m' \<Longrightarrow> set q \<subseteq> set q' \<Longrightarrow> (\<And>x. ok x \<Longrightarrow> ok' x) \<Longrightarrow>
   emitted ok' inst m ord q' new m'"
proof -
  assume em: "emitted ok inst m ord q new m'" and sub: "set q \<subseteq> set q'"
    and ok: "\<And>x. ok x \<Longrightarrow> ok' x"
  from em have "fill_pairs (party (heap m ord)) (map (\<lambda>x. party (heap m x)) q) new"
    by (simp add: emitted_def)
  then have "fill_pairs (party (heap m ord)) (map (\<lambda>x. party (heap m x)) q') new"
    by (rule fill_pairs_mono) (use sub in auto)
  with em ok show ?thesis by (simp add: emitted_def)
qed

lemma ident_execute_match:
  "execute_match inst ord x p m = (f1, f2, m1) \<Longrightarrow> ident (heap m1 y) = ident (heap m y)"
  using execute_match_result(3) [of inst ord x p m f1 f2 m1] by simp

lemma upt_split: "[a ..< a + (k + n)] = [a ..< a + k] @ [a + k ..< a + k + n]"
  by (metis add.assoc le_add1 upt_add_eq_append)

lemma emitted_trans:
  assumes 1: "emitted ok inst m ord q new1 m1" and 2: "emitted ok inst m1 ord q new2 m2"
  shows "emitted ok inst m ord q (new1 @ new2) m2"
proof -
  from 1 have id: "ident (heap m1 y) = ident (heap m y)" for y by (simp add: emitted_def)
  have pa: "party (heap m1 y) = party (heap m y)" for y by (rule ident_party [OF id])
  from 1 have rd: "reads m1 = reads m + length new1" "clock m1 = clock m" by (simp_all add: emitted_def)
  have len: "reads m + length (new1 @ new2) = reads m + (length new1 + length new2)" by simp
  show ?thesis
    using 1 2 unfolding emitted_def pa rd id len upt_split
    by (auto intro: fill_pairs_append)
qed

lemma emitted_step:
  assumes ex: "execute_match inst ord x p m = (f1, f2, m1)"
  shows "emitted (\<lambda>y. y = p) inst m ord [x] [f1, f2] (set_status x s m1)"
proof -
  note r = execute_match_result [OF ex]
  show ?thesis
    unfolding emitted_def
    by (simp add: r fill_party_def party_def ident_execute_match [OF ex] upt_rec)
qed

lemma match_level_emitted:
  "match_level inst ord p (m, q, os, lp, fs) = (m', q', os', lp', fs') \<Longrightarrow>
     \<exists>new. fs' = fs @ new \<and> emitted (\<lambda>y. y = p) inst m ord q new m' \<and> set q' \<subseteq> set q"
proof (induction "(m, q, os, lp, fs)" arbitrary: m q os lp fs
    rule: match_level_cases [where inst = inst and ord = ord and p = p])
  case (stop m q os lp fs)
  then show ?case by (auto simp: match_level_stop emitted_refl)
next
  case (pop m x xs os lp fs f1 f2 m1)
  from pop.prems have ml: "match_level inst ord p
      (set_status x FILLED m1, xs, os(Order.id (heap m1 x) := None), p, fs @ [f1, f2]) = (m', q', os', lp', fs')"
    by (simp add: match_level_pop [OF pop.hyps(1-3)])
  from pop.hyps(4) [OF ml] obtain new where
    new: "fs' = (fs @ [f1, f2]) @ new" "emitted (\<lambda>y. y = p) inst (set_status x FILLED m1) ord xs new m'"
      "set q' \<subseteq> set xs"
    by blast
  have "emitted (\<lambda>y. y = p) inst m ord (x # xs) ([f1, f2] @ new) m'"
    by (rule emitted_trans [OF emitted_weaken [OF emitted_step [OF pop.hyps(2)]]
          emitted_weaken [OF new(2)]]) auto
  with new(1,3) show ?case by auto
next
  case (keep m x xs os lp fs f1 f2 m1)
  from keep.prems have res: "m' = set_status x PARTIAL m1" "q' = x # xs" "fs' = fs @ [f1, f2]"
    by (simp_all add: match_level_keep [OF keep.hyps(1-3)])
  have "emitted (\<lambda>y. y = p) inst m ord (x # xs) [f1, f2] m'"
    unfolding res by (rule emitted_weaken [OF emitted_step [OF keep.hyps(2)]]) auto
  with res show ?case by auto
qed

lemma match_loop_emitted:
  "match_loop inst s ord (m, lv, os, lp, fs) = (m', lv', os', lp', fs') \<Longrightarrow>
     \<exists>new. fs' = fs @ new \<and>
       emitted (\<lambda>y. y \<in> fst ` set lv \<and> crosses s (Order.price (heap m ord)) y) inst m ord
         (concat (map snd lv)) new m' \<and>
       fst ` set lv' \<subseteq> fst ` set lv \<and> set (concat (map snd lv')) \<subseteq> set (concat (map snd lv))"
proof (induction "(m, lv, os, lp, fs)" arbitrary: m lv os lp fs
    rule: match_loop_cases [where inst = inst and ord = ord and s = s])
  case (stop m lv os lp fs)
  then show ?case by (auto simp: match_loop_stop emitted_refl)
next
  case (break m p q lv os lp fs)
  then show ?case by (auto simp: match_loop_break emitted_refl)
next
  case (reject m p q lv os lp fs)
  from reject.prems have res: "m' = set_status ord REJECTED m" "lv' = (p, q) # lv" "fs' = fs"
    by (simp_all add: match_loop_reject [OF reject.hyps])
  show ?case unfolding res by (auto simp: emitted_def)
next
  case (advance m p q lv os lp fs m1 os1 lp1 fs1)
  from advance.prems have ml: "match_loop inst s ord (m1, lv, os1, lp1, fs1) = (m', lv', os', lp', fs')"
    by (simp add: match_loop_next [OF advance.hyps(1-4)])
  from match_level_emitted [OF advance.hyps(4)] obtain new1 where
    n1: "fs1 = fs @ new1" "emitted (\<lambda>y. y = p) inst m ord q new1 m1" by blast
  from advance.hyps(5) [OF ml] obtain new2 where
    n2: "fs' = fs1 @ new2"
      "emitted (\<lambda>y. y \<in> fst ` set lv \<and> crosses s (Order.price (heap m1 ord)) y) inst m1 ord
         (concat (map snd lv)) new2 m'"
      "fst ` set lv' \<subseteq> fst ` set lv" "set (concat (map snd lv')) \<subseteq> set (concat (map snd lv))"
    by blast
  from n1(2) have "ident (heap m1 ord) = ident (heap m ord)" by (simp add: emitted_def)
  then have pr: "Order.price (heap m1 ord) = Order.price (heap m ord)" by (simp add: ident_def)
  have "emitted (\<lambda>y. y \<in> fst ` set ((p, q) # lv) \<and> crosses s (Order.price (heap m ord)) y) inst m ord
         (concat (map snd ((p, q) # lv))) (new1 @ new2) m'"
    by (rule emitted_trans [OF emitted_weaken [OF n1(2)] emitted_weaken [OF n2(2)]])
       (use advance.hyps(2) pr in auto)
  with n1(1) n2(1,3,4) show ?case by auto
next
  case (last m p q lv os lp fs m1 q1 os1 lp1 fs1)
  from last.prems have res: "m' = m1" "lv' = (p, q1) # lv" "fs' = fs1"
    by (simp_all add: match_loop_last [OF last.hyps])
  from match_level_emitted [OF last.hyps(4)] obtain new1 where
    n1: "fs1 = fs @ new1" "emitted (\<lambda>y. y = p) inst m ord q new1 m1" "set q1 \<subseteq> set q" by blast
  have "emitted (\<lambda>y. y \<in> fst ` set ((p, q) # lv) \<and> crosses s (Order.price (heap m ord)) y) inst m ord
         (concat (map snd ((p, q) # lv))) new1 m1"
    by (rule emitted_weaken [OF n1(2)]) (use last.hyps(2) in auto)
  with n1(1,3) res show ?case by auto
qed


lemma match_order_emitted:
  assumes "match_order ord book m = (fs, book', m')"
  shows "emitted (\<lambda>y. crosses (Order.side (heap m ord)) (Order.price (heap m ord)) y)
           (OrderBook.instrument_id book) m ord (opposite_queue book (Order.side (heap m ord))) fs m'"
proof (cases "Order.side (heap m ord)")
  case BUY
  with assms obtain lv os lp where
    "match_loop (OrderBook.instrument_id book) BUY ord
       (m, OrderBook.asks book, orders book, OrderBook.last_price book, []) = (m', lv, os, lp, fs)"
    by (auto simp: match_order_def split: prod.splits)
  from match_loop_emitted [OF this] BUY show ?thesis
    by (auto simp: opposite_queue_def opposite_levels_def elim: emitted_weaken)
next
  case SELL
  with assms obtain lv os lp where
    "match_loop (OrderBook.instrument_id book) SELL ord
       (m, OrderBook.bids book, orders book, OrderBook.last_price book, []) = (m', lv, os, lp, fs)"
    by (auto simp: match_order_def split: prod.splits)
  from match_loop_emitted [OF this] SELL show ?thesis
    by (auto simp: opposite_queue_def opposite_levels_def elim: emitted_weaken)
qed

lemma add_order_fills:
  "fst (add_order ord book m) =
   fst (match_order ord (book\<lparr> orders := (orders book)(Order.id (heap m ord) \<mapsto> ord) \<rparr>) m)"
  by (simp add: add_order_def split: prod.splits)

lemma demo_add_order_fills:
  "fst (add_order 3 demo_ask_book demo_ask_mem) =
     [\<lparr> Fill.order_id = 2, Fill.user_id = 2, Fill.instrument_id = 1, Fill.side = BUY,
        Fill.price = 10000, Fill.quantity = 100, Fill.timestamp = 2 \<rparr>,
      \<lparr> Fill.order_id = 1, Fill.user_id = 1, Fill.instrument_id = 1, Fill.side = SELL,
        Fill.price = 10000, Fill.quantity = 100, Fill.timestamp = 3 \<rparr>]"
  by (simp add: add_order_fills match_order_def demo_ask_book_def demo_ask_mem_def mem0_def Order0_def
      OrderBook0_def match_loop.simps match_level.simps crosses_def execute_match_def create_fill_def
      now_def remaining_def add_filled_def set_status_def Let_def)

text \<open>
  The claim as stated asks for identical timestamps within a pair. With a clock that
  advances between two readings the two fills of the single match below carry the
  readings 2 and 3.
\<close>

theorem fill_pair_timestamps_differ:
  "length (fst (add_order 3 demo_ask_book demo_ask_mem)) = 2 \<and>
   Fill.timestamp (fst (add_order 3 demo_ask_book demo_ask_mem) ! 0) = 2 \<and>
   Fill.timestamp (fst (add_order 3 demo_ask_book demo_ask_mem) ! 1) = 3 \<and>
   Fill.timestamp (fst (add_order 3 demo_ask_book demo_ask_mem) ! 0) \<noteq>
   Fill.timestamp (fst (add_order 3 demo_ask_book demo_ask_mem) ! 1)"
  by (simp add: demo_add_order_fills)

section \<open>Post-only orders\<close>

text \<open>
  Claim C3. An incoming post-only order (unfilled quantity left, its id not yet in the
  book) whose limit crosses the best opposite price: \<open>add_order\<close> returns no fills, the
  order's status is REJECTED, and the book is exactly the book before: both sides, the
  \<open>orders\<close> map, \<open>last_price\<close>. The store differs only in the status of the incoming order,
  so every resting order keeps its \<open>filled_quantity\<close> and \<open>status\<close>.
\<close>

theorem post_only_cross_rejected:
  assumes po: "Order.post_only (heap m ord)"
    and lt: "filled_quantity (heap m ord) < Order.quantity (heap m ord)"
    and fresh: "orders book (Order.id (heap m ord)) = None"
    and cross: "case Order.side (heap m ord) of
                  BUY \<Rightarrow> OrderBook.asks book \<noteq> [] \<and> get_best_ask book \<le> Order.price (heap m ord)
                | SELL \<Rightarrow> OrderBook.bids book \<noteq> [] \<and> Order.price (heap m ord) \<le> get_best_bid book"
  shows "add_order ord book m = ([], book, set_status ord REJECTED m) \<and>
         status (heap (set_status ord REJECTED m) ord) = REJECTED \<and>
         (\<forall>x. x \<noteq> ord \<longrightarrow> heap (set_status ord REJECTED m) x = heap m x)"
proof -
  let ?book1 = "book\<lparr> orders := (orders book)(Order.id (heap m ord) \<mapsto> ord) \<rparr>"
  have mo: "match_order ord ?book1 m = ([], ?book1, set_status ord REJECTED m)"
  proof (cases "Order.side (heap m ord)")
    case BUY
    with cross obtain p q lv where lv: "OrderBook.asks book = (p, q) # lv" and le: "p \<le> Order.price (heap m ord)"
      by (cases "OrderBook.asks book") (auto simp: get_best_ask_def)
    from le have cr: "crosses BUY (Order.price (heap m ord)) p" by (simp add: crosses_def)
    show ?thesis
      by (simp add: match_order_def BUY lv match_loop_reject [OF lt cr po])
  next
    case SELL
    with cross obtain p q lv where lv: "OrderBook.bids book = (p, q) # lv" and le: "Order.price (heap m ord) \<le> p"
      by (cases "OrderBook.bids book") (auto simp: get_best_bid_def)
    from le have cr: "crosses SELL (Order.price (heap m ord)) p" by (simp add: crosses_def)
    show ?thesis
      by (simp add: match_order_def SELL lv match_loop_reject [OF lt cr po])
  qed
  have st: "status (heap (set_status ord REJECTED m) ord) = REJECTED"
    by (simp add: set_status_def)
  have id: "Order.id (heap (set_status ord REJECTED m) ord) = Order.id (heap m ord)"
    by (simp add: set_status_def)
  have "(orders book)(Order.id (heap m ord) := None) = orders book"
    using fresh by (simp add: fun_upd_idem)
  then have "add_order ord book m = ([], book, set_status ord REJECTED m)"
    by (simp add: add_order_def mo st id)
  then show ?thesis by (simp add: set_status_def)
qed

theorem post_only_cross_rejected_witness:
  "Order.post_only (heap demo_post_only_mem 3) \<and>
   Order.side (heap demo_post_only_mem 3) = BUY \<and>
   get_best_ask demo_ask_book = 10000 \<and> Order.price (heap demo_post_only_mem 3) = 10000 \<and>
   add_order 3 demo_ask_book demo_post_only_mem = ([], demo_ask_book, set_status 3 REJECTED demo_post_only_mem)"
proof -
  have h: "Order.post_only (heap demo_post_only_mem 3)"
    "filled_quantity (heap demo_post_only_mem 3) < Order.quantity (heap demo_post_only_mem 3)"
    "orders demo_ask_book (Order.id (heap demo_post_only_mem 3)) = None"
    "Order.side (heap demo_post_only_mem 3) = BUY"
    "OrderBook.asks demo_ask_book \<noteq> []" "get_best_ask demo_ask_book = 10000"
    "Order.price (heap demo_post_only_mem 3) = 10000"
    by (simp_all add: demo_post_only_mem_def demo_ask_mem_def mem0_def Order0_def demo_ask_book_def
        OrderBook0_def get_best_ask_def)
  have c: "case Order.side (heap demo_post_only_mem 3) of
             BUY \<Rightarrow> OrderBook.asks demo_ask_book \<noteq> [] \<and>
                    get_best_ask demo_ask_book \<le> Order.price (heap demo_post_only_mem 3)
           | SELL \<Rightarrow> OrderBook.bids demo_ask_book \<noteq> [] \<and>
                    Order.price (heap demo_post_only_mem 3) \<le> get_best_bid demo_ask_book"
    by (simp add: h)
  from post_only_cross_rejected [OF h(1,2,3) c] h show ?thesis by simp
qed

section \<open>Matching: price-time priority\<close>

text \<open>
  What a stretch of matching did to a queue \<open>q\<close>: its first \<open>n\<close> orders are completely
  filled, everything behind the next one is untouched, and so is every order outside
  the queue other than the incoming one.
\<close>

definition consumed :: "mem \<Rightarrow> addr \<Rightarrow> addr list \<Rightarrow> nat \<Rightarrow> mem \<Rightarrow> bool" where
  "consumed m ord q n m' \<longleftrightarrow>
     n \<le> length q \<and>
     (\<forall>x \<in> set (take n q). filled_quantity (heap m' x) = Order.quantity (heap m x) \<and>
                             status (heap m' x) = FILLED) \<and>
     (\<forall>x \<in> set (drop (Suc n) q). heap m' x = heap m x) \<and>
     (\<forall>x. x \<noteq> ord \<longrightarrow> x \<notin> set q \<longrightarrow> heap m' x = heap m x)"

lemma heap_execute_match_other:
  "execute_match inst ord x p m = (f1, f2, m1) \<Longrightarrow> y \<noteq> ord \<Longrightarrow> y \<noteq> x \<Longrightarrow> heap m1 y = heap m y"
  using execute_match_result(3) [of inst ord x p m f1 f2 m1] by (simp add: add_filled_def)

lemma execute_match_popped:
  assumes ex: "execute_match inst ord x p m = (f1, f2, m1)" and ne: "x \<noteq> ord"
    and full: "Order.quantity (heap m1 x) \<le> filled_quantity (heap m1 x)"
  shows "filled_quantity (heap m1 x) = Order.quantity (heap m x)"
  using full unfolding execute_match_result(3) [OF ex]
  by (simp add: add_filled_def ne remaining_def min_def split: if_splits)

lemma passives_append: "even (length xs) \<Longrightarrow> passives (xs @ ys) = passives xs @ passives ys"
  by (induction xs rule: passives.induct) auto

lemma match_level_priority:
  "match_level inst ord p (m, q, os, lp, fs) = (m', q', os', lp', fs') \<Longrightarrow>
   distinct q \<Longrightarrow> ord \<notin> set q \<Longrightarrow>
     \<exists>n k new. q' = drop n q \<and> consumed m ord q n m' \<and> fs' = fs @ new \<and>
        n \<le> k \<and> k \<le> Suc n \<and> k \<le> length q \<and>
        map fill_party (passives new) = map (\<lambda>x. party (heap m x)) (take k q)"
proof (induction "(m, q, os, lp, fs)" arbitrary: m q os lp fs
    rule: match_level_cases [where inst = inst and ord = ord and p = p])
  case (stop m q os lp fs)
  from stop.prems(1) have "m' = m" "q' = q" "fs' = fs" by (simp_all add: match_level_stop [OF stop.hyps])
  then show ?case
    by (intro exI [of _ 0] exI [of _ "[]"]) (simp add: consumed_def)
next
  case (pop m x xs os lp fs f1 f2 m1)
  let ?m2 = "set_status x FILLED m1"
  from pop.prems have ml: "match_level inst ord p
      (?m2, xs, os(Order.id (heap m1 x) := None), p, fs @ [f1, f2]) = (m', q', os', lp', fs')"
    by (simp add: match_level_pop [OF pop.hyps(1-3)])
  from pop.prems have d: "distinct xs" "ord \<notin> set xs" "x \<notin> set xs" "x \<noteq> ord" by auto
  from pop.hyps(4) [OF ml d(1,2)] obtain n k new where
    ih: "q' = drop n xs" "consumed ?m2 ord xs n m'" "fs' = (fs @ [f1, f2]) @ new"
      "n \<le> k" "k \<le> Suc n" "k \<le> length xs"
      "map fill_party (passives new) = map (\<lambda>y. party (heap ?m2 y)) (take k xs)"
    by blast
  note r = execute_match_result [OF pop.hyps(2)]
  have other: "heap ?m2 y = heap m y" if "y \<noteq> ord" "y \<noteq> x" for y
    using heap_execute_match_other [OF pop.hyps(2) that] that by (simp add: set_status_def)
  have idm: "ident (heap ?m2 y) = ident (heap m y)" for y
    by (simp add: ident_execute_match [OF pop.hyps(2)])
  have xfull: "filled_quantity (heap ?m2 x) = Order.quantity (heap m x)" "status (heap ?m2 x) = FILLED"
    using execute_match_popped [OF pop.hyps(2) d(4) pop.hyps(3)] by (simp_all add: set_status_def)
  have keepx: "heap m' x = heap ?m2 x"
    using ih(2) d(3,4) by (simp add: consumed_def)
  have c: "consumed m ord (x # xs) (Suc n) m'"
    unfolding consumed_def
  proof (intro conjI ballI allI impI)
    show "Suc n \<le> length (x # xs)" using ih(2) by (simp add: consumed_def)
  next
    fix y assume "y \<in> set (take (Suc n) (x # xs))"
    then consider "y = x" | "y \<in> set (take n xs)" by auto
    then show "filled_quantity (heap m' y) = Order.quantity (heap m y)"
    proof cases
      case 1 then show ?thesis using keepx xfull by simp
    next
      case 2
      with ih(2) have "filled_quantity (heap m' y) = Order.quantity (heap ?m2 y)" by (simp add: consumed_def)
      with idm [of y] show ?thesis by (simp add: ident_def)
    qed
  next
    fix y assume "y \<in> set (take (Suc n) (x # xs))"
    then consider "y = x" | "y \<in> set (take n xs)" by auto
    then show "status (heap m' y) = FILLED"
    proof cases
      case 1 then show ?thesis using keepx xfull by simp
    next
      case 2
      with ih(2) show ?thesis by (simp add: consumed_def)
    qed
  next
    fix y assume y: "y \<in> set (drop (Suc (Suc n)) (x # xs))"
    then have y': "y \<in> set (drop (Suc n) xs)" by simp
    then have "y \<in> set xs" by (meson in_set_dropD)
    with d have "y \<noteq> ord" "y \<noteq> x" by auto
    with ih(2) y' other show "heap m' y = heap m y" by (simp add: consumed_def)
  next
    fix y assume "y \<noteq> ord" "y \<notin> set (x # xs)"
    with ih(2) other show "heap m' y = heap m y" by (simp add: consumed_def)
  qed
  have pa: "party (heap ?m2 y) = party (heap m y)" for y by (rule ident_party [OF idm])
  have f2: "fill_party f2 = party (heap m x)" by (simp add: r fill_party_def party_def)
  have "map fill_party (passives ([f1, f2] @ new)) = map (\<lambda>y. party (heap m y)) (take (Suc k) (x # xs))"
    using ih(7) f2 unfolding pa by simp
  with ih c show ?case
    by (intro exI [of _ "Suc n"] exI [of _ "Suc k"] exI [of _ "[f1, f2] @ new"]) simp
next
  case (keep m x xs os lp fs f1 f2 m1)
  let ?m2 = "set_status x PARTIAL m1"
  from keep.prems have res: "m' = ?m2" "q' = x # xs" "fs' = fs @ [f1, f2]"
    by (simp_all add: match_level_keep [OF keep.hyps(1-3)])
  from keep.prems have d: "x \<notin> set xs" "x \<noteq> ord" "ord \<notin> set xs" by auto
  note r = execute_match_result [OF keep.hyps(2)]
  have other: "heap ?m2 y = heap m y" if "y \<noteq> ord" "y \<noteq> x" for y
    using heap_execute_match_other [OF keep.hyps(2) that] that by (simp add: set_status_def)
  have c: "consumed m ord (x # xs) 0 m'"
    unfolding consumed_def res using d other by (auto simp del: set_status_def) metis
  have f2: "fill_party f2 = party (heap m x)" by (simp add: r fill_party_def party_def)
  show ?case
    using c f2 res by (intro exI [of _ 0] exI [of _ "Suc 0"] exI [of _ "[f1, f2]"]) simp
qed


lemma consumed_extend:
  assumes c: "consumed m ord q n m'" and d: "distinct (q @ Q)" and o: "ord \<notin> set Q"
  shows "consumed m ord (q @ Q) n m'"
  unfolding consumed_def
proof (intro conjI ballI allI impI)
  show "n \<le> length (q @ Q)" using c by (simp add: consumed_def)
next
  fix y assume "y \<in> set (take n (q @ Q))"
  with c have "y \<in> set (take n q)" by (simp add: consumed_def)
  with c show "filled_quantity (heap m' y) = Order.quantity (heap m y)" "status (heap m' y) = FILLED"
    by (simp_all add: consumed_def)
next
  fix y assume "y \<in> set (drop (Suc n) (q @ Q))"
  then consider "y \<in> set (drop (Suc n) q)" | "y \<in> set Q" by (auto dest: in_set_dropD)
  then show "heap m' y = heap m y"
  proof cases
    case 1 with c show ?thesis by (simp add: consumed_def)
  next
    case 2
    with d o have "y \<noteq> ord" "y \<notin> set q" by auto
    with c show ?thesis by (simp add: consumed_def)
  qed
next
  fix y assume "y \<noteq> ord" "y \<notin> set (q @ Q)"
  with c show "heap m' y = heap m y" by (simp add: consumed_def)
qed

lemma consumed_trans:
  assumes c1: "consumed m ord q (length q) m1" and c2: "consumed m1 ord Q n m'"
    and d: "distinct (q @ Q)" and o: "ord \<notin> set (q @ Q)"
  shows "consumed m ord (q @ Q) (length q + n) m'"
  unfolding consumed_def
proof (intro conjI ballI allI impI)
  show "length q + n \<le> length (q @ Q)" using c2 by (simp add: consumed_def)
next
  fix y assume y: "y \<in> set (take (length q + n) (q @ Q))"
  then consider "y \<in> set q" | "y \<in> set (take n Q)" "y \<notin> set q"
    using d by (auto dest: in_set_takeD)
  then have "filled_quantity (heap m' y) = Order.quantity (heap m y) \<and> status (heap m' y) = FILLED"
  proof cases
    case 1
    with d o have "y \<noteq> ord" "y \<notin> set Q" by auto
    with c2 have "heap m' y = heap m1 y" by (simp add: consumed_def)
    with c1 1 show ?thesis by (simp add: consumed_def)
  next
    case 2
    then have "y \<in> set Q" by (auto dest: in_set_takeD)
    with o have "y \<noteq> ord" by auto
    with c1 2 have "heap m1 y = heap m y" by (simp add: consumed_def)
    with c2 2 show ?thesis by (simp add: consumed_def)
  qed
  then show "filled_quantity (heap m' y) = Order.quantity (heap m y)" "status (heap m' y) = FILLED"
    by simp_all
next
  fix y assume "y \<in> set (drop (Suc (length q + n)) (q @ Q))"
  then have y: "y \<in> set (drop (Suc n) Q)" by simp
  then have "y \<in> set Q" by (auto dest: in_set_dropD)
  with d o have "y \<noteq> ord" "y \<notin> set q" by auto
  with c1 have "heap m1 y = heap m y" by (simp add: consumed_def)
  with c2 y show "heap m' y = heap m y" by (simp add: consumed_def)
next
  fix y assume y: "y \<noteq> ord" "y \<notin> set (q @ Q)"
  with c1 have "heap m1 y = heap m y" by (simp add: consumed_def)
  with c2 y show "heap m' y = heap m y" by (simp add: consumed_def)
qed

lemma match_loop_priority:
  "match_loop inst s ord (m, lv, os, lp, fs) = (m', lv', os', lp', fs') \<Longrightarrow>
   distinct (concat (map snd lv)) \<Longrightarrow> ord \<notin> set (concat (map snd lv)) \<Longrightarrow>
     \<exists>n k new. concat (map snd lv') = drop n (concat (map snd lv)) \<and>
        consumed m ord (concat (map snd lv)) n m' \<and> fs' = fs @ new \<and>
        n \<le> k \<and> k \<le> Suc n \<and> k \<le> length (concat (map snd lv)) \<and>
        map fill_party (passives new) = map (\<lambda>x. party (heap m x)) (take k (concat (map snd lv)))"
proof (induction "(m, lv, os, lp, fs)" arbitrary: m lv os lp fs
    rule: match_loop_cases [where inst = inst and ord = ord and s = s])
  case (stop m lv os lp fs)
  from stop.prems(1) have "m' = m" "lv' = lv" "fs' = fs" by (simp_all add: match_loop_stop [OF stop.hyps])
  then show ?case
    by (intro exI [of _ 0] exI [of _ "[]"]) (simp add: consumed_def)
next
  case (break m p q lv os lp fs)
  from break.prems(1) have "m' = m" "lv' = (p, q) # lv" "fs' = fs"
    by (simp_all add: match_loop_break [OF break.hyps])
  then show ?case
    by (intro exI [of _ 0] exI [of _ "[]"]) (simp add: consumed_def)
next
  case (reject m p q lv os lp fs)
  from reject.prems(1) have "m' = set_status ord REJECTED m" "lv' = (p, q) # lv" "fs' = fs"
    by (simp_all add: match_loop_reject [OF reject.hyps])
  moreover have "x \<in> set (drop k (q @ concat (map snd lv))) \<Longrightarrow> x \<noteq> ord" for x k
    using reject.prems(3) by (auto dest!: in_set_dropD)
  ultimately show ?case
    by (intro exI [of _ 0] exI [of _ "[]"]) (auto simp: consumed_def set_status_def)
next
  case (advance m p q lv os lp fs m1 os1 lp1 fs1)
  let ?Q = "concat (map snd lv)"
  from advance.prems have ml: "match_loop inst s ord (m1, lv, os1, lp1, fs1) = (m', lv', os', lp', fs')"
    by (simp add: match_loop_next [OF advance.hyps(1-4)])
  from advance.prems have d: "distinct q" "ord \<notin> set q" "distinct ?Q" "ord \<notin> set ?Q"
    "distinct (q @ ?Q)" "ord \<notin> set (q @ ?Q)" by auto
  from match_level_priority [OF advance.hyps(4) d(1,2)] obtain n1 k1 new1 where
    l: "[] = drop n1 q" "consumed m ord q n1 m1" "fs1 = fs @ new1" "n1 \<le> k1" "k1 \<le> length q"
      "map fill_party (passives new1) = map (\<lambda>x. party (heap m x)) (take k1 q)"
    by blast
  from l(1,2) have n1: "n1 = length q" by (simp add: consumed_def)
  with l have k1: "k1 = length q" by simp
  from match_level_emitted [OF advance.hyps(4)] l(3) have em: "emitted (\<lambda>y. y = p) inst m ord q new1 m1"
    by auto
  then have ev: "even (length new1)" and idm: "\<And>y. ident (heap m1 y) = ident (heap m y)"
    by (auto simp: emitted_def dest: fill_pairs_even)
  have pa: "party (heap m1 y) = party (heap m y)" for y by (rule ident_party [OF idm])
  from advance.hyps(5) [OF ml d(3,4)] obtain n2 k2 new2 where
    ih: "concat (map snd lv') = drop n2 ?Q" "consumed m1 ord ?Q n2 m'" "fs' = fs1 @ new2"
      "n2 \<le> k2" "k2 \<le> Suc n2" "k2 \<le> length ?Q"
      "map fill_party (passives new2) = map (\<lambda>x. party (heap m1 x)) (take k2 ?Q)"
    by blast
  have c: "consumed m ord (q @ ?Q) (length q + n2) m'"
    by (rule consumed_trans [OF l(2) [unfolded n1] ih(2) d(5,6)])
  have "map fill_party (passives (new1 @ new2)) = map (\<lambda>x. party (heap m x)) (take (length q + k2) (q @ ?Q))"
    using l(6) ih(7) unfolding pa k1 by (simp add: passives_append [OF ev])
  with c ih l(3) show ?case
    by (intro exI [of _ "length q + n2"] exI [of _ "length q + k2"] exI [of _ "new1 @ new2"]) simp
next
  case (last m p q lv os lp fs m1 q1 os1 lp1 fs1)
  let ?Q = "concat (map snd lv)"
  from last.prems(1) have res: "m' = m1" "lv' = (p, q1) # lv" "fs' = fs1"
    by (simp_all add: match_loop_last [OF last.hyps])
  from last.prems have d: "distinct q" "ord \<notin> set q" "distinct (q @ ?Q)" "ord \<notin> set ?Q" by auto
  from match_level_priority [OF last.hyps(4) d(1,2)] obtain n1 k1 new1 where
    l: "q1 = drop n1 q" "consumed m ord q n1 m1" "fs1 = fs @ new1" "n1 \<le> k1" "k1 \<le> Suc n1"
      "k1 \<le> length q"
      "map fill_party (passives new1) = map (\<lambda>x. party (heap m x)) (take k1 q)"
    by blast
  from l(2) have n1: "n1 \<le> length q" by (simp add: consumed_def)
  have c: "consumed m ord (q @ ?Q) n1 m1" by (rule consumed_extend [OF l(2) d(3,4)])
  show ?case
    using c l n1 res
    by (intro exI [of _ n1] exI [of _ k1] exI [of _ new1]) simp
qed


lemma match_loop_done:
  "match_loop inst s ord (m, lv, os, lp, fs) = (m', lv', os', lp', fs') \<Longrightarrow>
     (Order.post_only (heap m ord) \<and> status (heap m' ord) = REJECTED \<and> fs' = fs \<and> lv' = lv)
     \<or> \<not> filled_quantity (heap m' ord) < Order.quantity (heap m' ord)
     \<or> lv' = []
     \<or> \<not> crosses s (Order.price (heap m ord)) (fst (hd lv'))"
proof (induction "(m, lv, os, lp, fs)" arbitrary: m lv os lp fs
    rule: match_loop_cases [where inst = inst and ord = ord and s = s])
  case (stop m lv os lp fs)
  then show ?case by (auto simp: match_loop_stop)
next
  case (break m p q lv os lp fs)
  then show ?case by (auto simp: match_loop_break)
next
  case (reject m p q lv os lp fs)
  then show ?case by (auto simp: match_loop_reject set_status_def)
next
  case (advance m p q lv os lp fs m1 os1 lp1 fs1)
  from advance.prems have ml: "match_loop inst s ord (m1, lv, os1, lp1, fs1) = (m', lv', os', lp', fs')"
    by (simp add: match_loop_next [OF advance.hyps(1-4)])
  from match_level_emitted [OF advance.hyps(4)] have "ident (heap m1 ord) = ident (heap m ord)"
    by (auto simp: emitted_def)
  then have "Order.price (heap m1 ord) = Order.price (heap m ord)"
    "Order.post_only (heap m1 ord) = Order.post_only (heap m ord)"
    by (simp_all add: ident_def)
  with advance.hyps(5) [OF ml] advance.hyps(3) show ?case by auto
next
  case (last m p q lv os lp fs m1 q1 os1 lp1 fs1)
  from last.prems(1) have res: "m' = m1" by (simp add: match_loop_last [OF last.hyps])
  from match_level_leaves [OF last.hyps(4,5)] res show ?case by simp
qed

lemma level_push_keys: "set (map fst (level_push cmp p x lv)) = insert p (set (map fst lv))"
  by (induction cmp p x lv rule: level_push.induct) auto

lemma level_push_sorted:
  assumes "cmp = (\<lambda>a b. a < b) \<or> cmp = (\<lambda>a b. a > b)" and "sorted_wrt cmp (map fst lv)"
  shows "sorted_wrt cmp (map fst (level_push cmp p x lv))"
  using assms(2)
proof (induction lv)
  case Nil
  then show ?case by simp
next
  case (Cons a lv)
  obtain p' q where a: "a = (p', q)" by (cases a)
  from Cons.prems have tl: "sorted_wrt cmp (map fst lv)" and hd: "\<forall>k \<in> set (map fst lv). cmp p' k"
    by (auto simp: a)
  have tr: "cmp u v \<Longrightarrow> cmp v w \<Longrightarrow> cmp u w" for u v w using assms(1) by auto
  have tot: "\<not> cmp p p' \<Longrightarrow> p \<noteq> p' \<Longrightarrow> cmp p' p" using assms(1) by auto
  show ?case
    using Cons.IH [OF tl] hd tl tr tot
    by (auto simp: a level_push_keys simp del: set_map)
qed

lemma level_push_queue:
  assumes "cmp = (\<lambda>a b. a < b) \<or> cmp = (\<lambda>a b. a > b)" and "sorted_wrt cmp (map fst lv)"
  shows "level_queue p' (level_push cmp p x lv) =
           (if p' = p then level_queue p lv @ [x] else level_queue p' lv)"
  using assms(2)
proof (induction lv)
  case Nil
  then show ?case by simp
next
  case (Cons a lv)
  obtain k q where a: "a = (k, q)" by (cases a)
  from Cons.prems have tl: "sorted_wrt cmp (map fst lv)" and hd: "\<forall>j \<in> fst ` set lv. cmp k j"
    by (auto simp: a)
  have absent: "level_queue p lv = []" if "cmp p k"
  proof -
    have "p \<notin> fst ` set lv" using hd that assms(1) by auto
    then show ?thesis by (induction lv) auto
  qed
  have irr: "\<not> cmp p p" using assms(1) by auto
  show ?case
    using Cons.IH [OF tl] absent irr by (auto simp: a)
qed

lemma match_order_loop:
  assumes "match_order ord book m = (fs, book2, m2)"
  shows "match_loop (OrderBook.instrument_id book) (Order.side (heap m ord)) ord
           (m, opposite_levels book (Order.side (heap m ord)), orders book, OrderBook.last_price book, [])
         = (m2, opposite_levels book2 (Order.side (heap m ord)), orders book2, OrderBook.last_price book2, fs)"
    and "own_levels book2 (Order.side (heap m ord)) = own_levels book (Order.side (heap m ord))"
    and "OrderBook.instrument_id book2 = OrderBook.instrument_id book"
  using assms
  by (cases "Order.side (heap m ord)";
      auto simp: match_order_def opposite_levels_def own_levels_def split: prod.splits)+

lemma add_order_cases:
  assumes "add_order ord book m = (fs, book', m')"
  obtains book2 m2 where
    "match_order ord (book\<lparr> orders := (orders book)(Order.id (heap m ord) \<mapsto> ord) \<rparr>) m = (fs, book2, m2)"
    "status (heap m2 ord) = REJECTED"
    "book' = book2\<lparr> orders := (orders book2)(Order.id (heap m2 ord) := None) \<rparr>" "m' = m2"
  | book2 m2 where
    "match_order ord (book\<lparr> orders := (orders book)(Order.id (heap m ord) \<mapsto> ord) \<rparr>) m = (fs, book2, m2)"
    "status (heap m2 ord) \<noteq> REJECTED"
    "filled_quantity (heap m2 ord) < Order.quantity (heap m2 ord)" "Order.tif (heap m2 ord) \<noteq> IOC"
    "book' = add_to_book ord m2 book2"
    "m' = set_status ord (if filled_quantity (heap m2 ord) > 0 then PARTIAL else PENDING) m2"
  | book2 m2 st where
    "match_order ord (book\<lparr> orders := (orders book)(Order.id (heap m ord) \<mapsto> ord) \<rparr>) m = (fs, book2, m2)"
    "status (heap m2 ord) \<noteq> REJECTED"
    "\<not> (filled_quantity (heap m2 ord) < Order.quantity (heap m2 ord) \<and> Order.tif (heap m2 ord) \<noteq> IOC)"
    "book' = book2" "m' = set_status ord st m2" "st = FILLED \<or> st = CANCELLED"
proof -
  obtain fs2 book2 m2 where
    mo: "match_order ord (book\<lparr> orders := (orders book)(Order.id (heap m ord) \<mapsto> ord) \<rparr>) m = (fs2, book2, m2)"
    by (metis prod_cases3)
  show thesis
  proof (cases "status (heap m2 ord) = REJECTED")
    case True
    with assms mo show thesis by (intro that(1) [of book2 m2]) (auto simp: add_order_def)
  next
    case nr: False
    show thesis
    proof (cases "filled_quantity (heap m2 ord) < Order.quantity (heap m2 ord) \<and> Order.tif (heap m2 ord) \<noteq> IOC")
      case True
      with assms mo nr show thesis by (intro that(2) [of book2 m2]) (auto simp: add_order_def)
    next
      case False
      with assms mo nr show thesis
        by (intro that(3) [of book2 m2 "if Order.quantity (heap m2 ord) \<le> filled_quantity (heap m2 ord) then FILLED else CANCELLED"])
           (auto simp: add_order_def split: if_splits)
    qed
  qed
qed

lemma opposite_add_to_book:
  "Order.side (heap m2 ord) = s \<Longrightarrow> opposite_levels (add_to_book ord m2 book2) s = opposite_levels book2 s"
  by (cases s) (auto simp: add_to_book_def opposite_levels_def)

lemma distinct_nth_drop:
  "distinct Q \<Longrightarrow> i < n \<Longrightarrow> i < length Q \<Longrightarrow> Q ! i \<notin> set (drop n Q)"
  by (metis (no_types, lifting) append_take_drop_id disjoint_iff distinct_append length_take
      min_less_iff_conj nth_mem nth_take)

lemma priced_queue_snd: "map snd (priced_queue lv) = concat (map snd lv)"
  by (induction lv) (auto simp: priced_queue_def comp_def)

lemma priced_queue_sorted:
  assumes tr: "\<And>u v w. cmp u v \<Longrightarrow> cmp v w \<Longrightarrow> cmp u w"
  shows "sorted_wrt cmp (map fst lv) \<Longrightarrow>
         sorted_wrt (\<lambda>a b. fst a = fst b \<or> cmp (fst a) (fst b)) (priced_queue lv)"
proof (induction lv)
  case Nil
  then show ?case by (simp add: priced_queue_def)
next
  case (Cons a lv)
  obtain k q where a: "a = (k, q)" by (cases a)
  have pq: "priced_queue (a # lv) = map (\<lambda>x. (k, x)) q @ priced_queue lv"
    by (simp add: priced_queue_def a)
  have keys: "fst ` set (priced_queue lv) \<subseteq> fst ` set lv"
    by (force simp: priced_queue_def)
  from Cons.prems have "\<forall>j \<in> fst ` set lv. cmp k j" and tl: "sorted_wrt cmp (map fst lv)"
    by (auto simp: a)
  with keys have "\<forall>b \<in> set (priced_queue lv). cmp k (fst b)"
    by (metis (no_types, lifting) image_eqI subsetD)
  with Cons.IH [OF tl] show ?case
    unfolding pq by (auto simp: sorted_wrt_append sorted_wrt_map)
qed


lemma match_loop_keys:
  "match_loop inst s ord (m, lv, os, lp, fs) = (m', lv', os', lp', fs') \<Longrightarrow>
     \<exists>n. map fst lv' = drop n (map fst lv)"
proof (induction "(m, lv, os, lp, fs)" arbitrary: m lv os lp fs
    rule: match_loop_cases [where inst = inst and ord = ord and s = s])
  case (stop m lv os lp fs)
  then show ?case by (auto simp: match_loop_stop intro: exI [of _ 0])
next
  case (break m p q lv os lp fs)
  then show ?case by (auto simp: match_loop_break intro: exI [of _ 0])
next
  case (reject m p q lv os lp fs)
  then show ?case by (auto simp: match_loop_reject intro: exI [of _ 0])
next
  case (advance m p q lv os lp fs m1 os1 lp1 fs1)
  from advance.prems have ml: "match_loop inst s ord (m1, lv, os1, lp1, fs1) = (m', lv', os', lp', fs')"
    by (simp add: match_loop_next [OF advance.hyps(1-4)])
  from advance.hyps(5) [OF ml] obtain n where "map fst lv' = drop n (map fst lv)" by blast
  then show ?case by (intro exI [of _ "Suc n"]) simp
next
  case (last m p q lv os lp fs m1 q1 os1 lp1 fs1)
  from last.prems(1) have "lv' = (p, q1) # lv" by (simp add: match_loop_last [OF last.hyps])
  then show ?case by (intro exI [of _ 0]) simp
qed

lemma sorted_wrt_drop': "sorted_wrt P xs \<Longrightarrow> sorted_wrt P (drop n xs)"
  by (rule sorted_wrt_drop)

lemma book_sorted_match_order:
  assumes "match_order ord book m = (fs, book2, m2)" and "book_sorted book"
  shows "book_sorted book2"
proof -
  note l = match_order_loop [OF assms(1)]
  from match_loop_keys [OF l(1)] obtain n where
    n: "map fst (opposite_levels book2 (Order.side (heap m ord))) =
        drop n (map fst (opposite_levels book (Order.side (heap m ord))))" by blast
  show ?thesis
    using assms(2) l(2) n
    by (cases "Order.side (heap m ord)")
       (auto simp: book_sorted_def opposite_levels_def own_levels_def intro: sorted_wrt_drop)
qed

lemma book_sorted_add_to_book:
  "book_sorted book \<Longrightarrow> book_sorted (add_to_book ord m book)"
  by (cases "Order.side (heap m ord)")
     (auto simp: book_sorted_def add_to_book_def intro: level_push_sorted)

lemma book_sorted_add_order:
  assumes "add_order ord book m = (fs, book', m')" and "book_sorted book"
  shows "book_sorted book'"
proof -
  have b1: "book_sorted (book\<lparr> orders := (orders book)(Order.id (heap m ord) \<mapsto> ord) \<rparr>)"
    using assms(2) by (simp add: book_sorted_def)
  from assms(1) show ?thesis
  proof (cases rule: add_order_cases)
    case (1 book2 m2)
    with book_sorted_match_order [OF 1(1) b1] show ?thesis by (simp add: book_sorted_def)
  next
    case (2 book2 m2)
    with book_sorted_match_order [OF 2(1) b1] show ?thesis by (simp add: book_sorted_add_to_book)
  next
    case (3 book2 m2 st)
    with book_sorted_match_order [OF 3(1) b1] show ?thesis by simp
  qed
qed


lemma levels_orders_update [simp]:
  "opposite_levels (book\<lparr> orders := X \<rparr>) s = opposite_levels book s"
  "own_levels (book\<lparr> orders := X \<rparr>) s = own_levels book s"
  by (cases s; simp add: opposite_levels_def own_levels_def)+

lemma level_queue_add_to_book:
  assumes "book_sorted book" and "Order.side (heap m ord) = s" and "Order.price (heap m ord) = p"
  shows "level_queue p (own_levels (add_to_book ord m book) s) = level_queue p (own_levels book s) @ [ord]"
  using assms
  by (cases s) (auto simp: book_sorted_def add_to_book_def own_levels_def level_push_queue)

section \<open>Matching: what the fills account for\<close>

lemma credited_append:
  "length fs = 2 * length ys \<Longrightarrow>
   credited ord (ys @ zs) (fs @ gs) x = credited ord ys fs x + credited ord zs gs x"
proof (induction ord ys fs x rule: credited.induct)
  case (1 ord y ys f1 f2 fs x)
  then show ?case by simp
qed simp_all

lemma passives_length: "length (passives fs) = length fs div 2"
  by (induction fs rule: passives.induct) auto

lemma passives_nth: "2 * j + 1 < length fs \<Longrightarrow> passives fs ! j = fs ! (2 * j + 1)"
proof (induction fs arbitrary: j rule: passives.induct)
  case (1 f1 f2 fs)
  then show ?case by (cases j) auto
qed auto

lemma moved_refl: "moved m ord [] [] m"
  by (simp add: moved_def)

lemma filled_set_status [simp]:
  "filled_quantity (heap (set_status y s m) x) = filled_quantity (heap m x)"
  by (simp add: set_status_def)

lemma moved_status: "moved m ord pxs new m1 \<Longrightarrow> moved m ord pxs new (set_status y s m1)"
  by (simp add: moved_def)

lemma moved_trans:
  assumes 1: "moved m ord a n1 m1" and 2: "moved m1 ord b n2 m2"
  shows "moved m ord (a @ b) (n1 @ n2) m2"
proof -
  from 1 have id: "ident (heap m1 y) = ident (heap m y)" for y by (simp add: moved_def)
  have pa: "party (heap m1 y) = party (heap m y)" for y by (rule ident_party [OF id])
  from 1 have len: "length n1 = 2 * length (map snd a)" by (simp add: moved_def)
  then have ev: "even (length n1)" by simp
  show ?thesis
    using 1 2 unfolding moved_def pa id
    by (simp add: passives_append [OF ev] credited_append [OF len])
qed

lemma moved_step:
  assumes ex: "execute_match inst ord x p m = (f1, f2, m1)"
  shows "moved m ord [(p, x)] [f1, f2] (set_status x s m1)"
proof -
  note r = execute_match_result [OF ex]
  have q: "Fill.quantity f1 = min (remaining m ord) (remaining m x)"
    "Fill.quantity f2 = min (remaining m ord) (remaining m x)"
    by (simp_all add: r)
  have f: "filled_quantity (heap (set_status x s m1) y) =
           filled_quantity (heap m y) + credited ord [x] [f1, f2] y" for y
    unfolding r(3) by (simp add: q set_status_def add_filled_def)
  show ?thesis
    unfolding moved_def using f
    by (simp add: r(2) fill_party_def party_def ident_execute_match [OF ex])
qed

lemma match_level_moved:
  "match_level inst ord p (m, q, os, lp, fs) = (m', q', os', lp', fs') \<Longrightarrow>
     \<exists>n k new. q' = drop n q \<and> n \<le> k \<and> k \<le> Suc n \<and> k \<le> length q \<and> fs' = fs @ new \<and>
        moved m ord (map (Pair p) (take k q)) new m'"
proof (induction "(m, q, os, lp, fs)" arbitrary: m q os lp fs
    rule: match_level_cases [where inst = inst and ord = ord and p = p])
  case (stop m q os lp fs)
  from stop.prems(1) have "m' = m" "q' = q" "fs' = fs" by (simp_all add: match_level_stop [OF stop.hyps])
  then show ?case
    by (intro exI [of _ 0] exI [of _ "[]"]) (simp add: moved_refl)
next
  case (pop m x xs os lp fs f1 f2 m1)
  let ?m2 = "set_status x FILLED m1"
  from pop.prems have ml: "match_level inst ord p
      (?m2, xs, os(Order.id (heap m1 x) := None), p, fs @ [f1, f2]) = (m', q', os', lp', fs')"
    by (simp add: match_level_pop [OF pop.hyps(1-3)])
  from pop.hyps(4) [OF ml] obtain n k new where
    ih: "q' = drop n xs" "n \<le> k" "k \<le> Suc n" "k \<le> length xs" "fs' = (fs @ [f1, f2]) @ new"
      "moved ?m2 ord (map (Pair p) (take k xs)) new m'"
    by blast
  have "moved m ord ([(p, x)] @ map (Pair p) (take k xs)) ([f1, f2] @ new) m'"
    by (rule moved_trans [OF moved_step [OF pop.hyps(2)] ih(6)])
  then have "moved m ord (map (Pair p) (take (Suc k) (x # xs))) ([f1, f2] @ new) m'" by simp
  with ih show ?case
    by (intro exI [of _ "Suc n"] exI [of _ "Suc k"] exI [of _ "[f1, f2] @ new"]) simp
next
  case (keep m x xs os lp fs f1 f2 m1)
  from keep.prems have res: "m' = set_status x PARTIAL m1" "q' = x # xs" "fs' = fs @ [f1, f2]"
    by (simp_all add: match_level_keep [OF keep.hyps(1-3)])
  from moved_step [OF keep.hyps(2), of PARTIAL]
  have "moved m ord (map (Pair p) (take (Suc 0) (x # xs))) [f1, f2] m'" by (simp add: res)
  with res show ?case
    by (intro exI [of _ 0] exI [of _ "Suc 0"] exI [of _ "[f1, f2]"]) simp
qed

lemma priced_queue_Cons: "priced_queue ((p, q) # lv) = map (Pair p) q @ priced_queue lv"
  by (simp add: priced_queue_def)

lemma priced_queue_Nil: "priced_queue [] = []"
  by (simp add: priced_queue_def)

lemma match_loop_moved:
  "match_loop inst s ord (m, lv, os, lp, fs) = (m', lv', os', lp', fs') \<Longrightarrow>
     \<exists>n k new. priced_queue lv' = drop n (priced_queue lv) \<and> n \<le> k \<and> k \<le> Suc n \<and>
        k \<le> length (priced_queue lv) \<and> fs' = fs @ new \<and>
        moved m ord (take k (priced_queue lv)) new m'"
proof (induction "(m, lv, os, lp, fs)" arbitrary: m lv os lp fs
    rule: match_loop_cases [where inst = inst and ord = ord and s = s])
  case (stop m lv os lp fs)
  from stop.prems(1) have "m' = m" "lv' = lv" "fs' = fs" by (simp_all add: match_loop_stop [OF stop.hyps])
  then show ?case
    by (intro exI [of _ 0] exI [of _ "[]"]) (simp add: moved_refl)
next
  case (break m p q lv os lp fs)
  from break.prems(1) have "m' = m" "lv' = (p, q) # lv" "fs' = fs"
    by (simp_all add: match_loop_break [OF break.hyps])
  then show ?case
    by (intro exI [of _ 0] exI [of _ "[]"]) (simp add: moved_refl)
next
  case (reject m p q lv os lp fs)
  from reject.prems(1) have "m' = set_status ord REJECTED m" "lv' = (p, q) # lv" "fs' = fs"
    by (simp_all add: match_loop_reject [OF reject.hyps])
  then show ?case
    by (intro exI [of _ 0] exI [of _ "[]"]) (simp add: moved_refl moved_status)
next
  case (advance m p q lv os lp fs m1 os1 lp1 fs1)
  from advance.prems have ml: "match_loop inst s ord (m1, lv, os1, lp1, fs1) = (m', lv', os', lp', fs')"
    by (simp add: match_loop_next [OF advance.hyps(1-4)])
  from match_level_moved [OF advance.hyps(4)] obtain n1 k1 new1 where
    l: "[] = drop n1 q" "n1 \<le> k1" "k1 \<le> length q" "fs1 = fs @ new1"
      "moved m ord (map (Pair p) (take k1 q)) new1 m1"
    by blast
  from l(1,2,3) have k1: "k1 = length q" by simp
  from advance.hyps(5) [OF ml] obtain n2 k2 new2 where
    ih: "priced_queue lv' = drop n2 (priced_queue lv)" "n2 \<le> k2" "k2 \<le> Suc n2"
      "k2 \<le> length (priced_queue lv)" "fs' = fs1 @ new2"
      "moved m1 ord (take k2 (priced_queue lv)) new2 m'"
    by blast
  have "moved m ord (map (Pair p) q @ take k2 (priced_queue lv)) (new1 @ new2) m'"
    using moved_trans [OF l(5) ih(6)] by (simp add: k1)
  then have "moved m ord (take (length q + k2) (priced_queue ((p, q) # lv))) (new1 @ new2) m'"
    by (simp add: priced_queue_Cons)
  with ih l(4) show ?case
    by (intro exI [of _ "length q + n2"] exI [of _ "length q + k2"] exI [of _ "new1 @ new2"])
       (simp add: priced_queue_Cons)
next
  case (last m p q lv os lp fs m1 q1 os1 lp1 fs1)
  from last.prems(1) have res: "m' = m1" "lv' = (p, q1) # lv" "fs' = fs1"
    by (simp_all add: match_loop_last [OF last.hyps])
  from match_level_moved [OF last.hyps(4)] obtain n1 k1 new1 where
    l: "q1 = drop n1 q" "n1 \<le> k1" "k1 \<le> Suc n1" "k1 \<le> length q" "fs1 = fs @ new1"
      "moved m ord (map (Pair p) (take k1 q)) new1 m1"
    by blast
  from l(1) last.hyps(5) have n1: "n1 \<le> length q" by (cases "n1 \<le> length q") auto
  have "moved m ord (take k1 (priced_queue ((p, q) # lv))) new1 m1"
    using l(6) l(4) by (simp add: priced_queue_Cons take_map)
  with l n1 res show ?case
    by (intro exI [of _ n1] exI [of _ k1] exI [of _ new1]) (simp add: priced_queue_Cons drop_map)
qed

lemma add_order_moved:
  assumes a: "add_order ord book m = (fs, book', m')"
  shows "\<exists>n k. priced_queue (opposite_levels book' (Order.side (heap m ord))) =
                 drop n (priced_queue (opposite_levels book (Order.side (heap m ord)))) \<and>
          n \<le> k \<and> k \<le> Suc n \<and>
          k \<le> length (priced_queue (opposite_levels book (Order.side (heap m ord)))) \<and>
          moved m ord (take k (priced_queue (opposite_levels book (Order.side (heap m ord))))) fs m'"
proof -
  define s where "s = Order.side (heap m ord)"
  let ?book1 = "book\<lparr> orders := (orders book)(Order.id (heap m ord) \<mapsto> ord) \<rparr>"
  let ?PQ = "priced_queue (opposite_levels book s)"
  from a obtain book2 m2 where
    mo: "match_order ord ?book1 m = (fs, book2, m2)"
    and opp: "opposite_levels book' s = opposite_levels book2 s"
    and mv: "\<And>pxs. moved m ord pxs fs m2 \<Longrightarrow> moved m ord pxs fs m'"
  proof (cases rule: add_order_cases)
    case (1 book2 m2)
    then show ?thesis by (intro that [of book2 m2]) auto
  next
    case (2 book2 m2)
    note l = match_order_loop [OF 2(1)]
    from match_loop_emitted [OF l(1)] have "ident (heap m2 ord) = ident (heap m ord)"
      by (auto simp: emitted_def)
    then have "Order.side (heap m2 ord) = s" by (simp add: ident_def s_def)
    with 2 show ?thesis
      by (intro that [of book2 m2]) (auto simp: opposite_add_to_book moved_status)
  next
    case (3 book2 m2 st)
    then show ?thesis by (intro that [of book2 m2]) (auto simp: moved_status)
  qed
  note l = match_order_loop(1) [OF mo, folded s_def, simplified]
  from match_loop_moved [OF l] obtain n k new where
    r: "priced_queue (opposite_levels book2 s) = drop n ?PQ" "n \<le> k" "k \<le> Suc n"
      "k \<le> length ?PQ" "fs = [] @ new" "moved m ord (take k ?PQ) new m2"
    by blast
  from r(5,6) have "moved m ord (take k ?PQ) fs m2" by simp
  from mv [OF this] r(1-4) opp show ?thesis
    unfolding s_def [symmetric] by (intro exI [of _ n] exI [of _ k]) simp
qed

lemma credited_sum:
  "length fs = 2 * length ys \<Longrightarrow>
   credited ord ys fs x =
     (if x = ord then (\<Sum>j<length ys. Fill.quantity (fs ! (2 * j))) else 0) +
     (\<Sum>j<length ys. if ys ! j = x then Fill.quantity (fs ! (2 * j + 1)) else 0)"
proof (induction ord ys fs x rule: credited.induct)
  case (1 ord y ys f1 f2 fs x)
  from "1.prems" have len: "length fs = 2 * length ys" by simp
  note ih = "1.IH" [OF len]
  have s1: "(\<Sum>j<length (y # ys). Fill.quantity ((f1 # f2 # fs) ! (2 * j))) =
            Fill.quantity f1 + (\<Sum>j<length ys. Fill.quantity (fs ! (2 * j)))"
  proof -
    have "(\<Sum>j<length ys. Fill.quantity ((f1 # f2 # fs) ! (2 * Suc j))) =
          (\<Sum>j<length ys. Fill.quantity (fs ! (2 * j)))"
      by (rule sum.cong) simp_all
    then show ?thesis by (simp add: sum.lessThan_Suc_shift del: sum.lessThan_Suc)
  qed
  have s2: "(\<Sum>j<length (y # ys). if (y # ys) ! j = x then Fill.quantity ((f1 # f2 # fs) ! (2 * j + 1)) else 0) =
            (if y = x then Fill.quantity f2 else 0) +
            (\<Sum>j<length ys. if ys ! j = x then Fill.quantity (fs ! (2 * j + 1)) else 0)"
  proof -
    have "(\<Sum>j<length ys. if (y # ys) ! Suc j = x then Fill.quantity ((f1 # f2 # fs) ! (2 * Suc j + 1)) else 0) =
          (\<Sum>j<length ys. if ys ! j = x then Fill.quantity (fs ! (2 * j + 1)) else 0)"
      by (rule sum.cong) simp_all
    then show ?thesis by (simp add: sum.lessThan_Suc_shift del: sum.lessThan_Suc)
  qed
  show ?case
    unfolding credited.simps ih s1 s2 by auto
qed simp_all

lemma fill_pairs_nth:
  "fill_pairs a ps fs \<Longrightarrow> 2 * j + 1 < length fs \<Longrightarrow>
   fill_party (fs ! (2 * j)) = a \<and>
   Fill.price (fs ! (2 * j)) = Fill.price (fs ! (2 * j + 1)) \<and>
   Fill.quantity (fs ! (2 * j)) = Fill.quantity (fs ! (2 * j + 1)) \<and>
   Fill.instrument_id (fs ! (2 * j)) = Fill.instrument_id (fs ! (2 * j + 1))"
proof (induction a ps fs arbitrary: j rule: fill_pairs.induct)
  case (1 a ps)
  then show ?case by simp
next
  case (2 a ps f)
  then show ?case by simp
next
  case (3 a ps f1 f2 fs)
  show ?case
  proof (cases j)
    case 0
    with "3.prems" show ?thesis by simp
  next
    case (Suc i)
    with "3.prems" have "fill_pairs a ps fs" "2 * i + 1 < length fs" by simp_all
    from "3.IH" [OF this] show ?thesis by (simp add: Suc)
  qed
qed

text \<open>
  Claim C7, as the code has it. The fills \<open>add_order\<close> returns are exactly the record of
  its matches. Let \<open>Q\<close> be the orders resting on the opposite side, in book order. The
  returned list consists of \<open>k\<close> adjacent pairs, one for each of the first \<open>k\<close> orders of
  \<open>Q\<close>: the first fill of pair \<open>j\<close> is the aggressor's, the second is the fill of the
  resting order \<open>Q ! j\<close>, both with the same price, quantity and instrument (the book's).
  Quantity moves only through these pairs: every order's \<open>filled_quantity\<close> grows by the
  quantities of the fills made in its name, the aggressor's by the sum over all pairs,
  a resting order's by the passive fills at its positions in \<open>Q\<close>, and that of any other
  order not at all. The timestamps are not shared within a pair: \<open>create_fill\<close> reads the
  clock once per fill, so the fills carry successive clock readings, the aggressor's the
  earlier one.
\<close>

theorem add_order_fill_pairs:
  "let fs = fst (add_order ord book m);
       m' = snd (snd (add_order ord book m));
       Q = opposite_queue book (Order.side (heap m ord))
   in fill_pairs (party (heap m ord)) (map (\<lambda>x. party (heap m x)) Q) fs \<and>
      (\<forall>f \<in> set fs. Fill.instrument_id f = OrderBook.instrument_id book) \<and>
      map Fill.timestamp fs = map (clock m) [reads m ..< reads m + length fs] \<and>
      (\<exists>k \<le> length Q. length fs = 2 * k \<and>
         (\<forall>j < k. fill_party (fs ! (2 * j)) = party (heap m ord) \<and>
                  fill_party (fs ! (2 * j + 1)) = party (heap m (Q ! j)) \<and>
                  Fill.price (fs ! (2 * j)) = Fill.price (fs ! (2 * j + 1)) \<and>
                  Fill.quantity (fs ! (2 * j)) = Fill.quantity (fs ! (2 * j + 1)) \<and>
                  Fill.instrument_id (fs ! (2 * j)) = Fill.instrument_id (fs ! (2 * j + 1))) \<and>
         (\<forall>x. filled_quantity (heap m' x) =
                filled_quantity (heap m x) +
                (if x = ord then (\<Sum>j<k. Fill.quantity (fs ! (2 * j))) else 0) +
                (\<Sum>j<k. if Q ! j = x then Fill.quantity (fs ! (2 * j + 1)) else 0)))"
proof -
  define s where "s = Order.side (heap m ord)"
  define Q where "Q = opposite_queue book s"
  define PQ where "PQ = priced_queue (opposite_levels book s)"
  obtain fs book' m' where a: "add_order ord book m = (fs, book', m')"
    by (metis prod_cases3)
  obtain fs2 book2 m2 where
    mo: "match_order ord (book\<lparr> orders := (orders book)(Order.id (heap m ord) \<mapsto> ord) \<rparr>) m = (fs2, book2, m2)"
    by (metis prod_cases3)
  with add_order_fills [of ord book m] a have fs2: "fs2 = fs" by simp
  from match_order_emitted [OF mo] have em:
    "fill_pairs (party (heap m ord)) (map (\<lambda>x. party (heap m x)) Q) fs"
    "\<forall>f \<in> set fs. Fill.instrument_id f = OrderBook.instrument_id book"
    "map Fill.timestamp fs = map (clock m) [reads m ..< reads m + length fs]"
    unfolding fs2 s_def [symmetric]
    by (cases s; simp add: emitted_def opposite_queue_def opposite_levels_def Q_def)+
  have QP: "Q = map snd PQ" by (simp add: Q_def PQ_def opposite_queue_def priced_queue_snd)
  from add_order_moved [OF a, folded s_def, folded PQ_def] obtain n k where
    k: "k \<le> length PQ" and mv: "moved m ord (take k PQ) fs m'"
    by blast
  from k have kQ: "k \<le> length Q" by (simp add: QP)
  from mv k have len: "length fs = 2 * k" by (simp add: moved_def)
  from mv have pa: "map fill_party (passives fs) = map (\<lambda>px. party (heap m (snd px))) (take k PQ)"
    and cr: "\<And>x. filled_quantity (heap m' x) =
               filled_quantity (heap m x) + credited ord (map snd (take k PQ)) fs x"
    by (simp_all add: moved_def)
  have tk: "map snd (take k PQ) = take k Q" by (simp add: QP take_map)
  have pairs: "fill_party (fs ! (2 * j)) = party (heap m ord) \<and>
               fill_party (fs ! (2 * j + 1)) = party (heap m (Q ! j)) \<and>
               Fill.price (fs ! (2 * j)) = Fill.price (fs ! (2 * j + 1)) \<and>
               Fill.quantity (fs ! (2 * j)) = Fill.quantity (fs ! (2 * j + 1)) \<and>
               Fill.instrument_id (fs ! (2 * j)) = Fill.instrument_id (fs ! (2 * j + 1))"
    if j: "j < k" for j
  proof -
    from j len have lt: "2 * j + 1 < length fs" by simp
    note fp = fill_pairs_nth [OF em(1) lt]
    from j k have jl: "j < length (take k PQ)" by simp
    have "fill_party (passives fs ! j) = party (heap m (snd (take k PQ ! j)))"
      using arg_cong [OF pa, of "\<lambda>l. l ! j"] jl len j by (simp add: passives_length)
    also have "passives fs ! j = fs ! (2 * j + 1)" by (rule passives_nth [OF lt])
    also have "snd (take k PQ ! j) = Q ! j" using j k by (simp add: QP)
    finally have "fill_party (fs ! (2 * j + 1)) = party (heap m (Q ! j))" .
    with fp show ?thesis by simp
  qed
  have acc: "filled_quantity (heap m' x) =
                filled_quantity (heap m x) +
                (if x = ord then (\<Sum>j<k. Fill.quantity (fs ! (2 * j))) else 0) +
                (\<Sum>j<k. if Q ! j = x then Fill.quantity (fs ! (2 * j + 1)) else 0)" for x
  proof -
    have l2: "length fs = 2 * length (take k Q)" using len kQ by simp
    have lk: "length (take k Q) = k" using kQ by simp
    have "(\<Sum>j<k. if take k Q ! j = x then Fill.quantity (fs ! (2 * j + 1)) else 0) =
          (\<Sum>j<k. if Q ! j = x then Fill.quantity (fs ! (2 * j + 1)) else 0)"
      by (rule sum.cong) simp_all
    with credited_sum [OF l2, of ord x] cr [of x] show ?thesis
      unfolding tk lk by simp
  qed
  have ex: "\<exists>k \<le> length Q. length fs = 2 * k \<and>
         (\<forall>j < k. fill_party (fs ! (2 * j)) = party (heap m ord) \<and>
                  fill_party (fs ! (2 * j + 1)) = party (heap m (Q ! j)) \<and>
                  Fill.price (fs ! (2 * j)) = Fill.price (fs ! (2 * j + 1)) \<and>
                  Fill.quantity (fs ! (2 * j)) = Fill.quantity (fs ! (2 * j + 1)) \<and>
                  Fill.instrument_id (fs ! (2 * j)) = Fill.instrument_id (fs ! (2 * j + 1))) \<and>
         (\<forall>x. filled_quantity (heap m' x) =
                filled_quantity (heap m x) +
                (if x = ord then (\<Sum>j<k. Fill.quantity (fs ! (2 * j))) else 0) +
                (\<Sum>j<k. if Q ! j = x then Fill.quantity (fs ! (2 * j + 1)) else 0))"
    using kQ len pairs acc by (intro exI [of _ k]) blast
  have f: "fst (add_order ord book m) = fs" "snd (snd (add_order ord book m)) = m'"
    by (simp_all add: a)
  show ?thesis
    unfolding Let_def s_def [symmetric] Q_def [symmetric] f
    by (rule conjI [OF em(1) conjI [OF em(2) conjI [OF em(3) ex]]])
qed

lemma demo_fifo_fills:
  "fst (add_order 5 demo_fifo_book demo_fifo_mem) =
     [\<lparr> Fill.order_id = 4, Fill.user_id = 9, Fill.instrument_id = 1, Fill.side = SELL,
        Fill.price = 10000, Fill.quantity = 100, Fill.timestamp = 4 \<rparr>,
      \<lparr> Fill.order_id = 1, Fill.user_id = 1, Fill.instrument_id = 1, Fill.side = BUY,
        Fill.price = 10000, Fill.quantity = 100, Fill.timestamp = 5 \<rparr>,
      \<lparr> Fill.order_id = 4, Fill.user_id = 9, Fill.instrument_id = 1, Fill.side = SELL,
        Fill.price = 10000, Fill.quantity = 50, Fill.timestamp = 6 \<rparr>,
      \<lparr> Fill.order_id = 2, Fill.user_id = 2, Fill.instrument_id = 1, Fill.side = BUY,
        Fill.price = 10000, Fill.quantity = 50, Fill.timestamp = 7 \<rparr>]"
  by (simp add: add_order_fills match_order_def demo_fifo_book_def demo_fifo_mem_def mem0_def Order0_def
      OrderBook0_def match_loop.simps match_level.simps crosses_def execute_match_def create_fill_def
      now_def remaining_def add_filled_def set_status_def Let_def)

text \<open>
  An incoming SELL of 150 against three bids of 100 at one price makes two matches, 100
  with the first bid and 50 with the second: four fills, and the filled quantities of
  the four orders grow by 150, 100, 50 and 0.
\<close>

theorem add_order_fill_pairs_witness:
  "opposite_queue demo_fifo_book (Order.side (heap demo_fifo_mem 5)) = [2, 3, 4] \<and>
   length (fst (add_order 5 demo_fifo_book demo_fifo_mem)) = 2 * 2 \<and>
   map Fill.quantity (fst (add_order 5 demo_fifo_book demo_fifo_mem)) = [100, 100, 50, 50] \<and>
   map Fill.timestamp (fst (add_order 5 demo_fifo_book demo_fifo_mem)) = [4, 5, 6, 7] \<and>
   filled_quantity (heap (snd (snd (add_order 5 demo_fifo_book demo_fifo_mem))) 5) =
     filled_quantity (heap demo_fifo_mem 5) + 150 \<and>
   filled_quantity (heap (snd (snd (add_order 5 demo_fifo_book demo_fifo_mem))) 2) =
     filled_quantity (heap demo_fifo_mem 2) + 100 \<and>
   filled_quantity (heap (snd (snd (add_order 5 demo_fifo_book demo_fifo_mem))) 3) =
     filled_quantity (heap demo_fifo_mem 3) + 50 \<and>
   filled_quantity (heap (snd (snd (add_order 5 demo_fifo_book demo_fifo_mem))) 4) =
     filled_quantity (heap demo_fifo_mem 4)"
proof -
  let ?fs = "fst (add_order 5 demo_fifo_book demo_fifo_mem)"
  let ?m' = "snd (snd (add_order 5 demo_fifo_book demo_fifo_mem))"
  have q: "opposite_queue demo_fifo_book (Order.side (heap demo_fifo_mem 5)) = [2, 3, 4]"
    by (simp add: opposite_queue_def opposite_levels_def demo_fifo_book_def demo_fifo_mem_def
        mem0_def Order0_def OrderBook0_def)
  from add_order_fill_pairs [of 5 demo_fifo_book demo_fifo_mem, unfolded Let_def q]
  obtain k where k: "length ?fs = 2 * k"
    and acc: "\<forall>x. filled_quantity (heap ?m' x) =
                filled_quantity (heap demo_fifo_mem x) +
                (if x = 5 then (\<Sum>j<k. Fill.quantity (?fs ! (2 * j))) else 0) +
                (\<Sum>j<k. if [2, 3, 4] ! j = x then Fill.quantity (?fs ! (2 * j + 1)) else 0)"
    by blast
  from k have k2: "k = 2" by (simp add: demo_fifo_fills)
  have two: "{..<2::nat} = {0, 1}" by auto
  note a = acc [rule_format, unfolded k2 two]
  have "filled_quantity (heap ?m' 5) = filled_quantity (heap demo_fifo_mem 5) + 150"
    "filled_quantity (heap ?m' 2) = filled_quantity (heap demo_fifo_mem 2) + 100"
    "filled_quantity (heap ?m' 3) = filled_quantity (heap demo_fifo_mem 3) + 50"
    "filled_quantity (heap ?m' 4) = filled_quantity (heap demo_fifo_mem 4)"
    using a [of 5] a [of 2] a [of 3] a [of 4] by (simp_all add: demo_fifo_fills)
  with q show ?thesis by (simp add: demo_fifo_fills)
qed

section \<open>Invariants of the books and of the engine\<close>

lemma record_fill_fields [simp]:
  "positions (record_fill f e) = ledger_fill f (positions e)"
  "fill_history (record_fill f e) = fill_history e @ [f]"
  "instruments (record_fill f e) = instruments e"
  "order_books (record_fill f e) = order_books e"
  "memory (record_fill f e) = memory e"
  "active_orders (record_fill f e) = active_orders e"
  "user_orders (record_fill f e) = user_orders e"
  "risk_limits (record_fill f e) = risk_limits e"
  "next_order_id (record_fill f e) = next_order_id e"
  by (simp_all add: record_fill_def update_position_def ledger_fill_def Let_def)

lemma process_fills_fields [simp]:
  "positions (process_fills fs e) = fold ledger_fill fs (positions e)"
  "fill_history (process_fills fs e) = fill_history e @ fs"
  "instruments (process_fills fs e) = instruments e"
  "order_books (process_fills fs e) = order_books e"
  "memory (process_fills fs e) = memory e"
  "active_orders (process_fills fs e) = active_orders e"
  "user_orders (process_fills fs e) = user_orders e"
  "risk_limits (process_fills fs e) = risk_limits e"
  "next_order_id (process_fills fs e) = next_order_id e"
  by (induction fs e rule: process_fills.induct; simp add: Let_def)+

lemma place_order_fields:
  assumes "place_order request book e = (result, e')"
    and "add_order (brk (memory e)) book (new_order_mem request (next_order_id e) (memory e)) = (fs, book', m')"
  shows "fills result = fs"
    and "positions e' = fold ledger_fill fs (positions e)"
    and "fill_history e' = fill_history e @ fs"
    and "instruments e' = instruments e"
    and "order_books e' = (order_books e)(OrderRequest.instrument_id request \<mapsto> book')"
    and "memory e' = m'"
    and "risk_limits e' = risk_limits e"
    and "active_orders e' = active_orders e \<or>
         active_orders e' = (active_orders e)(next_order_id e \<mapsto> brk (memory e))"
  using assms
  by (auto simp: place_order_def new_order_mem_def now_def Let_def split: prod.splits if_splits)

lemma book_wf_sides:
  "book_wf m book \<longleftrightarrow>
     distinct (concat (map snd (own_levels book s))) \<and>
     distinct (concat (map snd (opposite_levels book s))) \<and>
     (\<forall>x \<in> set (concat (map snd (own_levels book s))). x < brk m \<and> Order.side (heap m x) = s) \<and>
     (\<forall>x \<in> set (concat (map snd (opposite_levels book s))). x < brk m \<and> Order.side (heap m x) = other_side s) \<and>
     book_sorted book"
  by (cases s) (auto simp: book_wf_def own_levels_def opposite_levels_def other_side_def)

lemma book_wf_transfer:
  assumes "book_wf m book" and "brk m \<le> brk m'"
    and "\<And>x. x < brk m \<Longrightarrow> ident (heap m' x) = ident (heap m x)"
  shows "book_wf m' book"
proof -
  have "Order.side (heap m' x) = Order.side (heap m x)" if "x < brk m" for x
    using assms(3) [OF that] by (simp add: ident_def)
  moreover have "x < brk m'" if "x < brk m" for x using that assms(2) by simp
  ultimately show ?thesis
    using assms(1) unfolding book_wf_def by (simp del: set_concat)
qed

lemma book_wf_orders_update [simp]: "book_wf m (book\<lparr> orders := X \<rparr>) = book_wf m book"
  by (simp add: book_wf_def book_sorted_def)

lemma level_push_set:
  "set (concat (map snd (level_push cmp p x lv))) = insert x (set (concat (map snd lv)))"
  by (induction cmp p x lv rule: level_push.induct) auto

lemma level_push_distinct:
  "distinct (concat (map snd lv)) \<Longrightarrow> x \<notin> set (concat (map snd lv)) \<Longrightarrow>
   distinct (concat (map snd (level_push cmp p x lv)))"
  by (induction cmp p x lv rule: level_push.induct) (auto simp: level_push_set simp del: set_concat)

lemma own_add_to_book:
  "Order.side (heap m ord) = s \<Longrightarrow>
   own_levels (add_to_book ord m book) s =
     level_push (case s of BUY \<Rightarrow> (\<lambda>a b. a > b) | SELL \<Rightarrow> (\<lambda>a b. a < b)) (Order.price (heap m ord)) ord
       (own_levels book s)"
  by (cases s) (auto simp: add_to_book_def own_levels_def)

lemma match_order_wf:
  assumes mo: "match_order ord book m = (fs, book2, m2)" and wf: "book_wf m book"
    and fresh: "ord \<notin> set (concat (map snd (OrderBook.bids book)))"
               "ord \<notin> set (concat (map snd (OrderBook.asks book)))"
  shows "book_wf m2 book2"
    and "set (concat (map snd (OrderBook.bids book2))) \<subseteq> set (concat (map snd (OrderBook.bids book)))"
    and "set (concat (map snd (OrderBook.asks book2))) \<subseteq> set (concat (map snd (OrderBook.asks book)))"
    and "set (map fst (OrderBook.bids book2)) \<subseteq> set (map fst (OrderBook.bids book))"
    and "set (map fst (OrderBook.asks book2)) \<subseteq> set (map fst (OrderBook.asks book))"
proof -
  define s where "s = Order.side (heap m ord)"
  note l = match_order_loop [OF mo, folded s_def]
  from wf have w: "distinct (concat (map snd (own_levels book s)))"
    "distinct (concat (map snd (opposite_levels book s)))"
    "\<forall>x \<in> set (concat (map snd (own_levels book s))). x < brk m \<and> Order.side (heap m x) = s"
    "\<forall>x \<in> set (concat (map snd (opposite_levels book s))). x < brk m \<and> Order.side (heap m x) = other_side s"
    "book_sorted book"
    by (simp_all add: book_wf_sides [of m book s])
  from fresh have fr: "ord \<notin> set (concat (map snd (opposite_levels book s)))"
    by (cases s) (auto simp: opposite_levels_def)
  from match_loop_emitted [OF l(1)] have
    id: "\<And>x. ident (heap m2 x) = ident (heap m x)" and bk: "brk m2 = brk m"
    and sub: "set (concat (map snd (opposite_levels book2 s))) \<subseteq> set (concat (map snd (opposite_levels book s)))"
    and ksub: "fst ` set (opposite_levels book2 s) \<subseteq> fst ` set (opposite_levels book s)"
    by (auto simp: emitted_def)
  have sd: "Order.side (heap m2 x) = Order.side (heap m x)" for x
    using id [of x] by (simp add: ident_def)
  from match_loop_priority [OF l(1) w(2) fr] obtain n where
    "concat (map snd (opposite_levels book2 s)) = drop n (concat (map snd (opposite_levels book s)))"
    by blast
  with w(2) have d2: "distinct (concat (map snd (opposite_levels book2 s)))" by simp
  have bs: "book_sorted book2" by (rule book_sorted_match_order [OF mo w(5)])
  show "book_wf m2 book2"
    unfolding book_wf_sides [of m2 book2 s] l(2) sd bk
    using w d2 sub bs by auto
  show "set (concat (map snd (OrderBook.bids book2))) \<subseteq> set (concat (map snd (OrderBook.bids book)))"
    "set (concat (map snd (OrderBook.asks book2))) \<subseteq> set (concat (map snd (OrderBook.asks book)))"
    "set (map fst (OrderBook.bids book2)) \<subseteq> set (map fst (OrderBook.bids book))"
    "set (map fst (OrderBook.asks book2)) \<subseteq> set (map fst (OrderBook.asks book))"
    using sub ksub l(2) by (cases s; simp add: opposite_levels_def own_levels_def)+
qed

lemma level_push_sorted_bids:
  "sorted_wrt (\<lambda>a b. a > b) (map fst lv) \<Longrightarrow>
   sorted_wrt (\<lambda>a b. a > b) (map fst (level_push (\<lambda>a b. a > b) p x lv))"
  by (rule level_push_sorted) auto

lemma level_push_sorted_asks:
  "sorted_wrt (\<lambda>a b. a < b) (map fst lv) \<Longrightarrow>
   sorted_wrt (\<lambda>a b. a < b) (map fst (level_push (\<lambda>a b. a < b) p x lv))"
  by (rule level_push_sorted) auto

lemma add_to_book_wf:
  assumes wf: "book_wf m book" and lt: "ord < brk m"
    and fresh: "ord \<notin> set (concat (map snd (OrderBook.bids book)))"
               "ord \<notin> set (concat (map snd (OrderBook.asks book)))"
  shows "book_wf m (add_to_book ord m book)"
proof (cases "Order.side (heap m ord)")
  case BUY
  then have b: "add_to_book ord m book = book\<lparr> OrderBook.bids :=
      level_push (\<lambda>a b. a > b) (Order.price (heap m ord)) ord (OrderBook.bids book) \<rparr>"
    by (simp add: add_to_book_def)
  show ?thesis
    unfolding b using wf lt fresh BUY
    by (simp add: book_wf_def book_sorted_def level_push_set level_push_distinct
        level_push_sorted_bids del: set_concat)
next
  case SELL
  then have b: "add_to_book ord m book = book\<lparr> OrderBook.asks :=
      level_push (\<lambda>a b. a < b) (Order.price (heap m ord)) ord (OrderBook.asks book) \<rparr>"
    by (simp add: add_to_book_def)
  show ?thesis
    unfolding b using wf lt fresh SELL
    by (simp add: book_wf_def book_sorted_def level_push_set level_push_distinct
        level_push_sorted_asks del: set_concat)
qed

lemma add_to_book_sets:
  "set (concat (map snd (OrderBook.bids (add_to_book ord m book)))) \<subseteq> insert ord (set (concat (map snd (OrderBook.bids book))))"
  "set (concat (map snd (OrderBook.asks (add_to_book ord m book)))) \<subseteq> insert ord (set (concat (map snd (OrderBook.asks book))))"
  "set (map fst (OrderBook.bids (add_to_book ord m book))) \<subseteq> insert (Order.price (heap m ord)) (set (map fst (OrderBook.bids book)))"
  "set (map fst (OrderBook.asks (add_to_book ord m book))) \<subseteq> insert (Order.price (heap m ord)) (set (map fst (OrderBook.asks book)))"
  "OrderBook.instrument_id (add_to_book ord m book) = OrderBook.instrument_id book"
  by (cases "Order.side (heap m ord)";
      simp add: add_to_book_def level_push_set level_push_keys subset_insertI del: set_concat set_map)+

lemma level_remove_facts:
  "set (concat (map snd (level_remove p x lv))) \<subseteq> set (concat (map snd lv))"
  "distinct (concat (map snd lv)) \<Longrightarrow> distinct (concat (map snd (level_remove p x lv)))"
  "set (map fst (level_remove p x lv)) \<subseteq> set (map fst lv)"
proof (induction p x lv rule: level_remove.induct)
  case (1 p x)
  {
    case 1 show ?case by simp
  next
    case 2 show ?case by simp
  next
    case 3 show ?case by simp
  }
next
  case (2 p x p' q lv)
  {
    case 1
    show ?case using "2.IH"(1) by (auto simp del: set_removeAll) (auto split: if_splits)
  next
    case 2
    then show ?case using "2.IH"(1,2) by (auto simp: distinct_removeAll)
  next
    case 3
    show ?case using "2.IH"(3) by auto
  }
qed

lemma level_remove_sorted:
  "sorted_wrt cmp (map fst lv) \<Longrightarrow> sorted_wrt cmp (map fst (level_remove p x lv))"
proof (induction p x lv rule: level_remove.induct)
  case (1 p x)
  then show ?case by simp
next
  case (2 p x p' q lv)
  then show ?case
    using level_remove_facts(3) [of p x lv] by (auto simp del: set_map)
qed

lemma OrderBook_cancel_order_wf:
  assumes "OrderBook_cancel_order oid book m = (r, book', m')" and "book_wf m book"
  shows "book_wf m' book'" and "brk m' = brk m" and "\<And>x. ident (heap m' x) = ident (heap m x)"
    and "OrderBook.instrument_id book' = OrderBook.instrument_id book"
    and "set (map fst (OrderBook.bids book')) \<subseteq> set (map fst (OrderBook.bids book))"
    and "set (map fst (OrderBook.asks book')) \<subseteq> set (map fst (OrderBook.asks book))"
    and "clock m' = clock m"
proof -
  show "brk m' = brk m" "\<And>x. ident (heap m' x) = ident (heap m x)"
    "OrderBook.instrument_id book' = OrderBook.instrument_id book" "clock m' = clock m"
    using assms(1)
    by (auto simp: OrderBook_cancel_order_def Let_def split: option.splits Side.splits)
  show "set (map fst (OrderBook.bids book')) \<subseteq> set (map fst (OrderBook.bids book))"
    "set (map fst (OrderBook.asks book')) \<subseteq> set (map fst (OrderBook.asks book))"
    using assms(1)
    by (auto simp: OrderBook_cancel_order_def Let_def simp del: set_map split: option.splits Side.splits
        dest: subsetD [OF level_remove_facts(3)])
  show "book_wf m' book'"
  proof (cases "orders book oid")
    case None
    with assms show ?thesis by (simp add: OrderBook_cancel_order_def)
  next
    case (Some ord)
    define book1 where "book1 = (case Order.side (heap m ord) of
                BUY \<Rightarrow> book\<lparr> OrderBook.bids :=
                         level_remove (Order.price (heap m ord)) ord (OrderBook.bids book) \<rparr>
              | SELL \<Rightarrow> book\<lparr> OrderBook.asks :=
                         level_remove (Order.price (heap m ord)) ord (OrderBook.asks book) \<rparr>)"
    have "book_wf m book1"
      using assms(2) level_remove_facts(1) [of "Order.price (heap m ord)" ord]
      unfolding book1_def book_wf_def book_sorted_def
      by (cases "Order.side (heap m ord)")
         (auto simp: level_remove_facts(2) level_remove_sorted simp del: set_concat)
    then have "book_wf (set_status ord CANCELLED m) book1"
      by (rule book_wf_transfer) simp_all
    with assms(1) Some show ?thesis
      by (auto simp: OrderBook_cancel_order_def Let_def book1_def)
  qed
qed

lemma match_order_mem:
  assumes "match_order ord book m = (fs, book2, m2)"
  shows "brk m2 = brk m" and "ident (heap m2 x) = ident (heap m x)"
    and "OrderBook.instrument_id book2 = OrderBook.instrument_id book"
    and "clock m2 = clock m"
  using match_order_emitted [OF assms] match_order_loop(3) [OF assms] by (simp_all add: emitted_def)

lemma add_order_wf:
  assumes ao: "add_order ord book m = (fs, book', m')" and wf: "book_wf m book" and lt: "ord < brk m"
    and fresh: "ord \<notin> set (concat (map snd (OrderBook.bids book)))"
               "ord \<notin> set (concat (map snd (OrderBook.asks book)))"
  shows "book_wf m' book'"
    and "brk m' = brk m" and "\<And>x. ident (heap m' x) = ident (heap m x)"
    and "OrderBook.instrument_id book' = OrderBook.instrument_id book"
    and "set (map fst (OrderBook.bids book')) \<subseteq> insert (Order.price (heap m ord)) (set (map fst (OrderBook.bids book)))"
    and "set (map fst (OrderBook.asks book')) \<subseteq> insert (Order.price (heap m ord)) (set (map fst (OrderBook.asks book)))"
proof -
  let ?book1 = "book\<lparr> orders := (orders book)(Order.id (heap m ord) \<mapsto> ord) \<rparr>"
  have w1: "book_wf m ?book1" using wf by simp
  have f1: "ord \<notin> set (concat (map snd (OrderBook.bids ?book1)))"
    "ord \<notin> set (concat (map snd (OrderBook.asks ?book1)))" using fresh by simp_all
  from ao have "book_wf m' book' \<and> brk m' = brk m \<and> (\<forall>x. ident (heap m' x) = ident (heap m x)) \<and>
    OrderBook.instrument_id book' = OrderBook.instrument_id book \<and>
    set (map fst (OrderBook.bids book')) \<subseteq> insert (Order.price (heap m ord)) (set (map fst (OrderBook.bids book))) \<and>
    set (map fst (OrderBook.asks book')) \<subseteq> insert (Order.price (heap m ord)) (set (map fst (OrderBook.asks book)))"
  proof (cases rule: add_order_cases)
    case (1 book2 m2)
    note w = match_order_wf [OF 1(1) w1 f1] and mm = match_order_mem [OF 1(1)]
    have k: "set (map fst (OrderBook.bids book2)) \<subseteq> set (map fst (OrderBook.bids book))"
      "set (map fst (OrderBook.asks book2)) \<subseteq> set (map fst (OrderBook.asks book))"
      using w(4,5) by simp_all
    have "book_wf m' book'" unfolding 1(3,4) using w(1) by simp
    moreover have "brk m' = brk m" "\<And>x. ident (heap m' x) = ident (heap m x)"
      using mm(1,2) by (simp_all add: 1(4))
    moreover have "OrderBook.instrument_id book' = OrderBook.instrument_id book"
      using mm(3) by (simp add: 1(3))
    moreover have "set (map fst (OrderBook.bids book')) \<subseteq> insert (Order.price (heap m ord)) (set (map fst (OrderBook.bids book)))"
      "set (map fst (OrderBook.asks book')) \<subseteq> insert (Order.price (heap m ord)) (set (map fst (OrderBook.asks book)))"
      using k by (simp_all add: 1(3) subset_insertI2 del: set_map)
    ultimately show ?thesis by (intro conjI allI)
  next
    case (2 book2 m2)
    note w = match_order_wf [OF 2(1) w1 f1] and mm = match_order_mem [OF 2(1)]
    have k: "set (map fst (OrderBook.bids book2)) \<subseteq> set (map fst (OrderBook.bids book))"
      "set (map fst (OrderBook.asks book2)) \<subseteq> set (map fst (OrderBook.asks book))"
      using w(4,5) by simp_all
    have lt2: "ord < brk m2" using lt mm(1) by simp
    have f2: "ord \<notin> set (concat (map snd (OrderBook.bids book2)))"
      "ord \<notin> set (concat (map snd (OrderBook.asks book2)))"
      using subsetD [OF w(2)] subsetD [OF w(3)] f1 by blast+
    have pr: "Order.price (heap m2 ord) = Order.price (heap m ord)" using mm(2) [of ord] by (simp add: ident_def)
    have "book_wf m2 (add_to_book ord m2 book2)" by (rule add_to_book_wf [OF w(1) lt2 f2])
    then have "book_wf m' book'"
      unfolding 2(5,6) by (rule book_wf_transfer) simp_all
    moreover have "brk m' = brk m" "\<And>x. ident (heap m' x) = ident (heap m x)"
      using mm(1,2) by (simp_all add: 2(6))
    moreover have "OrderBook.instrument_id book' = OrderBook.instrument_id book"
      using mm(3) by (simp add: 2(5) add_to_book_sets(5))
    moreover have "set (map fst (OrderBook.bids book')) \<subseteq> insert (Order.price (heap m ord)) (set (map fst (OrderBook.bids book)))"
      using add_to_book_sets(3) [of ord m2 book2] k(1) unfolding 2(5) pr by blast
    moreover have "set (map fst (OrderBook.asks book')) \<subseteq> insert (Order.price (heap m ord)) (set (map fst (OrderBook.asks book)))"
      using add_to_book_sets(4) [of ord m2 book2] k(2) unfolding 2(5) pr by blast
    ultimately show ?thesis by (intro conjI allI)
  next
    case (3 book2 m2 st)
    note w = match_order_wf [OF 3(1) w1 f1] and mm = match_order_mem [OF 3(1)]
    have k: "set (map fst (OrderBook.bids book2)) \<subseteq> set (map fst (OrderBook.bids book))"
      "set (map fst (OrderBook.asks book2)) \<subseteq> set (map fst (OrderBook.asks book))"
      using w(4,5) by simp_all
    have "book_wf m' book'"
      unfolding 3(4,5) by (rule book_wf_transfer [OF w(1)]) simp_all
    moreover have "brk m' = brk m" "\<And>x. ident (heap m' x) = ident (heap m x)"
      using mm(1,2) by (simp_all add: 3(5))
    moreover have "OrderBook.instrument_id book' = OrderBook.instrument_id book"
      using mm(3) by (simp add: 3(4))
    moreover have "set (map fst (OrderBook.bids book')) \<subseteq> insert (Order.price (heap m ord)) (set (map fst (OrderBook.bids book)))"
      "set (map fst (OrderBook.asks book')) \<subseteq> insert (Order.price (heap m ord)) (set (map fst (OrderBook.asks book)))"
      using k by (simp_all add: 3(4) subset_insertI2 del: set_map)
    ultimately show ?thesis by (intro conjI allI)
  qed
  then show "book_wf m' book'"
    and "brk m' = brk m" and "\<And>x. ident (heap m' x) = ident (heap m x)"
    and "OrderBook.instrument_id book' = OrderBook.instrument_id book"
    and "set (map fst (OrderBook.bids book')) \<subseteq> insert (Order.price (heap m ord)) (set (map fst (OrderBook.bids book)))"
    and "set (map fst (OrderBook.asks book')) \<subseteq> insert (Order.price (heap m ord)) (set (map fst (OrderBook.asks book)))"
    by blast+
qed

lemma ident_eqD:
  assumes "ident x = ident y"
  shows "Order.id x = Order.id y" "Order.user_id x = Order.user_id y"
    "Order.instrument_id x = Order.instrument_id y" "Order.side x = Order.side y"
    "Order.price x = Order.price y" "Order.quantity x = Order.quantity y"
    "Order.tif x = Order.tif y" "Order.post_only x = Order.post_only y"
  using assms by (simp_all add: ident_def)

lemma new_order_mem_facts:
  "brk (new_order_mem request oid m) = Suc (brk m)"
  "x \<noteq> brk m \<Longrightarrow> heap (new_order_mem request oid m) x = heap m x"
  "Order.price (heap (new_order_mem request oid m) (brk m)) = OrderRequest.price request"
  "Order.instrument_id (heap (new_order_mem request oid m) (brk m)) = OrderRequest.instrument_id request"
  "Order.side (heap (new_order_mem request oid m) (brk m)) = OrderRequest.side request"
  "Order.user_id (heap (new_order_mem request oid m) (brk m)) = OrderRequest.user_id request"
  "clock (new_order_mem request oid m) = clock m"
  by (simp_all add: new_order_mem_def)

lemma fill_pairs_trade_pairs:
  "fill_pairs a ps fs \<Longrightarrow> \<forall>p \<in> set ps. snd (snd p) \<noteq> snd (snd a) \<Longrightarrow>
   \<forall>f \<in> set fs. Fill.instrument_id f = i \<Longrightarrow> trade_pairs i fs"
proof (induction a ps fs rule: fill_pairs.induct)
  case (1 a ps)
  then show ?case by simp
next
  case (2 a ps f)
  then show ?case by simp
next
  case (3 a ps f1 f2 fs)
  from "3.prems"(1) have a: "fill_party f1 = a" "fill_party f2 \<in> set ps" by simp_all
  from a(2) "3.prems"(2) have "snd (snd (fill_party f2)) \<noteq> snd (snd a)" by blast
  with a(1) have "Fill.side f1 \<noteq> Fill.side f2" by (auto simp: fill_party_def)
  with 3 show ?case by simp
qed

lemma book_prices_orders_update [simp]: "book_prices (book\<lparr> orders := X \<rparr>) = book_prices book"
  by (simp add: book_prices_def)

lemma opposite_levels_prices:
  "set (map fst (opposite_levels book s)) \<subseteq> book_prices book"
  by (cases s) (auto simp: opposite_levels_def book_prices_def)

lemma add_order_trades:
  assumes ao: "add_order ord book m = (fs, book', m')" and wf: "book_wf m book"
  shows "trade_pairs (OrderBook.instrument_id book) fs"
    and "\<forall>f \<in> set fs. Fill.price f \<in> book_prices book"
proof -
  let ?book1 = "book\<lparr> orders := (orders book)(Order.id (heap m ord) \<mapsto> ord) \<rparr>"
  define s where "s = Order.side (heap m ord)"
  obtain fs2 book2 m2 where mo: "match_order ord ?book1 m = (fs2, book2, m2)"
    by (metis prod_cases3)
  with add_order_fills [of ord book m] ao have fs: "fs2 = fs" by simp
  note l = match_order_loop(1) [OF mo, folded s_def]
  from match_loop_emitted [OF l] have em:
    "emitted (\<lambda>y. y \<in> fst ` set (opposite_levels ?book1 s) \<and> crosses s (Order.price (heap m ord)) y)
       (OrderBook.instrument_id ?book1) m ord (concat (map snd (opposite_levels ?book1 s))) fs m2"
    by (simp add: fs)
  have w1: "book_wf m ?book1" using wf by simp
  from w1 [unfolded book_wf_sides [of m ?book1 s]]
  have sides: "\<forall>x \<in> set (concat (map snd (opposite_levels ?book1 s))). Order.side (heap m x) = other_side s"
    by blast
  have ne: "other_side s \<noteq> s" by (cases s) (simp_all add: other_side_def)
  from em have fp: "fill_pairs (party (heap m ord))
      (map (\<lambda>x. party (heap m x)) (concat (map snd (opposite_levels ?book1 s)))) fs"
    and inst: "\<forall>f \<in> set fs. Fill.instrument_id f = OrderBook.instrument_id book"
    and pr: "\<forall>f \<in> set fs. Fill.price f \<in> fst ` set (opposite_levels ?book1 s)"
    by (simp_all add: emitted_def)
  have "\<forall>p \<in> set (map (\<lambda>x. party (heap m x)) (concat (map snd (opposite_levels ?book1 s)))).
          snd (snd p) \<noteq> snd (snd (party (heap m ord)))"
    using sides ne by (auto simp: party_def s_def simp del: set_concat)
  from fill_pairs_trade_pairs [OF fp this inst]
  show "trade_pairs (OrderBook.instrument_id book) fs" .
  show "\<forall>f \<in> set fs. Fill.price f \<in> book_prices book"
  proof
    fix f assume "f \<in> set fs"
    with pr have "Fill.price f \<in> set (map fst (opposite_levels ?book1 s))" by simp
    with opposite_levels_prices [of ?book1 s] show "Fill.price f \<in> book_prices book" by auto
  qed
qed

lemma add_order_prices:
  assumes ao: "add_order ord book m = (fs, book', m')" and wf: "book_wf m book" and lt: "ord < brk m"
    and fresh: "ord \<notin> set (concat (map snd (OrderBook.bids book)))"
               "ord \<notin> set (concat (map snd (OrderBook.asks book)))"
  shows "book_prices book' \<subseteq> insert (Order.price (heap m ord)) (book_prices book)"
  using add_order_wf(5,6) [OF assms] unfolding book_prices_def by blast

section \<open>Price-time priority across calls\<close>

lemma priced_queue_keys: "fst ` set (priced_queue lv) \<subseteq> fst ` set lv"
  by (force simp: priced_queue_def)

lemma filter_all: "(\<And>x. x \<in> set xs \<Longrightarrow> P x) \<Longrightarrow> filter P xs = xs"
  by (induction xs) auto

lemma filter_none: "(\<And>x. x \<in> set xs \<Longrightarrow> \<not> P x) \<Longrightarrow> filter P xs = []"
  by (induction xs) auto

lemma priced_queue_level_push_asks:
  "sorted_wrt (\<lambda>a b. a < b) (map fst lv) \<Longrightarrow>
   priced_queue (level_push (\<lambda>a b. a < b) p x lv) =
     filter (\<lambda>e. fst e \<le> p) (priced_queue lv) @ [(p, x)] @ filter (\<lambda>e. p < fst e) (priced_queue lv)"
proof (induction lv)
  case Nil
  then show ?case by (simp add: priced_queue_def)
next
  case (Cons a lv)
  obtain k q where a: "a = (k, q)" by (cases a)
  from Cons.prems have tl: "sorted_wrt (\<lambda>a b. a < b) (map fst lv)" and hd: "\<forall>j \<in> fst ` set lv. k < j"
    by (auto simp: a)
  from hd priced_queue_keys [of lv] have hd': "\<And>e. e \<in> set (priced_queue lv) \<Longrightarrow> k < fst e"
    by blast
  consider "p < k" | "p = k" | "k < p" by linarith
  then show ?case
  proof cases
    case 1
    have f1: "filter (\<lambda>e. fst e \<le> p) (priced_queue lv) = []"
      by (rule filter_none) (use hd' 1 in force)
    have f2: "filter (\<lambda>e. p < fst e) (priced_queue lv) = priced_queue lv"
      by (rule filter_all) (use hd' 1 in force)
    have g1: "filter (\<lambda>e. fst e \<le> p) (map (Pair k) q) = []"
      by (rule filter_none) (use 1 in auto)
    have g2: "filter (\<lambda>e. p < fst e) (map (Pair k) q) = map (Pair k) q"
      by (rule filter_all) (use 1 in auto)
    from 1 show ?thesis
      by (simp add: a priced_queue_Cons f1 f2 g1 g2 del: filter_map)
  next
    case 2
    have f1: "filter (\<lambda>e. fst e \<le> k) (priced_queue lv) = []"
      by (rule filter_none) (use hd' in force)
    have f2: "filter (\<lambda>e. k < fst e) (priced_queue lv) = priced_queue lv"
      by (rule filter_all) (use hd' in force)
    have g1: "filter (\<lambda>e. fst e \<le> k) (map (Pair k) q) = map (Pair k) q"
      by (rule filter_all) auto
    have g2: "filter (\<lambda>e. k < fst e) (map (Pair k) q) = []"
      by (rule filter_none) auto
    show ?thesis unfolding 2
      by (simp add: a priced_queue_Cons f1 f2 g1 g2 del: filter_map)
  next
    case 3
    have g1: "filter (\<lambda>e. fst e \<le> p) (map (Pair k) q) = map (Pair k) q"
      by (rule filter_all) (use 3 in auto)
    have g2: "filter (\<lambda>e. p < fst e) (map (Pair k) q) = []"
      by (rule filter_none) (use 3 in auto)
    from 3 Cons.IH [OF tl] show ?thesis
      by (simp add: a priced_queue_Cons g1 g2 del: filter_map)
  qed
qed

lemma priced_queue_level_push_bids:
  "sorted_wrt (\<lambda>a b. a > b) (map fst lv) \<Longrightarrow>
   priced_queue (level_push (\<lambda>a b. a > b) p x lv) =
     filter (\<lambda>e. p \<le> fst e) (priced_queue lv) @ [(p, x)] @ filter (\<lambda>e. fst e < p) (priced_queue lv)"
proof (induction lv)
  case Nil
  then show ?case by (simp add: priced_queue_def)
next
  case (Cons a lv)
  obtain k q where a: "a = (k, q)" by (cases a)
  from Cons.prems have tl: "sorted_wrt (\<lambda>a b. a > b) (map fst lv)" and hd: "\<forall>j \<in> fst ` set lv. j < k"
    by (auto simp: a)
  from hd priced_queue_keys [of lv] have hd': "\<And>e. e \<in> set (priced_queue lv) \<Longrightarrow> fst e < k"
    by blast
  consider "k < p" | "p = k" | "p < k" by linarith
  then show ?case
  proof cases
    case 1
    have f1: "filter (\<lambda>e. p \<le> fst e) (priced_queue lv) = []"
      by (rule filter_none) (use hd' 1 in force)
    have f2: "filter (\<lambda>e. fst e < p) (priced_queue lv) = priced_queue lv"
      by (rule filter_all) (use hd' 1 in force)
    have g1: "filter (\<lambda>e. p \<le> fst e) (map (Pair k) q) = []"
      by (rule filter_none) (use 1 in auto)
    have g2: "filter (\<lambda>e. fst e < p) (map (Pair k) q) = map (Pair k) q"
      by (rule filter_all) (use 1 in auto)
    from 1 show ?thesis
      by (simp add: a priced_queue_Cons f1 f2 g1 g2 del: filter_map)
  next
    case 2
    have f1: "filter (\<lambda>e. k \<le> fst e) (priced_queue lv) = []"
      by (rule filter_none) (use hd' in force)
    have f2: "filter (\<lambda>e. fst e < k) (priced_queue lv) = priced_queue lv"
      by (rule filter_all) (use hd' in force)
    have g1: "filter (\<lambda>e. k \<le> fst e) (map (Pair k) q) = map (Pair k) q"
      by (rule filter_all) auto
    have g2: "filter (\<lambda>e. fst e < k) (map (Pair k) q) = []"
      by (rule filter_none) auto
    show ?thesis unfolding 2
      by (simp add: a priced_queue_Cons f1 f2 g1 g2 del: filter_map)
  next
    case 3
    have g1: "filter (\<lambda>e. p \<le> fst e) (map (Pair k) q) = map (Pair k) q"
      by (rule filter_all) (use 3 in auto)
    have g2: "filter (\<lambda>e. fst e < p) (map (Pair k) q) = []"
      by (rule filter_none) (use 3 in auto)
    from 3 Cons.IH [OF tl] show ?thesis
      by (simp add: a priced_queue_Cons g1 g2 del: filter_map)
  qed
qed

lemma priced_queue_level_remove:
  "distinct (map fst lv) \<Longrightarrow>
   priced_queue (level_remove p x lv) = filter (\<lambda>e. e \<noteq> (p, x)) (priced_queue lv)"
proof (induction lv)
  case Nil
  then show ?case by (simp add: priced_queue_def)
next
  case (Cons a lv)
  obtain k q where a: "a = (k, q)" by (cases a)
  from Cons.prems have tl: "distinct (map fst lv)" and hd: "k \<notin> fst ` set lv"
    by (auto simp: a)
  from hd priced_queue_keys [of lv] have hd': "\<And>e. e \<in> set (priced_queue lv) \<Longrightarrow> fst e \<noteq> k"
    by blast
  have rm: "filter (\<lambda>e. e \<noteq> (k, x)) (map (Pair k) q) = map (Pair k) (removeAll x q)"
    by (induction q) auto
  show ?case
  proof (cases "p = k")
    case True
    have f: "filter (\<lambda>e. e \<noteq> (k, x)) (priced_queue lv) = priced_queue lv"
      by (rule filter_all) (use hd' in force)
    from True show ?thesis
      by (simp add: a priced_queue_Cons f rm del: filter_map)
  next
    case False
    have g: "filter (\<lambda>e. e \<noteq> (p, x)) (map (Pair k) q) = map (Pair k) q"
      by (rule filter_all) (use False in auto)
    from False Cons.IH [OF tl] show ?thesis
      by (simp add: a priced_queue_Cons g del: filter_map)
  qed
qed

lemma sorted_keys_distinct:
  "sorted_wrt (\<lambda>a b. a > b) (ks :: int list) \<Longrightarrow> distinct ks"
  "sorted_wrt (\<lambda>a b. a < b) (ks :: int list) \<Longrightarrow> distinct ks"
  by (induction ks) auto

lemma priced_queue_add_to_book:
  assumes "book_sorted book" and "Order.side (heap m ord) = s" and "Order.price (heap m ord) = p"
  shows "priced_queue (own_levels (add_to_book ord m book) s) =
           (case s of
              BUY \<Rightarrow> filter (\<lambda>e. p \<le> fst e) (priced_queue (own_levels book s)) @ [(p, ord)] @
                     filter (\<lambda>e. fst e < p) (priced_queue (own_levels book s))
            | SELL \<Rightarrow> filter (\<lambda>e. fst e \<le> p) (priced_queue (own_levels book s)) @ [(p, ord)] @
                      filter (\<lambda>e. p < fst e) (priced_queue (own_levels book s)))"
  using assms
  by (cases s)
     (simp_all add: book_sorted_def add_to_book_def own_levels_def priced_queue_level_push_bids
        priced_queue_level_push_asks)

lemma cancel_order_priced:
  assumes "orders book oid = Some x" and "book_sorted book"
  shows "book_sorted (fst (snd (OrderBook_cancel_order oid book m)))"
    and "priced_queue (OrderBook.bids (fst (snd (OrderBook_cancel_order oid book m)))) =
           (if Order.side (heap m x) = BUY
            then filter (\<lambda>e. e \<noteq> (Order.price (heap m x), x)) (priced_queue (OrderBook.bids book))
            else priced_queue (OrderBook.bids book))"
    and "priced_queue (OrderBook.asks (fst (snd (OrderBook_cancel_order oid book m)))) =
           (if Order.side (heap m x) = SELL
            then filter (\<lambda>e. e \<noteq> (Order.price (heap m x), x)) (priced_queue (OrderBook.asks book))
            else priced_queue (OrderBook.asks book))"
proof -
  from assms(2) have db: "distinct (map fst (OrderBook.bids book))"
    and da: "distinct (map fst (OrderBook.asks book))"
    by (simp_all add: book_sorted_def sorted_keys_distinct)
  show "book_sorted (fst (snd (OrderBook_cancel_order oid book m)))"
    using assms
    by (cases "Order.side (heap m x)")
       (simp_all add: OrderBook_cancel_order_def Let_def book_sorted_def level_remove_sorted)
  show "priced_queue (OrderBook.bids (fst (snd (OrderBook_cancel_order oid book m)))) =
           (if Order.side (heap m x) = BUY
            then filter (\<lambda>e. e \<noteq> (Order.price (heap m x), x)) (priced_queue (OrderBook.bids book))
            else priced_queue (OrderBook.bids book))"
    using assms(1) db
    by (cases "Order.side (heap m x)")
       (simp_all add: OrderBook_cancel_order_def Let_def priced_queue_level_remove)
  show "priced_queue (OrderBook.asks (fst (snd (OrderBook_cancel_order oid book m)))) =
           (if Order.side (heap m x) = SELL
            then filter (\<lambda>e. e \<noteq> (Order.price (heap m x), x)) (priced_queue (OrderBook.asks book))
            else priced_queue (OrderBook.asks book))"
    using assms(1) da
    by (cases "Order.side (heap m x)")
       (simp_all add: OrderBook_cancel_order_def Let_def priced_queue_level_remove)
qed

lemma add_order_own:
  assumes a: "add_order ord book m = (fs, book', m')"
  shows "\<not> (status (heap m' ord) = PENDING \<or> status (heap m' ord) = PARTIAL) \<Longrightarrow>
           own_levels book' (Order.side (heap m ord)) = own_levels book (Order.side (heap m ord))"
    and "status (heap m' ord) = PENDING \<or> status (heap m' ord) = PARTIAL \<Longrightarrow> book_sorted book \<Longrightarrow>
           priced_queue (own_levels book' (Order.side (heap m ord))) =
             (case Order.side (heap m ord) of
                BUY \<Rightarrow> filter (\<lambda>e. Order.price (heap m ord) \<le> fst e)
                         (priced_queue (own_levels book (Order.side (heap m ord)))) @
                       [(Order.price (heap m ord), ord)] @
                       filter (\<lambda>e. fst e < Order.price (heap m ord))
                         (priced_queue (own_levels book (Order.side (heap m ord))))
              | SELL \<Rightarrow> filter (\<lambda>e. fst e \<le> Order.price (heap m ord))
                          (priced_queue (own_levels book (Order.side (heap m ord)))) @
                        [(Order.price (heap m ord), ord)] @
                        filter (\<lambda>e. Order.price (heap m ord) < fst e)
                          (priced_queue (own_levels book (Order.side (heap m ord)))))"
proof -
  define s where "s = Order.side (heap m ord)"
  let ?book1 = "book\<lparr> orders := (orders book)(Order.id (heap m ord) \<mapsto> ord) \<rparr>"
  from a obtain book2 m2 where
    mo: "match_order ord ?book1 m = (fs, book2, m2)"
    and un: "\<not> (status (heap m' ord) = PENDING \<or> status (heap m' ord) = PARTIAL) \<Longrightarrow>
             own_levels book' s = own_levels book2 s"
    and bk: "status (heap m' ord) = PENDING \<or> status (heap m' ord) = PARTIAL \<Longrightarrow>
             book' = add_to_book ord m2 book2"
  proof (cases rule: add_order_cases)
    case (1 book2 m2)
    then show ?thesis by (intro that [of book2 m2]) auto
  next
    case (2 book2 m2)
    then show ?thesis by (intro that [of book2 m2]) (auto simp: set_status_def split: if_splits)
  next
    case (3 book2 m2 st)
    then show ?thesis by (intro that [of book2 m2]) (auto simp: set_status_def)
  qed
  note l = match_order_loop [OF mo, folded s_def, simplified]
  show "own_levels book' (Order.side (heap m ord)) = own_levels book (Order.side (heap m ord))"
    if "\<not> (status (heap m' ord) = PENDING \<or> status (heap m' ord) = PARTIAL)"
    using un [OF that] l(2) by (simp add: s_def)
  show "priced_queue (own_levels book' (Order.side (heap m ord))) =
             (case Order.side (heap m ord) of
                BUY \<Rightarrow> filter (\<lambda>e. Order.price (heap m ord) \<le> fst e)
                         (priced_queue (own_levels book (Order.side (heap m ord)))) @
                       [(Order.price (heap m ord), ord)] @
                       filter (\<lambda>e. fst e < Order.price (heap m ord))
                         (priced_queue (own_levels book (Order.side (heap m ord))))
              | SELL \<Rightarrow> filter (\<lambda>e. fst e \<le> Order.price (heap m ord))
                          (priced_queue (own_levels book (Order.side (heap m ord)))) @
                        [(Order.price (heap m ord), ord)] @
                        filter (\<lambda>e. Order.price (heap m ord) < fst e)
                          (priced_queue (own_levels book (Order.side (heap m ord)))))"
    if st: "status (heap m' ord) = PENDING \<or> status (heap m' ord) = PARTIAL" and bs: "book_sorted book"
  proof -
    have b1: "book_sorted ?book1" using bs by (simp add: book_sorted_def)
    have b2: "book_sorted book2" by (rule book_sorted_match_order [OF mo b1])
    from match_loop_emitted [OF l(1)] have "ident (heap m2 ord) = ident (heap m ord)"
      by (auto simp: emitted_def)
    then have sp: "Order.side (heap m2 ord) = s" "Order.price (heap m2 ord) = Order.price (heap m ord)"
      by (simp_all add: ident_def s_def)
    have bk': "add_to_book ord m2 book2 = book'" using bk [OF st] by simp
    from priced_queue_add_to_book [OF b2 sp] show ?thesis
      unfolding bk' s_def l(2) [unfolded s_def] .
  qed
qed

text \<open>
  Claim C8. Let \<open>Q\<close> be the orders resting on the side the incoming order matches
  against, in book order (levels as the map iterates them, each level's queue front to
  back), and \<open>PQ\<close> the same orders with the price of their level; every order object is
  queued once and the incoming order is not among them.
  \<^item> Time and price priority within one call: the call fills the first \<open>n\<close> orders of \<open>Q\<close>
    completely (status FILLED) and may partly fill the next one; the passive fills are
    those of the first \<open>k\<close> orders of \<open>Q\<close>, in that order, each at the price of the level
    the order rests at; every order behind is untouched. So an order of \<open>Q\<close> receives
    quantity only if every order before it is completely filled and has left the book.
  \<^item> What is left keeps its place: after the call the side is \<open>drop n PQ\<close>, the same
    orders at the same prices in the same order.
  \<^item> Every fill is at a price within the limit (\<open>\<le>\<close> the limit of a BUY, \<open>\<ge>\<close> the limit
    of a SELL), and matching stops only when the incoming order is filled (or rejected as
    post-only), the opposite side is empty, or its best price is beyond the limit.
  \<^item> With both sides in key order (bids descending, asks ascending), \<open>PQ\<close> runs from the
    best opposite price to the worst (lowest ask first for a BUY, highest bid first for a
    SELL) and the book stays in key order. An order that is booked goes behind every
    order of its own side with a better or equal price and before every order with a
    worse price (so behind the orders already resting at its price); the orders already
    there keep their order. An order that is not booked leaves its own side as it was.
  \<^item> Cancelling an order removes it from the level of its price and leaves all other
    orders of both sides in their order.
\<close>

theorem price_time_priority:
  assumes d: "distinct (opposite_queue book (Order.side (heap m ord)))"
    and o: "ord \<notin> set (opposite_queue book (Order.side (heap m ord)))"
    and a: "add_order ord book m = (fs, book', m')"
  shows
    "let s = Order.side (heap m ord); limit = Order.price (heap m ord);
         Q = opposite_queue book s;
         PQ = priced_queue (opposite_levels book s);
         OWN = priced_queue (own_levels book s)
     in (\<forall>i j. i < j \<longrightarrow> j < length Q \<longrightarrow>
           filled_quantity (heap m' (Q ! j)) \<noteq> filled_quantity (heap m (Q ! j)) \<longrightarrow>
             filled_quantity (heap m' (Q ! i)) = Order.quantity (heap m (Q ! i)) \<and>
             status (heap m' (Q ! i)) = FILLED \<and>
             Q ! i \<notin> set (opposite_queue book' s)) \<and>
        (\<exists>n k. n \<le> k \<and> k \<le> Suc n \<and> k \<le> length PQ \<and>
           priced_queue (opposite_levels book' s) = drop n PQ \<and>
           opposite_queue book' s = drop n Q \<and>
           map fill_party (passives fs) = map (\<lambda>x. party (heap m x)) (take k Q) \<and>
           map Fill.price (passives fs) = map fst (take k PQ) \<and>
           (\<forall>i < n. filled_quantity (heap m' (Q ! i)) = Order.quantity (heap m (Q ! i)) \<and>
                     status (heap m' (Q ! i)) = FILLED) \<and>
           (\<forall>j. n < j \<longrightarrow> j < length Q \<longrightarrow> heap m' (Q ! j) = heap m (Q ! j))) \<and>
        (\<forall>f \<in> set fs. case s of BUY \<Rightarrow> Fill.price f \<le> limit | SELL \<Rightarrow> limit \<le> Fill.price f) \<and>
        (status (heap m' ord) = REJECTED
         \<or> \<not> filled_quantity (heap m' ord) < Order.quantity (heap m' ord)
         \<or> opposite_levels book' s = []
         \<or> (case s of BUY \<Rightarrow> limit < fst (hd (opposite_levels book' s))
                      | SELL \<Rightarrow> fst (hd (opposite_levels book' s)) < limit)) \<and>
        (\<not> (status (heap m' ord) = PENDING \<or> status (heap m' ord) = PARTIAL) \<longrightarrow>
           own_levels book' s = own_levels book s) \<and>
        (book_sorted book \<longrightarrow>
           book_sorted book' \<and> map snd PQ = Q \<and>
           (\<forall>i j. i < j \<longrightarrow> j < length PQ \<longrightarrow>
              (case s of BUY \<Rightarrow> fst (PQ ! i) \<le> fst (PQ ! j) | SELL \<Rightarrow> fst (PQ ! j) \<le> fst (PQ ! i))) \<and>
           (status (heap m' ord) = PENDING \<or> status (heap m' ord) = PARTIAL \<longrightarrow>
              level_queue limit (own_levels book' s) = level_queue limit (own_levels book s) @ [ord] \<and>
              priced_queue (own_levels book' s) =
                (case s of
                   BUY \<Rightarrow> filter (\<lambda>e. limit \<le> fst e) OWN @ [(limit, ord)] @ filter (\<lambda>e. fst e < limit) OWN
                 | SELL \<Rightarrow> filter (\<lambda>e. fst e \<le> limit) OWN @ [(limit, ord)] @ filter (\<lambda>e. limit < fst e) OWN)) \<and>
           (\<forall>oid x. orders book oid = Some x \<longrightarrow>
              book_sorted (fst (snd (OrderBook_cancel_order oid book m))) \<and>
              priced_queue (OrderBook.bids (fst (snd (OrderBook_cancel_order oid book m)))) =
                (if Order.side (heap m x) = BUY
                 then filter (\<lambda>e. e \<noteq> (Order.price (heap m x), x)) (priced_queue (OrderBook.bids book))
                 else priced_queue (OrderBook.bids book)) \<and>
              priced_queue (OrderBook.asks (fst (snd (OrderBook_cancel_order oid book m)))) =
                (if Order.side (heap m x) = SELL
                 then filter (\<lambda>e. e \<noteq> (Order.price (heap m x), x)) (priced_queue (OrderBook.asks book))
                 else priced_queue (OrderBook.asks book))))"
proof -
  define s where "s = Order.side (heap m ord)"
  define limit where "limit = Order.price (heap m ord)"
  define Q where "Q = opposite_queue book s"
  define PQ where "PQ = priced_queue (opposite_levels book s)"
  define OWN where "OWN = priced_queue (own_levels book s)"
  let ?book1 = "book\<lparr> orders := (orders book)(Order.id (heap m ord) \<mapsto> ord) \<rparr>"
  have Q1: "opposite_levels ?book1 s = opposite_levels book s" "own_levels ?book1 s = own_levels book s"
    by simp_all
  have Qc: "Q = concat (map snd (opposite_levels book s))" by (simp add: Q_def opposite_queue_def)
  have QP: "map snd PQ = Q" by (simp add: PQ_def Qc priced_queue_snd)
  \<comment> \<open>the three ways add_order can end all start with the same matching\<close>
  from a obtain book2 m2 where
    mo: "match_order ord ?book1 m = (fs, book2, m2)"
    and opp: "opposite_levels book' s = opposite_levels book2 s"
    and oth: "\<And>x. x \<noteq> ord \<Longrightarrow> heap m' x = heap m2 x"
    and fq: "filled_quantity (heap m' ord) = filled_quantity (heap m2 ord)"
       "Order.quantity (heap m' ord) = Order.quantity (heap m2 ord)"
    and rej: "status (heap m2 ord) = REJECTED \<Longrightarrow> status (heap m' ord) = REJECTED"
    and booked: "status (heap m' ord) = PENDING \<or> status (heap m' ord) = PARTIAL \<Longrightarrow>
                 book' = add_to_book ord m2 book2"
  proof (cases rule: add_order_cases)
    case (1 book2 m2)
    then show ?thesis by (intro that [of book2 m2]) auto
  next
    case (2 book2 m2)
    note l = match_order_loop [OF 2(1)]
    from match_loop_emitted [OF l(1)] have "ident (heap m2 ord) = ident (heap m ord)"
      by (auto simp: emitted_def)
    then have "Order.side (heap m2 ord) = s" by (simp add: ident_def s_def)
    with 2 show ?thesis
      by (intro that [of book2 m2]) (auto simp: opposite_add_to_book set_status_def)
  next
    case (3 book2 m2 st)
    then show ?thesis by (intro that [of book2 m2]) (auto simp: set_status_def)
  qed
  note l = match_order_loop [OF mo, folded s_def, unfolded Q1, simplified]
  from match_loop_emitted [OF l(1)] have
    em: "emitted (\<lambda>y. y \<in> fst ` set (opposite_levels book s) \<and> crosses s (Order.price (heap m ord)) y)
           (OrderBook.instrument_id book) m ord Q fs m2"
    by (auto simp: Qc)
  then have idm: "\<And>x. ident (heap m2 x) = ident (heap m x)" by (simp add: emitted_def)
  from match_loop_priority [OF l(1)] d o obtain n k where
    pr: "concat (map snd (opposite_levels book2 s)) = drop n Q" "consumed m ord Q n m2"
      "n \<le> k" "k \<le> length Q" "map fill_party (passives fs) = map (\<lambda>x. party (heap m x)) (take k Q)"
      "k \<le> Suc n"
    by (auto simp: Qc s_def opposite_queue_def)
  from pr(2) have nQ: "n \<le> length Q" by (simp add: consumed_def)
  from match_loop_moved [OF l(1)] obtain n' k' new where
    mv: "priced_queue (opposite_levels book2 s) = drop n' PQ" "n' \<le> k'" "k' \<le> length PQ"
      "fs = [] @ new" "moved m ord (take k' PQ) new m2"
    unfolding PQ_def by blast
  from mv(4) have new: "new = fs" by simp
  have Q': "opposite_queue book' s = drop n Q"
    by (simp add: opposite_queue_def opp pr(1))
  have nn: "n' = n"
  proof -
    from arg_cong [OF mv(1), of "map snd"]
    have "concat (map snd (opposite_levels book2 s)) = map snd (drop n' PQ)"
      by (simp add: priced_queue_snd)
    also have "\<dots> = drop n' Q" by (simp add: drop_map QP [symmetric])
    finally have "drop n Q = drop n' Q" using pr(1) by simp
    then have "length Q - n = length Q - n'" by (metis length_drop)
    moreover from mv(2,3) have "n' \<le> length Q" using QP by (metis le_trans length_map)
    ultimately show ?thesis using nQ by linarith
  qed
  have kk: "k' = k"
  proof -
    from mv(5) have "length (passives fs) = k'"
      using mv(3) arg_cong [of "map fill_party (passives new)" _ length]
      by (simp add: moved_def new passives_length)
    moreover have "length (map fill_party (passives fs)) =
        length (map (\<lambda>x. party (heap m x)) (take k Q))"
      by (simp only: pr(5))
    then have "length (passives fs) = k" using pr(4) by simp
    ultimately show ?thesis by simp
  qed
  have PQ': "priced_queue (opposite_levels book' s) = drop n PQ"
    by (simp add: opp mv(1) nn)
  have prices: "map Fill.price (passives fs) = map fst (take k PQ)"
    using mv(5) by (simp add: moved_def new kk)
  have p1: "filled_quantity (heap m' (Q ! i)) = Order.quantity (heap m (Q ! i)) \<and>
            status (heap m' (Q ! i)) = FILLED \<and> Q ! i \<notin> set (opposite_queue book' s)"
    if ij: "i < j" "j < length Q" and t: "filled_quantity (heap m' (Q ! j)) \<noteq> filled_quantity (heap m (Q ! j))"
    for i j
  proof -
    from o have "ord \<notin> set Q" by (simp add: Q_def s_def)
    with ij have ne: "Q ! j \<noteq> ord" "Q ! i \<noteq> ord"
      by (metis nth_mem, metis less_trans nth_mem)
    have "j \<le> n"
    proof (rule ccontr)
      assume "\<not> j \<le> n"
      then have "drop (Suc n) Q ! (j - Suc n) = Q ! j" "j - Suc n < length (drop (Suc n) Q)"
        using ij(2) by simp_all
      then have "Q ! j \<in> set (drop (Suc n) Q)" by (metis nth_mem)
      with pr(2) have "heap m2 (Q ! j) = heap m (Q ! j)" by (simp add: consumed_def)
      with t oth [OF ne(1)] show False by simp
    qed
    with ij have i: "i < n" "i < length Q" by auto
    then have "take n Q ! i = Q ! i" "i < length (take n Q)" by simp_all
    then have "Q ! i \<in> set (take n Q)" by (metis nth_mem)
    with pr(2) oth [OF ne(2)] distinct_nth_drop [OF d [folded s_def Q_def] i] show ?thesis
      by (simp add: consumed_def Q')
  qed
  have full: "filled_quantity (heap m' (Q ! i)) = Order.quantity (heap m (Q ! i)) \<and>
              status (heap m' (Q ! i)) = FILLED" if i: "i < n" for i
  proof -
    from i nQ have il: "i < length Q" by simp
    from o have "ord \<notin> set Q" by (simp add: Q_def s_def)
    with il have ne: "Q ! i \<noteq> ord" by (metis nth_mem)
    from i il have "take n Q ! i = Q ! i" "i < length (take n Q)" by simp_all
    then have "Q ! i \<in> set (take n Q)" by (metis nth_mem)
    with pr(2) oth [OF ne] show ?thesis by (simp add: consumed_def)
  qed
  have behind: "heap m' (Q ! j) = heap m (Q ! j)" if j: "n < j" "j < length Q" for j
  proof -
    from o have "ord \<notin> set Q" by (simp add: Q_def s_def)
    with j have ne: "Q ! j \<noteq> ord" by (metis nth_mem)
    from j have "drop (Suc n) Q ! (j - Suc n) = Q ! j" "j - Suc n < length (drop (Suc n) Q)"
      by simp_all
    then have "Q ! j \<in> set (drop (Suc n) Q)" by (metis nth_mem)
    with pr(2) have "heap m2 (Q ! j) = heap m (Q ! j)" by (simp add: consumed_def)
    with oth [OF ne] show ?thesis by simp
  qed
  have p2: "\<exists>n k. n \<le> k \<and> k \<le> Suc n \<and> k \<le> length PQ \<and>
           priced_queue (opposite_levels book' s) = drop n PQ \<and>
           opposite_queue book' s = drop n Q \<and>
           map fill_party (passives fs) = map (\<lambda>x. party (heap m x)) (take k Q) \<and>
           map Fill.price (passives fs) = map fst (take k PQ) \<and>
           (\<forall>i < n. filled_quantity (heap m' (Q ! i)) = Order.quantity (heap m (Q ! i)) \<and>
                     status (heap m' (Q ! i)) = FILLED) \<and>
           (\<forall>j. n < j \<longrightarrow> j < length Q \<longrightarrow> heap m' (Q ! j) = heap m (Q ! j))"
  proof (rule exI [of _ n], rule exI [of _ k], intro conjI allI impI)
    show "n \<le> k" by (rule pr(3))
    show "k \<le> Suc n" by (rule pr(6))
    show "k \<le> length PQ" using mv(3) kk by simp
    show "priced_queue (opposite_levels book' s) = drop n PQ" by (rule PQ')
    show "opposite_queue book' s = drop n Q" by (rule Q')
    show "map fill_party (passives fs) = map (\<lambda>x. party (heap m x)) (take k Q)" by (rule pr(5))
    show "map Fill.price (passives fs) = map fst (take k PQ)" by (rule prices)
    show "filled_quantity (heap m' (Q ! i)) = Order.quantity (heap m (Q ! i))" if "i < n" for i
      using full [OF that] by simp
    show "status (heap m' (Q ! i)) = FILLED" if "i < n" for i
      using full [OF that] by simp
    show "heap m' (Q ! j) = heap m (Q ! j)" if "n < j" "j < length Q" for j
      by (rule behind [OF that])
  qed
  have p3: "\<forall>f \<in> set fs. case s of BUY \<Rightarrow> Fill.price f \<le> limit | SELL \<Rightarrow> limit \<le> Fill.price f"
    using em by (cases s) (auto simp: emitted_def crosses_def limit_def)
  have p4: "status (heap m' ord) = REJECTED
         \<or> \<not> filled_quantity (heap m' ord) < Order.quantity (heap m' ord)
         \<or> opposite_levels book' s = []
         \<or> (case s of BUY \<Rightarrow> limit < fst (hd (opposite_levels book' s))
                      | SELL \<Rightarrow> fst (hd (opposite_levels book' s)) < limit)"
    using match_loop_done [OF l(1)] rej unfolding opp fq
    by (cases s) (auto simp: crosses_def limit_def)
  have p4': "\<not> (status (heap m' ord) = PENDING \<or> status (heap m' ord) = PARTIAL) \<longrightarrow>
           own_levels book' s = own_levels book s"
    using add_order_own(1) [OF a] by (simp add: s_def)
  have p5: "book_sorted book' \<and> map snd PQ = Q \<and>
           (\<forall>i j. i < j \<longrightarrow> j < length PQ \<longrightarrow>
              (case s of BUY \<Rightarrow> fst (PQ ! i) \<le> fst (PQ ! j) | SELL \<Rightarrow> fst (PQ ! j) \<le> fst (PQ ! i))) \<and>
           (status (heap m' ord) = PENDING \<or> status (heap m' ord) = PARTIAL \<longrightarrow>
              level_queue limit (own_levels book' s) = level_queue limit (own_levels book s) @ [ord] \<and>
              priced_queue (own_levels book' s) =
                (case s of
                   BUY \<Rightarrow> filter (\<lambda>e. limit \<le> fst e) OWN @ [(limit, ord)] @ filter (\<lambda>e. fst e < limit) OWN
                 | SELL \<Rightarrow> filter (\<lambda>e. fst e \<le> limit) OWN @ [(limit, ord)] @ filter (\<lambda>e. limit < fst e) OWN)) \<and>
           (\<forall>oid x. orders book oid = Some x \<longrightarrow>
              book_sorted (fst (snd (OrderBook_cancel_order oid book m))) \<and>
              priced_queue (OrderBook.bids (fst (snd (OrderBook_cancel_order oid book m)))) =
                (if Order.side (heap m x) = BUY
                 then filter (\<lambda>e. e \<noteq> (Order.price (heap m x), x)) (priced_queue (OrderBook.bids book))
                 else priced_queue (OrderBook.bids book)) \<and>
              priced_queue (OrderBook.asks (fst (snd (OrderBook_cancel_order oid book m)))) =
                (if Order.side (heap m x) = SELL
                 then filter (\<lambda>e. e \<noteq> (Order.price (heap m x), x)) (priced_queue (OrderBook.asks book))
                 else priced_queue (OrderBook.asks book)))"
    if bs: "book_sorted book"
  proof (intro conjI allI impI)
    show "book_sorted book'" by (rule book_sorted_add_order [OF a bs])
    show "map snd PQ = Q" by (rule QP)
  next
    fix i j :: nat assume ij: "i < j" "j < length PQ"
    show "case s of BUY \<Rightarrow> fst (PQ ! i) \<le> fst (PQ ! j) | SELL \<Rightarrow> fst (PQ ! j) \<le> fst (PQ ! i)"
    proof (cases s)
      case BUY
      have "sorted_wrt (\<lambda>a b. fst a = fst b \<or> fst a < fst b) PQ"
        unfolding PQ_def using bs
        by (intro priced_queue_sorted) (auto simp: BUY book_sorted_def opposite_levels_def)
      from sorted_wrt_nth_less [OF this ij] BUY show ?thesis by auto
    next
      case SELL
      have "sorted_wrt (\<lambda>a b. fst a = fst b \<or> fst a > fst b) PQ"
        unfolding PQ_def using bs
        by (intro priced_queue_sorted) (auto simp: SELL book_sorted_def opposite_levels_def)
      from sorted_wrt_nth_less [OF this ij] SELL show ?thesis by auto
    qed
  next
    assume st: "status (heap m' ord) = PENDING \<or> status (heap m' ord) = PARTIAL"
    have b1: "book_sorted ?book1" using bs by (simp add: book_sorted_def)
    have b2: "book_sorted book2" by (rule book_sorted_match_order [OF mo b1])
    from idm [of ord] have sp: "Order.side (heap m2 ord) = s" "Order.price (heap m2 ord) = Order.price (heap m ord)"
      by (simp_all add: ident_def s_def)
    from level_queue_add_to_book [OF b2 sp] booked [OF st] l(2) show
      "level_queue limit (own_levels book' s) = level_queue limit (own_levels book s) @ [ord]"
      by (simp add: limit_def)
    from add_order_own(2) [OF a st bs] show "priced_queue (own_levels book' s) =
                (case s of
                   BUY \<Rightarrow> filter (\<lambda>e. limit \<le> fst e) OWN @ [(limit, ord)] @ filter (\<lambda>e. fst e < limit) OWN
                 | SELL \<Rightarrow> filter (\<lambda>e. fst e \<le> limit) OWN @ [(limit, ord)] @ filter (\<lambda>e. limit < fst e) OWN)"
      unfolding s_def limit_def OWN_def .
  next
    fix oid x assume ox: "orders book oid = Some x"
    note c = cancel_order_priced [OF ox bs, of m]
    show "book_sorted (fst (snd (OrderBook_cancel_order oid book m)))" by (rule c(1))
    show "priced_queue (OrderBook.bids (fst (snd (OrderBook_cancel_order oid book m)))) =
                (if Order.side (heap m x) = BUY
                 then filter (\<lambda>e. e \<noteq> (Order.price (heap m x), x)) (priced_queue (OrderBook.bids book))
                 else priced_queue (OrderBook.bids book))" by (rule c(2))
    show "priced_queue (OrderBook.asks (fst (snd (OrderBook_cancel_order oid book m)))) =
                (if Order.side (heap m x) = SELL
                 then filter (\<lambda>e. e \<noteq> (Order.price (heap m x), x)) (priced_queue (OrderBook.asks book))
                 else priced_queue (OrderBook.asks book))" by (rule c(3))
  qed
  have p1': "\<forall>i j. i < j \<longrightarrow> j < length Q \<longrightarrow>
           filled_quantity (heap m' (Q ! j)) \<noteq> filled_quantity (heap m (Q ! j)) \<longrightarrow>
             filled_quantity (heap m' (Q ! i)) = Order.quantity (heap m (Q ! i)) \<and>
             status (heap m' (Q ! i)) = FILLED \<and>
             Q ! i \<notin> set (opposite_queue book' s)"
    using p1 by blast
  note p5' = impI [OF p5]
  show ?thesis
    unfolding Let_def s_def [symmetric] limit_def [symmetric]
    unfolding Q_def [symmetric] PQ_def [symmetric] OWN_def [symmetric]
    by (intro conjI p1' p2 p3 p4 p4' p5')
qed

lemma demo_fifo_result:
  "filled_quantity (heap (snd (snd (add_order 5 demo_fifo_book demo_fifo_mem))) 2) = 100"
  "filled_quantity (heap (snd (snd (add_order 5 demo_fifo_book demo_fifo_mem))) 3) = 50"
  "filled_quantity (heap (snd (snd (add_order 5 demo_fifo_book demo_fifo_mem))) 4) = 0"
  "OrderBook.bids (fst (snd (add_order 5 demo_fifo_book demo_fifo_mem))) = [(10000, [3, 4])]"
  by (simp_all add: add_order_def match_order_def demo_fifo_book_def demo_fifo_mem_def mem0_def Order0_def
      OrderBook0_def match_loop.simps match_level.simps crosses_def execute_match_def create_fill_def
      now_def remaining_def add_filled_def set_status_def Let_def)

lemma demo_depth_cross:
  "map Fill.price (fst (add_order 5 demo_depth_book demo_depth_mem)) = [10100, 10100, 10000, 10000]"
  "map Fill.quantity (fst (add_order 5 demo_depth_book demo_depth_mem)) = [100, 100, 50, 50]"
  "map Fill.order_id (fst (add_order 5 demo_depth_book demo_depth_mem)) = [6, 1, 6, 2]"
  "filled_quantity (heap (snd (snd (add_order 5 demo_depth_book demo_depth_mem))) 3) = 50"
  "status (heap (snd (snd (add_order 5 demo_depth_book demo_depth_mem))) 3) = PARTIAL"
  "status (heap (snd (snd (add_order 5 demo_depth_book demo_depth_mem))) 5) = FILLED"
  by (simp_all add: add_order_def match_order_def demo_depth_book_def demo_depth_mem_def mem0_def Order0_def
      OrderBook0_def match_loop.simps match_level.simps crosses_def execute_match_def create_fill_def
      now_def remaining_def add_filled_def set_status_def Let_def)

lemma demo_depth_rest:
  "map Fill.price (fst (add_order 8 demo_depth_book demo_depth_mem)) = [10100, 10100]"
  "status (heap (snd (snd (add_order 8 demo_depth_book demo_depth_mem))) 8) = PARTIAL"
  "filled_quantity (heap (snd (snd (add_order 8 demo_depth_book demo_depth_mem))) 8) = 100"
  by (simp_all add: add_order_def match_order_def demo_depth_book_def demo_depth_mem_def mem0_def Order0_def
      OrderBook0_def match_loop.simps match_level.simps crosses_def execute_match_def create_fill_def
      now_def remaining_def add_filled_def set_status_def Let_def add_to_book_def)

lemma demo_depth_passives:
  "map Fill.price (passives (fst (add_order 5 demo_depth_book demo_depth_mem))) = [10100, 10000]"
  by (simp add: add_order_def match_order_def demo_depth_book_def demo_depth_mem_def mem0_def Order0_def
      OrderBook0_def match_loop.simps match_level.simps crosses_def execute_match_def create_fill_def
      now_def remaining_def add_filled_def set_status_def Let_def)

lemma demo_depth_queues:
  "Order.side (heap demo_depth_mem 5) = SELL" "Order.side (heap demo_depth_mem 8) = SELL"
  "Order.price (heap demo_depth_mem 5) = 10000" "Order.price (heap demo_depth_mem 8) = 10050"
  "Order.quantity (heap demo_depth_mem 8) = 250"
  "opposite_queue demo_depth_book SELL = [2, 3, 4]"
  "priced_queue (opposite_levels demo_depth_book SELL) = [(10100, 2), (10000, 3), (10000, 4)]"
  "priced_queue (own_levels demo_depth_book SELL) = [(10150, 6), (10200, 7)]"
  "book_sorted demo_depth_book"
  by (simp_all add: demo_depth_mem_def demo_depth_book_def mem0_def Order0_def OrderBook0_def
      opposite_queue_def opposite_levels_def own_levels_def priced_queue_def book_sorted_def)

text \<open>
  Four instances. Three bids at one price and a SELL of 150: the second bid gets 50
  only after the first is filled, the third gets nothing. Two bid levels and a SELL of
  150 with limit 10000: the bid at 10100 is filled first, at 10100, then 50 of the first
  bid at 10000; the side left is the two bids at 10000 in their order. The same book
  and a SELL of 250 with limit 10050: it takes the bid at 10100, stops at the bid of
  10000 below its limit, and is booked in front of the asks at 10150 and 10200.
  Cancelling the first bid at 10000 leaves the bid at 10100 and the second bid at
  10000, in this order.
\<close>

theorem price_time_priority_witness:
  "opposite_queue demo_fifo_book (Order.side (heap demo_fifo_mem 5)) = [2, 3, 4] \<and>
   filled_quantity (heap (snd (snd (add_order 5 demo_fifo_book demo_fifo_mem))) 3) = 50 \<and>
   filled_quantity (heap demo_fifo_mem 3) = 0 \<and>
   filled_quantity (heap (snd (snd (add_order 5 demo_fifo_book demo_fifo_mem))) 2) = 100 \<and>
   status (heap (snd (snd (add_order 5 demo_fifo_book demo_fifo_mem))) 2) = FILLED \<and>
   filled_quantity (heap (snd (snd (add_order 5 demo_fifo_book demo_fifo_mem))) 4) = 0 \<and>
   priced_queue (opposite_levels demo_depth_book SELL) = [(10100, 2), (10000, 3), (10000, 4)] \<and>
   map Fill.price (passives (fst (add_order 5 demo_depth_book demo_depth_mem))) = [10100, 10000] \<and>
   list_all (\<lambda>f. 10000 \<le> Fill.price f) (fst (add_order 5 demo_depth_book demo_depth_mem)) \<and>
   priced_queue (OrderBook.bids (fst (snd (add_order 5 demo_depth_book demo_depth_mem)))) =
     [(10000, 3), (10000, 4)] \<and>
   status (heap (snd (snd (add_order 8 demo_depth_book demo_depth_mem))) 8) = PARTIAL \<and>
   (OrderBook.bids (fst (snd (add_order 8 demo_depth_book demo_depth_mem))) = [] \<or>
    fst (hd (OrderBook.bids (fst (snd (add_order 8 demo_depth_book demo_depth_mem))))) < 10050) \<and>
   priced_queue (OrderBook.asks (fst (snd (add_order 8 demo_depth_book demo_depth_mem)))) =
     [(10050, 8), (10150, 6), (10200, 7)] \<and>
   priced_queue (OrderBook.bids (fst (snd (OrderBook_cancel_order 2 demo_depth_book demo_depth_mem)))) =
     [(10100, 2), (10000, 4)]"
proof -
  \<comment> \<open>one level, three orders\<close>
  have q: "opposite_queue demo_fifo_book (Order.side (heap demo_fifo_mem 5)) = [2, 3, 4]"
    by (simp add: opposite_queue_def opposite_levels_def demo_fifo_book_def demo_fifo_mem_def
        mem0_def Order0_def OrderBook0_def)
  have d: "distinct (opposite_queue demo_fifo_book (Order.side (heap demo_fifo_mem 5)))"
    and o: "5 \<notin> set (opposite_queue demo_fifo_book (Order.side (heap demo_fifo_mem 5)))"
    by (simp_all add: q)
  have a: "add_order 5 demo_fifo_book demo_fifo_mem =
      (fst (add_order 5 demo_fifo_book demo_fifo_mem), fst (snd (add_order 5 demo_fifo_book demo_fifo_mem)),
       snd (snd (add_order 5 demo_fifo_book demo_fifo_mem)))"
    by simp
  have h: "filled_quantity (heap demo_fifo_mem 3) = 0" "Order.quantity (heap demo_fifo_mem 2) = 100"
    by (simp_all add: demo_fifo_mem_def mem0_def Order0_def)
  from price_time_priority [OF d o a] have
    "\<forall>i j. i < j \<longrightarrow> j < length [2::nat, 3, 4] \<longrightarrow>
        filled_quantity (heap (snd (snd (add_order 5 demo_fifo_book demo_fifo_mem))) ([2, 3, 4] ! j)) \<noteq>
        filled_quantity (heap demo_fifo_mem ([2, 3, 4] ! j)) \<longrightarrow>
        filled_quantity (heap (snd (snd (add_order 5 demo_fifo_book demo_fifo_mem))) ([2, 3, 4] ! i)) =
          Order.quantity (heap demo_fifo_mem ([2, 3, 4] ! i)) \<and>
        status (heap (snd (snd (add_order 5 demo_fifo_book demo_fifo_mem))) ([2, 3, 4] ! i)) = FILLED"
    unfolding Let_def q by blast
  from this [rule_format, of 0 1] h demo_fifo_result(1,2,3) q have w1:
    "opposite_queue demo_fifo_book (Order.side (heap demo_fifo_mem 5)) = [2, 3, 4] \<and>
     filled_quantity (heap (snd (snd (add_order 5 demo_fifo_book demo_fifo_mem))) 3) = 50 \<and>
     filled_quantity (heap demo_fifo_mem 3) = 0 \<and>
     filled_quantity (heap (snd (snd (add_order 5 demo_fifo_book demo_fifo_mem))) 2) = 100 \<and>
     status (heap (snd (snd (add_order 5 demo_fifo_book demo_fifo_mem))) 2) = FILLED \<and>
     filled_quantity (heap (snd (snd (add_order 5 demo_fifo_book demo_fifo_mem))) 4) = 0"
    by simp
  \<comment> \<open>two levels, the incoming order filled\<close>
  let ?fs = "fst (add_order 5 demo_depth_book demo_depth_mem)"
  let ?b = "fst (snd (add_order 5 demo_depth_book demo_depth_mem))"
  let ?m = "snd (snd (add_order 5 demo_depth_book demo_depth_mem))"
  note dq = demo_depth_queues
  have d5: "distinct (opposite_queue demo_depth_book (Order.side (heap demo_depth_mem 5)))"
    and o5: "5 \<notin> set (opposite_queue demo_depth_book (Order.side (heap demo_depth_mem 5)))"
    by (simp_all add: dq)
  have a5: "add_order 5 demo_depth_book demo_depth_mem = (?fs, ?b, ?m)" by simp
  let ?PQ = "[(10100::int, 2::nat), (10000, 3), (10000, 4)]"
  let ?Q = "[2::nat, 3, 4]"
  note t5 = price_time_priority [OF d5 o5 a5, unfolded Let_def dq]
  note t5_2 = t5 [THEN conjunct2, THEN conjunct1]
  note t5_3 = t5 [THEN conjunct2, THEN conjunct2, THEN conjunct1]
  from t5_2 obtain n k where body:
    "n \<le> k \<and> k \<le> Suc n \<and> k \<le> length ?PQ \<and>
     priced_queue (opposite_levels ?b SELL) = drop n ?PQ \<and>
     opposite_queue ?b SELL = drop n ?Q \<and>
     map fill_party (passives ?fs) = map (\<lambda>x. party (heap demo_depth_mem x)) (take k ?Q) \<and>
     map Fill.price (passives ?fs) = map fst (take k ?PQ) \<and>
     (\<forall>i < n. filled_quantity (heap ?m (?Q ! i)) = Order.quantity (heap demo_depth_mem (?Q ! i)) \<and>
               status (heap ?m (?Q ! i)) = FILLED) \<and>
     (\<forall>j. n < j \<longrightarrow> j < length ?Q \<longrightarrow> heap ?m (?Q ! j) = heap demo_depth_mem (?Q ! j))"
    by (elim exE) (rule that)
  from body have nk: "n \<le> k" "k \<le> Suc n"
    and left: "priced_queue (opposite_levels ?b SELL) = drop n ?PQ"
    and pk: "map Fill.price (passives ?fs) = map fst (take k ?PQ)"
    and st: "\<forall>i < n. filled_quantity (heap ?m (?Q ! i)) = Order.quantity (heap demo_depth_mem (?Q ! i)) \<and>
                     status (heap ?m (?Q ! i)) = FILLED"
    by blast+
  from arg_cong [OF pk, of length] have k: "k = 2" by (simp add: demo_depth_passives)
  have "\<not> 1 < n"
  proof
    assume "1 < n"
    with st have "status (heap ?m (?Q ! 1)) = FILLED" by blast
    then show False by (simp add: demo_depth_cross)
  qed
  with nk k have n: "n = 1" by simp
  from left have w2: "priced_queue (OrderBook.bids ?b) = [(10000, 3), (10000, 4)]"
    by (simp add: n opposite_levels_def)
  from t5_3 have w3: "list_all (\<lambda>f. 10000 \<le> Fill.price f) ?fs" by (simp add: list_all_iff)
  \<comment> \<open>two levels, the incoming order booked\<close>
  let ?fs8 = "fst (add_order 8 demo_depth_book demo_depth_mem)"
  let ?b8 = "fst (snd (add_order 8 demo_depth_book demo_depth_mem))"
  let ?m8 = "snd (snd (add_order 8 demo_depth_book demo_depth_mem))"
  have d8: "distinct (opposite_queue demo_depth_book (Order.side (heap demo_depth_mem 8)))"
    and o8: "8 \<notin> set (opposite_queue demo_depth_book (Order.side (heap demo_depth_mem 8)))"
    by (simp_all add: dq)
  have a8: "add_order 8 demo_depth_book demo_depth_mem = (?fs8, ?b8, ?m8)" by simp
  note t8 = price_time_priority [OF d8 o8 a8, unfolded Let_def dq]
  note t8_4 = t8 [THEN conjunct2, THEN conjunct2, THEN conjunct2, THEN conjunct1]
  note t8_5 = t8 [THEN conjunct2, THEN conjunct2, THEN conjunct2, THEN conjunct2, THEN conjunct2]
  note t8_6 = t8_5 [THEN mp, OF dq(9), THEN conjunct2, THEN conjunct2, THEN conjunct2, THEN conjunct1]
  have q8: "Order.quantity (heap ?m8 8) = 250"
    by (simp add: add_order_def match_order_def demo_depth_book_def demo_depth_mem_def mem0_def Order0_def
      OrderBook0_def match_loop.simps match_level.simps crosses_def execute_match_def create_fill_def
      now_def remaining_def add_filled_def set_status_def Let_def add_to_book_def)
  from t8_4 have "status (heap ?m8 8) = REJECTED
         \<or> \<not> filled_quantity (heap ?m8 8) < Order.quantity (heap ?m8 8)
         \<or> opposite_levels ?b8 SELL = []
         \<or> fst (hd (opposite_levels ?b8 SELL)) < 10050"
    by simp
  then have w4: "OrderBook.bids ?b8 = [] \<or> fst (hd (OrderBook.bids ?b8)) < 10050"
    by (simp add: demo_depth_rest q8 opposite_levels_def)
  from t8_6 have "status (heap ?m8 8) = PENDING \<or> status (heap ?m8 8) = PARTIAL \<longrightarrow>
      priced_queue (own_levels ?b8 SELL) =
        filter (\<lambda>e. fst e \<le> 10050) [(10150, 6), (10200, 7)] @ [(10050, 8)] @
        filter (\<lambda>e. 10050 < fst e) [(10150, 6), (10200, 7)]"
    by simp
  then have w5: "priced_queue (OrderBook.asks ?b8) = [(10050, 8), (10150, 6), (10200, 7)]"
    by (simp add: demo_depth_rest own_levels_def)
  \<comment> \<open>cancelling the first bid at 10000\<close>
  note t8_7 = t8_5 [THEN mp, OF dq(9), THEN conjunct2, THEN conjunct2, THEN conjunct2, THEN conjunct2]
  have c: "orders demo_depth_book 2 = Some 3" "Order.side (heap demo_depth_mem 3) = BUY"
    "Order.price (heap demo_depth_mem 3) = 10000"
    "priced_queue (OrderBook.bids demo_depth_book) = [(10100, 2), (10000, 3), (10000, 4)]"
    by (simp_all add: demo_depth_book_def demo_depth_mem_def mem0_def Order0_def OrderBook0_def
        priced_queue_def)
  from t8_7 [rule_format, OF c(1)]
  have w6: "priced_queue (OrderBook.bids (fst (snd (OrderBook_cancel_order 2 demo_depth_book demo_depth_mem)))) =
      [(10100, 2), (10000, 4)]"
    by (simp add: c)
  from w1 w2 w3 w4 w5 w6 dq(7) demo_depth_passives demo_depth_rest(2) show ?thesis
    by (intro conjI) simp_all
qed

section \<open>Settlement and the halt flag\<close>

lemma place_order_instruments:
  "place_order request book e = (result, e') \<Longrightarrow> instruments e' = instruments e"
  by (auto simp: place_order_def Let_def split: prod.splits if_splits)

lemma submit_order_instruments:
  "submit_order request e = Some (result, e') \<Longrightarrow> instruments e' = instruments e"
  by (auto simp: submit_order_def reject_def place_order_instruments split: option.splits if_splits)

lemma replace_order_instruments:
  assumes "replace_order oid user new_price new_qty e = Some (r, e')"
  shows "instruments e' = instruments e"
proof (cases "active_orders e oid")
  case None
  with assms show ?thesis by (simp add: replace_order_def)
next
  case (Some old_order)
  show ?thesis
  proof (cases "Order.user_id (heap (memory e) old_order) \<noteq> user")
    case True
    with assms Some show ?thesis by (simp add: replace_order_def)
  next
    case False
    then have u: "Order.user_id (heap (memory e) old_order) = user" by simp
    show ?thesis
    proof (cases "cancel_order oid user e")
      case None
      with assms Some u show ?thesis by (simp add: replace_order_def)
    next
      case co: (Some p)
      obtain cancelled e1 where p: "p = (cancelled, e1)" by (cases p)
      note k = cancel_order_keeps [OF co [unfolded p]]
      show ?thesis
      proof (cases cancelled)
        case False
        with assms Some u co p k show ?thesis by (simp add: replace_order_def)
      next
        case True
        with assms Some u co p obtain request result where
          "submit_order request e1 = Some (result, e')"
          by (auto simp: replace_order_def Let_def split: option.splits)
        from submit_order_instruments [OF this] k show ?thesis by simp
      qed
    qed
  qed
qed

lemma cancel_each_instruments:
  "cancel_each ids user e = Some e' \<Longrightarrow> instruments e' = instruments e"
proof (induction ids arbitrary: e)
  case Nil
  then show ?case by simp
next
  case (Cons oid ids)
  from Cons.prems obtain r e1 where co: "cancel_order oid user e = Some (r, e1)"
    and ce: "cancel_each ids user e1 = Some e'"
    by (auto split: option.splits)
  from Cons.IH [OF ce] cancel_order_keeps [OF co] show ?case by simp
qed

lemma cancel_all_instruments:
  "cancel_all user e = Some (r, e') \<Longrightarrow> instruments e' = instruments e"
  by (auto simp: cancel_all_def cancel_each_instruments split: option.splits)

lemma get_snapshot_instruments: "instruments (snd (get_snapshot i e)) = instruments e"
  by (simp add: get_snapshot_def split: option.splits prod.splits)

lemma apply_op_halted:
  assumes "apply_op op e = Some e'" and "op \<noteq> HaltInstrument i False"
    and "map_option is_halted (instruments e i) = Some True"
  shows "map_option is_halted (instruments e' i) = Some True"
proof (cases op)
  case (AddInstrument spec)
  with assms show ?thesis by (auto simp: add_instrument_def)
next
  case (HaltInstrument j halted)
  with assms show ?thesis by (cases halted) (auto simp: halt_instrument_def split: option.splits)
next
  case (SubmitOrder request)
  with assms show ?thesis by (auto dest: submit_order_instruments)
next
  case (CancelOrder oid user)
  with assms show ?thesis by (auto dest: cancel_order_keeps)
next
  case (ReplaceOrder oid user new_price new_qty)
  with assms show ?thesis by (auto dest: replace_order_instruments)
next
  case (CancelAll user)
  with assms show ?thesis by (auto dest: cancel_all_instruments)
next
  case (SettleInstrument j v)
  with assms show ?thesis by (auto simp: settle_instrument_def split: option.splits)
next
  case (SetRiskLimits user limits)
  with assms show ?thesis by (auto simp: set_risk_limits_def)
next
  case (GetSnapshot j)
  with assms show ?thesis by (auto simp: get_snapshot_instruments)
qed

lemma run_halted:
  "run ops e = Some e' \<Longrightarrow> HaltInstrument i False \<notin> set ops \<Longrightarrow>
   map_option is_halted (instruments e i) = Some True \<Longrightarrow>
   map_option is_halted (instruments e' i) = Some True"
proof (induction ops arbitrary: e)
  case Nil
  then show ?case by simp
next
  case (Cons op ops)
  from Cons.prems(1) obtain e1 where a: "apply_op op e = Some e1" and r: "run ops e1 = Some e'"
    by (auto split: option.splits)
  from Cons.prems(2) have ne: "op \<noteq> HaltInstrument i False" "HaltInstrument i False \<notin> set ops" by auto
  from apply_op_halted [OF a ne(1) Cons.prems(3)] have "map_option is_halted (instruments e1 i) = Some True" .
  from Cons.IH [OF r ne(2) this] show ?case .
qed

text \<open>
  Claim C5, as the code has it. For a registered instrument \<open>i\<close>, \<open>settle_instrument i v\<close>
  returns true; every position in \<open>i\<close> with non-zero \<open>net_qty\<close> gets payoff minus cost basis
  added to \<open>realized_pnl\<close> (payoff \<open>(v/100) * net_qty * tick_value\<close> for SCALAR,
  \<open>max(0, (v - strike)/100) * net_qty * tick_value\<close> for CALL,
  \<open>max(0, (strike - v)/100) * net_qty * tick_value\<close> for PUT; cost basis
  \<open>(vwap/100) * net_qty * tick_value\<close>) and its \<open>net_qty\<close>, \<open>vwap\<close> and \<open>unrealized_pnl\<close>
  reset to 0; the instrument is halted. After any further calls of the engine among
  which there is no \<open>halt_instrument(i, false)\<close>, \<open>submit_order\<close> on \<open>i\<close> is rejected with
  "Instrument is halted" and changes nothing but the reject counter. The engine keeps
  no record of the settlement itself: \<open>halt_instrument(i, false)\<close> opens the instrument
  again.
\<close>

theorem settle_instrument_payoff:
  assumes "instruments e i = Some inst"
  shows "fst (settle_instrument i v e) = True \<and>
    (\<forall>user. net_qty (position_of e user i) \<noteq> 0 \<longrightarrow>
       position_of (snd (settle_instrument i v e)) user i =
         (position_of e user i)\<lparr>
            realized_pnl := realized_pnl (position_of e user i) +
              ((case type inst of
                  SCALAR \<Rightarrow> (real_of_int v / 100) * real_of_int (net_qty (position_of e user i)) * tick_value inst
                | CALL \<Rightarrow> max 0 (real_of_int (v - strike inst) / 100)
                            * real_of_int (net_qty (position_of e user i)) * tick_value inst
                | PUT \<Rightarrow> max 0 (real_of_int (strike inst - v) / 100)
                            * real_of_int (net_qty (position_of e user i)) * tick_value inst)
               - (real_of_int (vwap (position_of e user i)) / 100)
                   * real_of_int (net_qty (position_of e user i)) * tick_value inst),
            unrealized_pnl := 0, net_qty := 0, vwap := 0 \<rparr>) \<and>
    map_option is_halted (instruments (snd (settle_instrument i v e)) i) = Some True \<and>
    (\<forall>ops e2 request.
       run ops (snd (settle_instrument i v e)) = Some e2 \<longrightarrow>
       HaltInstrument i False \<notin> set ops \<longrightarrow>
       OrderRequest.instrument_id request = i \<longrightarrow>
         submit_order request e2 =
           Some (\<lparr> OrderResult.order_id = 0, success = False,
                    error_message = ''Instrument is halted'', fills = [] \<rparr>,
                 e2\<lparr> stats := (stats e2)\<lparr> total_rejects := total_rejects (stats e2) + 1 \<rparr> \<rparr>))"
proof -
  have 1: "fst (settle_instrument i v e) = True"
    using assms by (simp add: settle_instrument_def)
  have 2: "instruments (snd (settle_instrument i v e)) i = Some (inst\<lparr> is_halted := True \<rparr>)"
    using assms by (simp add: settle_instrument_def)
  then have h: "map_option is_halted (instruments (snd (settle_instrument i v e)) i) = Some True"
    by simp
  have 3: "submit_order request e2 = Some (reject ''Instrument is halted'' e2)"
    if "run ops (snd (settle_instrument i v e)) = Some e2" "HaltInstrument i False \<notin> set ops"
      "OrderRequest.instrument_id request = i" for ops e2 request
  proof -
    from run_halted [OF that(1,2) h] obtain inst2 where
      "instruments e2 i = Some inst2" "is_halted inst2" by auto
    with that(3) show ?thesis by (simp add: submit_order_def)
  qed
  have 4: "\<forall>user. net_qty (position_of e user i) \<noteq> 0 \<longrightarrow>
       position_of (snd (settle_instrument i v e)) user i =
         (position_of e user i)\<lparr>
            realized_pnl := realized_pnl (position_of e user i) +
              ((case type inst of
                  SCALAR \<Rightarrow> (real_of_int v / 100) * real_of_int (net_qty (position_of e user i)) * tick_value inst
                | CALL \<Rightarrow> max 0 (real_of_int (v - strike inst) / 100)
                            * real_of_int (net_qty (position_of e user i)) * tick_value inst
                | PUT \<Rightarrow> max 0 (real_of_int (strike inst - v) / 100)
                            * real_of_int (net_qty (position_of e user i)) * tick_value inst)
               - (real_of_int (vwap (position_of e user i)) / 100)
                   * real_of_int (net_qty (position_of e user i)) * tick_value inst),
            unrealized_pnl := 0, net_qty := 0, vwap := 0 \<rparr>"
    by (simp add: position_of_settle [OF assms] settle_position_def Let_def)
  have 5: "\<forall>ops e2 request.
       run ops (snd (settle_instrument i v e)) = Some e2 \<longrightarrow>
       HaltInstrument i False \<notin> set ops \<longrightarrow>
       OrderRequest.instrument_id request = i \<longrightarrow>
         submit_order request e2 =
           Some (\<lparr> OrderResult.order_id = 0, success = False,
                    error_message = ''Instrument is halted'', fills = [] \<rparr>,
                 e2\<lparr> stats := (stats e2)\<lparr> total_rejects := total_rejects (stats e2) + 1 \<rparr> \<rparr>)"
    using 3 by (simp add: reject_def)
  from 1 4 h 5 show ?thesis by (intro conjI)
qed

lemma demo_settled_run:
  "run [HaltInstrument 2 True, SubmitOrder (demo_request 3 2 SELL 700 5), SettleInstrument 2 11000,
        AddInstrument (demo_spec 2 SCALAR 0), HaltInstrument 1 False]
     (snd (settle_instrument 2 12000 (demo_engine 2 CALL 10000 10 500))) \<noteq> None"
  by (simp add: settle_instrument_def demo_engine_def Engine0_def halt_instrument_def submit_order_def
      reject_def demo_request_def add_instrument_def demo_spec_def)

theorem settle_instrument_payoff_witness:
  "instruments (demo_engine 2 CALL 10000 10 500) 2 = Some (demo_spec 2 CALL 10000) \<and>
   net_qty (position_of (demo_engine 2 CALL 10000 10 500) 1 2) = 10 \<and>
   fst (settle_instrument 2 12000 (demo_engine 2 CALL 10000 10 500)) = True \<and>
   position_of (snd (settle_instrument 2 12000 (demo_engine 2 CALL 10000 10 500))) 1 2 =
     \<lparr> Position.instrument_id = 2, net_qty = 0, vwap = 0, realized_pnl = 150, unrealized_pnl = 0 \<rparr> \<and>
   run [HaltInstrument 2 True, SubmitOrder (demo_request 3 2 SELL 700 5), SettleInstrument 2 11000,
        AddInstrument (demo_spec 2 SCALAR 0), HaltInstrument 1 False]
     (snd (settle_instrument 2 12000 (demo_engine 2 CALL 10000 10 500))) \<noteq> None \<and>
   map_option (success \<circ> fst)
     (submit_order (demo_request 1 2 BUY 500 10)
        (the (run [HaltInstrument 2 True, SubmitOrder (demo_request 3 2 SELL 700 5),
                   SettleInstrument 2 11000, AddInstrument (demo_spec 2 SCALAR 0), HaltInstrument 1 False]
                (snd (settle_instrument 2 12000 (demo_engine 2 CALL 10000 10 500)))))) = Some False"
proof -
  let ?ops = "[HaltInstrument 2 True, SubmitOrder (demo_request 3 2 SELL 700 5), SettleInstrument 2 11000,
               AddInstrument (demo_spec 2 SCALAR 0), HaltInstrument 1 False]"
  let ?S = "snd (settle_instrument 2 12000 (demo_engine 2 CALL 10000 10 500))"
  have h: "instruments (demo_engine 2 CALL 10000 10 500) 2 = Some (demo_spec 2 CALL 10000)"
    by (simp add: demo_engine_def)
  have p: "position_of (demo_engine 2 CALL 10000 10 500) 1 2 = demo_position 2 10 500"
    by (simp add: demo_engine_def position_of_def Engine0_def)
  have r: "OrderRequest.instrument_id (demo_request 1 2 BUY 500 10) = 2"
    by (simp add: demo_request_def)
  from demo_settled_run have run: "run ?ops ?S = Some (the (run ?ops ?S))" by simp
  have n: "HaltInstrument 2 False \<notin> set ?ops" by simp
  note t = settle_instrument_payoff [OF h, of 12000]
  from t have a: "fst (settle_instrument 2 12000 (demo_engine 2 CALL 10000 10 500)) = True" by blast
  from t have "\<forall>user. net_qty (position_of (demo_engine 2 CALL 10000 10 500) user 2) \<noteq> 0 \<longrightarrow>
       position_of ?S user 2 =
         (position_of (demo_engine 2 CALL 10000 10 500) user 2)\<lparr>
            realized_pnl := realized_pnl (position_of (demo_engine 2 CALL 10000 10 500) user 2) +
              ((case type (demo_spec 2 CALL 10000) of
                  SCALAR \<Rightarrow> (real_of_int 12000 / 100) * real_of_int (net_qty (position_of (demo_engine 2 CALL 10000 10 500) user 2)) * tick_value (demo_spec 2 CALL 10000)
                | CALL \<Rightarrow> max 0 (real_of_int (12000 - strike (demo_spec 2 CALL 10000)) / 100)
                            * real_of_int (net_qty (position_of (demo_engine 2 CALL 10000 10 500) user 2)) * tick_value (demo_spec 2 CALL 10000)
                | PUT \<Rightarrow> max 0 (real_of_int (strike (demo_spec 2 CALL 10000) - 12000) / 100)
                            * real_of_int (net_qty (position_of (demo_engine 2 CALL 10000 10 500) user 2)) * tick_value (demo_spec 2 CALL 10000))
               - (real_of_int (vwap (position_of (demo_engine 2 CALL 10000 10 500) user 2)) / 100)
                   * real_of_int (net_qty (position_of (demo_engine 2 CALL 10000 10 500) user 2)) * tick_value (demo_spec 2 CALL 10000)),
            unrealized_pnl := 0, net_qty := 0, vwap := 0 \<rparr>"
    by blast
  from this [rule_format, of 1] have b: "position_of ?S 1 2 =
     \<lparr> Position.instrument_id = 2, net_qty = 0, vwap = 0, realized_pnl = 150, unrealized_pnl = 0 \<rparr>"
    unfolding p by (simp add: demo_position_def demo_spec_def)
  from t have "\<forall>ops e2 request.
       run ops ?S = Some e2 \<longrightarrow> HaltInstrument 2 False \<notin> set ops \<longrightarrow>
       OrderRequest.instrument_id request = 2 \<longrightarrow>
         submit_order request e2 =
           Some (\<lparr> OrderResult.order_id = 0, success = False,
                    error_message = ''Instrument is halted'', fills = [] \<rparr>,
                 e2\<lparr> stats := (stats e2)\<lparr> total_rejects := total_rejects (stats e2) + 1 \<rparr> \<rparr>)"
    by blast
  from this [rule_format, OF run n r]
  have c: "map_option (success \<circ> fst) (submit_order (demo_request 1 2 BUY 500 10) (the (run ?ops ?S))) = Some False"
    by simp
  from h p a b c demo_settled_run show ?thesis by (simp add: demo_position_def)
qed

text \<open>
  The claim as stated has every later \<open>submit_order\<close> rejected. After settlement,
  \<open>halt_instrument(2, false)\<close> clears the flag, and the next order on the settled
  instrument is accepted: it gets order id 1, has no fills and rests in the book.
\<close>

theorem settled_instrument_reopens:
  "map_option (\<lambda>(result, e). (success result, OrderResult.order_id result, fills result,
        map_option OrderBook.bids (order_books e 2)))
     (Option.bind
        (run [SettleInstrument 2 12000, HaltInstrument 2 False] (demo_engine 2 CALL 10000 10 500))
        (submit_order (demo_request 1 2 BUY 500 10)))
   = Some (True, 1, [], Some [(500, [0])])"
  by (simp add: settle_instrument_def demo_engine_def Engine0_def halt_instrument_def submit_order_def
      demo_request_def demo_spec_def check_risk_def place_order_def now_def mem0_def Let_def
      add_order_def match_order_def match_loop.simps OrderBook0_def add_to_book_def set_status_def
      Order0_def)

section \<open>Invariants of the engine over runs\<close>

lemma engine_wf_book:
  assumes "engine_wf e" and "order_books e i = Some book"
  shows "book_wf (memory e) book" and "OrderBook.instrument_id book = i"
    and "\<And>x. x \<in> set (concat (map snd (OrderBook.bids book))) \<Longrightarrow> x < brk (memory e)"
    and "\<And>x. x \<in> set (concat (map snd (OrderBook.asks book))) \<Longrightarrow> x < brk (memory e)"
proof -
  from assms show w: "book_wf (memory e) book" and "OrderBook.instrument_id book = i"
    unfolding engine_wf_def by blast+
  from w show "\<And>x. x \<in> set (concat (map snd (OrderBook.bids book))) \<Longrightarrow> x < brk (memory e)"
    and "\<And>x. x \<in> set (concat (map snd (OrderBook.asks book))) \<Longrightarrow> x < brk (memory e)"
    unfolding book_wf_def by blast+
qed

lemma engine_wf_active:
  assumes "engine_wf e" and "active_orders e oid = Some a"
  shows "a < brk (memory e)"
    and "order_books e (Order.instrument_id (heap (memory e) a)) \<noteq> None"
  using assms unfolding engine_wf_def by blast+

lemma engine_wf_dom:
  assumes "engine_wf e"
  shows "(instruments e i = None) = (order_books e i = None)"
  using assms unfolding engine_wf_def by blast

lemma engine_wfI:
  assumes "\<And>i. (instruments e i = None) = (order_books e i = None)"
    and "\<And>i book. order_books e i = Some book \<Longrightarrow> OrderBook.instrument_id book = i"
    and "\<And>i book. order_books e i = Some book \<Longrightarrow> book_wf (memory e) book"
    and "\<And>oid a. active_orders e oid = Some a \<Longrightarrow> a < brk (memory e)"
    and "\<And>oid a. active_orders e oid = Some a \<Longrightarrow>
           order_books e (Order.instrument_id (heap (memory e) a)) \<noteq> None"
  shows "engine_wf e"
  unfolding engine_wf_def using assms by blast

lemma placedD:
  assumes "placed request book e e' fs book'"
  shows "positions e' = fold ledger_fill fs (positions e)"
    and "fill_history e' = fill_history e @ fs"
    and "instruments e' = instruments e"
    and "order_books e' = (order_books e)(OrderRequest.instrument_id request \<mapsto> book')"
    and "trade_pairs (OrderRequest.instrument_id request) fs"
    and "\<forall>f \<in> set fs. Fill.price f \<in> book_prices book"
    and "book_prices book' \<subseteq> insert (OrderRequest.price request) (book_prices book)"
    and "brk (memory e') = Suc (brk (memory e))"
    and "\<And>x. x < brk (memory e) \<Longrightarrow> ident (heap (memory e') x) = ident (heap (memory e) x)"
    and "Order.price (heap (memory e') (brk (memory e))) = OrderRequest.price request"
    and "Order.instrument_id (heap (memory e') (brk (memory e))) = OrderRequest.instrument_id request"
    and "active_orders e' = active_orders e \<or>
         active_orders e' = (active_orders e)(next_order_id e \<mapsto> brk (memory e))"
    and "book_wf (memory e') book'"
    and "OrderBook.instrument_id book' = OrderRequest.instrument_id request"
  using assms unfolding placed_def by blast+

lemma place_order_step:
  assumes wf: "engine_wf e" and bk: "order_books e (OrderRequest.instrument_id request) = Some book"
    and po: "place_order request book e = (result, e')"
  shows "\<exists>fs book'. placed request book e e' fs book'"
proof -
  let ?m = "memory e" and ?ord = "brk (memory e)"
  let ?m2 = "new_order_mem request (next_order_id e) (memory e)"
  obtain fs book' m' where ao: "add_order ?ord book ?m2 = (fs, book', m')"
    by (metis prod_cases3)
  note pf = place_order_fields [OF po ao]
  note nf = new_order_mem_facts [where request = request and oid = "next_order_id e" and m = ?m]
  note bw = engine_wf_book [OF wf bk]
  have id2: "ident (heap ?m2 x) = ident (heap ?m x)" if "x < brk ?m" for x
    using that nf(2) [of x] by simp
  have w2: "book_wf ?m2 book"
    by (rule book_wf_transfer [OF bw(1)]) (simp_all add: nf(1) id2)
  have lt: "?ord < brk ?m2" by (simp add: nf(1))
  have fresh: "?ord \<notin> set (concat (map snd (OrderBook.bids book)))"
    "?ord \<notin> set (concat (map snd (OrderBook.asks book)))"
    using bw(3,4) [of ?ord] by blast+
  note aw = add_order_wf [OF ao w2 lt fresh]
  note at = add_order_trades [OF ao w2]
  note ap = add_order_prices [OF ao w2 lt fresh]
  have idn: "ident (heap m' ?ord) = ident (heap ?m2 ?ord)" by (rule aw(3))
  have h1: "positions e' = fold ledger_fill fs (positions e)" by (rule pf(2))
  have h2: "fill_history e' = fill_history e @ fs" by (rule pf(3))
  have h3: "instruments e' = instruments e" by (rule pf(4))
  have h4: "order_books e' = (order_books e)(OrderRequest.instrument_id request \<mapsto> book')" by (rule pf(5))
  have h5: "trade_pairs (OrderRequest.instrument_id request) fs" using at(1) bw(2) by simp
  have h6: "\<forall>f \<in> set fs. Fill.price f \<in> book_prices book" by (rule at(2))
  have h7: "book_prices book' \<subseteq> insert (OrderRequest.price request) (book_prices book)"
    using ap by (simp add: nf(3))
  have h8: "brk (memory e') = Suc (brk (memory e))" by (simp add: pf(6) aw(2) nf(1))
  have h9: "\<forall>x. x < brk (memory e) \<longrightarrow> ident (heap (memory e') x) = ident (heap (memory e) x)"
    using aw(3) id2 by (simp add: pf(6))
  have h10: "Order.price (heap (memory e') (brk (memory e))) = OrderRequest.price request"
    using ident_eqD(5) [OF idn] by (simp add: pf(6) nf(3))
  have h11: "Order.instrument_id (heap (memory e') (brk (memory e))) = OrderRequest.instrument_id request"
    using ident_eqD(3) [OF idn] by (simp add: pf(6) nf(4))
  have h12: "active_orders e' = active_orders e \<or>
       active_orders e' = (active_orders e)(next_order_id e \<mapsto> brk (memory e))" by (rule pf(8))
  have h13: "book_wf (memory e') book'" by (simp add: pf(6) aw(1))
  have h14: "OrderBook.instrument_id book' = OrderRequest.instrument_id request"
    by (simp add: aw(4) bw(2))
  have "placed request book e e' fs book'"
    unfolding placed_def by (intro conjI h1 h2 h3 h4 h5 h6 h7 h8 h9 h10 h11 h12 h13 h14)
  then show ?thesis by blast
qed

lemma place_order_wf:
  assumes wf: "engine_wf e" and bk: "order_books e (OrderRequest.instrument_id request) = Some book"
    and po: "place_order request book e = (result, e')"
  shows "engine_wf e'"
proof -
  from place_order_step [OF wf bk po] obtain fs book' where pl: "placed request book e e' fs book'"
    by blast
  note full = placedD [OF pl]
  note s = full(3,4,8,9,11,12,13,14)
  show ?thesis
  proof (rule engine_wfI)
    fix i
    show "(instruments e' i = None) = (order_books e' i = None)"
      using engine_wf_dom [OF wf, of i] bk by (auto simp: s(1,2))
  next
    fix i b assume b: "order_books e' i = Some b"
    show "OrderBook.instrument_id b = i"
      using b s(8) engine_wf_book(2) [OF wf, of i b] by (auto simp: s(2) split: if_splits)
    show "book_wf (memory e') b"
    proof (cases "i = OrderRequest.instrument_id request")
      case True
      with b s(7) show ?thesis by (simp add: s(2))
    next
      case False
      with b have "order_books e i = Some b" by (simp add: s(2))
      from engine_wf_book(1) [OF wf this] show ?thesis
        by (rule book_wf_transfer) (simp_all add: s(3,4))
    qed
  next
    fix oid a assume a: "active_orders e' oid = Some a"
    have c: "active_orders e oid = Some a \<or> a = brk (memory e)"
    proof (rule disjE [OF s(6)])
      assume "active_orders e' = active_orders e"
      with a show ?thesis by simp
    next
      assume "active_orders e' = (active_orders e)(next_order_id e \<mapsto> brk (memory e))"
      with a show ?thesis by (cases "oid = next_order_id e") simp_all
    qed
    show "a < brk (memory e')"
    proof (rule disjE [OF c])
      assume "active_orders e oid = Some a"
      from engine_wf_active(1) [OF wf this] show ?thesis by (simp add: s(3))
    next
      assume "a = brk (memory e)"
      then show ?thesis by (simp add: s(3))
    qed
    show "order_books e' (Order.instrument_id (heap (memory e') a)) \<noteq> None"
    proof (rule disjE [OF c])
      assume 1: "active_orders e oid = Some a"
      note ea = engine_wf_active [OF wf 1]
      from ident_eqD(3) [OF s(4) [OF ea(1)]] ea(2) show ?thesis by (simp add: s(2))
    next
      assume 2: "a = brk (memory e)"
      show ?thesis by (simp add: 2 s(5) s(2))
    qed
  qed
qed

lemma engine_wf_stats [simp]: "engine_wf (e\<lparr> stats := x \<rparr>) = engine_wf e"
  by (simp add: engine_wf_def)

lemma engine_wf_Engine0: "engine_wf (Engine0 m)"
  by (simp add: engine_wf_def Engine0_def)

lemma book_prices_cancel:
  assumes "OrderBook_cancel_order oid book m = (r, book', m')" and "book_wf m book"
  shows "book_prices book' \<subseteq> book_prices book"
  using OrderBook_cancel_order_wf(5,6) [OF assms] unfolding book_prices_def by blast

lemma cancel_order_step:
  assumes wf: "engine_wf e" and co: "cancel_order oid user e = Some (r, e')"
  shows "engine_wf e'"
    and "positions e' = positions e" and "instruments e' = instruments e"
    and "fill_history e' = fill_history e"
    and "brk (memory e') = brk (memory e)"
    and "\<And>x. ident (heap (memory e') x) = ident (heap (memory e) x)"
    and "\<And>o' a. active_orders e' o' = Some a \<Longrightarrow> active_orders e o' = Some a"
    and "\<And>j b'. order_books e' j = Some b' \<Longrightarrow>
           \<exists>b. order_books e j = Some b \<and> book_prices b' \<subseteq> book_prices b"
proof -
  show k: "positions e' = positions e" "instruments e' = instruments e"
    using cancel_order_keeps [OF co] by simp_all
  show fh: "fill_history e' = fill_history e"
    using co by (auto simp: cancel_order_def Let_def split: option.splits prod.splits if_splits)
  have cs: "e' = e \<or> (\<exists>ord book c book' m'. active_orders e oid = Some ord \<and>
        order_books e (Order.instrument_id (heap (memory e) ord)) = Some book \<and>
        OrderBook_cancel_order oid book (memory e) = (c, book', m') \<and>
        order_books e' = (order_books e)(Order.instrument_id (heap (memory e) ord) \<mapsto> book') \<and>
        memory e' = m' \<and>
        (active_orders e' = active_orders e \<or> active_orders e' = (active_orders e)(oid := None)))"
  proof (cases "active_orders e oid")
    case None
    with co show ?thesis by (simp add: cancel_order_def)
  next
    case (Some ord)
    show ?thesis
    proof (cases "Order.user_id (heap (memory e) ord) \<noteq> user")
      case True
      with co Some show ?thesis by (simp add: cancel_order_def)
    next
      case False
      then have u: "Order.user_id (heap (memory e) ord) = user" by simp
      show ?thesis
      proof (cases "order_books e (Order.instrument_id (heap (memory e) ord))")
        case None
        with co Some u show ?thesis by (simp add: cancel_order_def)
      next
        case bk: (Some book)
        obtain c book' m' where oc: "OrderBook_cancel_order oid book (memory e) = (c, book', m')"
          by (metis prod_cases3)
        have "order_books e' = (order_books e)(Order.instrument_id (heap (memory e) ord) \<mapsto> book')"
          "memory e' = m'"
          "active_orders e' = active_orders e \<or> active_orders e' = (active_orders e)(oid := None)"
          using co Some u bk oc by (cases c; simp add: cancel_order_def Let_def; fastforce)+
        with Some bk oc show ?thesis by blast
      qed
    qed
  qed
  then consider (same) "e' = e"
    | (found) ord book c book' m' where "active_orders e oid = Some ord"
        "order_books e (Order.instrument_id (heap (memory e) ord)) = Some book"
        "OrderBook_cancel_order oid book (memory e) = (c, book', m')"
        "order_books e' = (order_books e)(Order.instrument_id (heap (memory e) ord) \<mapsto> book')"
        "memory e' = m'"
        "active_orders e' = active_orders e \<or> active_orders e' = (active_orders e)(oid := None)"
    by blast
  then have "engine_wf e' \<and> brk (memory e') = brk (memory e) \<and>
    (\<forall>x. ident (heap (memory e') x) = ident (heap (memory e) x)) \<and>
    (\<forall>o' a. active_orders e' o' = Some a \<longrightarrow> active_orders e o' = Some a) \<and>
    (\<forall>j b'. order_books e' j = Some b' \<longrightarrow>
           (\<exists>b. order_books e j = Some b \<and> book_prices b' \<subseteq> book_prices b))"
  proof cases
    case same
    with wf show ?thesis by auto
  next
    case (found ord book c book' m')
    let ?i = "Order.instrument_id (heap (memory e) ord)"
    note bw = engine_wf_book [OF wf found(2)]
    note cw = OrderBook_cancel_order_wf [OF found(3) bw(1)]
    note bp = book_prices_cancel [OF found(3) bw(1)]
    have act: "active_orders e o' = Some a" if "active_orders e' o' = Some a" for o' a
      using found(6) that by (auto split: if_splits)
    have idm: "ident (heap (memory e') x) = ident (heap (memory e) x)" for x
      by (simp add: found(5) cw(3))
    have brk: "brk (memory e') = brk (memory e)" by (simp add: found(5) cw(2))
    have w: "engine_wf e'"
    proof (rule engine_wfI)
      fix i
      show "(instruments e' i = None) = (order_books e' i = None)"
        using engine_wf_dom [OF wf, of i] found(2) by (auto simp: k found(4))
    next
      fix i b assume b: "order_books e' i = Some b"
      show "OrderBook.instrument_id b = i"
        using b cw(4) bw(2) engine_wf_book(2) [OF wf, of i b] by (auto simp: found(4) split: if_splits)
      show "book_wf (memory e') b"
      proof (cases "i = ?i")
        case True
        with b cw(1) show ?thesis by (simp add: found(4,5))
      next
        case False
        with b have "order_books e i = Some b" by (simp add: found(4))
        from engine_wf_book(1) [OF wf this] show ?thesis
          by (rule book_wf_transfer) (simp_all add: brk idm)
      qed
    next
      fix o' a assume a: "active_orders e' o' = Some a"
      note ea = engine_wf_active [OF wf act [OF a]]
      show "a < brk (memory e')" using ea(1) by (simp add: brk)
      from ident_eqD(3) [OF idm [of a]] ea(2)
      show "order_books e' (Order.instrument_id (heap (memory e') a)) \<noteq> None"
        by (simp add: found(4))
    qed
    have books: "\<exists>b. order_books e j = Some b \<and> book_prices b' \<subseteq> book_prices b"
      if "order_books e' j = Some b'" for j b'
    proof (cases "j = ?i")
      case True
      with that have "b' = book'" by (simp add: found(4))
      with True found(2) bp show ?thesis by simp
    next
      case False
      with that show ?thesis by (simp add: found(4))
    qed
    from w brk idm act books show ?thesis by blast
  qed
  then show "engine_wf e'" "brk (memory e') = brk (memory e)"
    "\<And>x. ident (heap (memory e') x) = ident (heap (memory e) x)"
    "\<And>o' a. active_orders e' o' = Some a \<Longrightarrow> active_orders e o' = Some a"
    "\<And>j b'. order_books e' j = Some b' \<Longrightarrow>
           \<exists>b. order_books e j = Some b \<and> book_prices b' \<subseteq> book_prices b"
    by blast+
qed

lemma cancel_order_total:
  assumes "engine_wf e"
  shows "\<exists>r e'. cancel_order oid user e = Some (r, e')"
proof (cases "active_orders e oid")
  case None
  then show ?thesis by (auto simp: cancel_order_def)
next
  case (Some ord)
  from engine_wf_active(2) [OF assms Some] obtain book where
    "order_books e (Order.instrument_id (heap (memory e) ord)) = Some book" by auto
  with Some show ?thesis
    by (auto simp: cancel_order_def Let_def split: prod.splits)
qed

lemma submit_order_cases:
  assumes so: "submit_order request e = Some (result, e')"
  shows "(\<exists>x. e' = e\<lparr> stats := x \<rparr>) \<or>
         (\<exists>book inst. order_books e (OrderRequest.instrument_id request) = Some book \<and>
            instruments e (OrderRequest.instrument_id request) = Some inst \<and>
            place_order request book e = (result, e'))"
proof (cases "instruments e (OrderRequest.instrument_id request)")
  case None
  with so show ?thesis by (auto simp: submit_order_def reject_def)
next
  case (Some inst)
  show ?thesis
  proof (cases "is_halted inst \<or>
      \<not> check_risk (OrderRequest.user_id request) (OrderRequest.instrument_id request)
           (OrderRequest.side request) (OrderRequest.quantity request) e \<or>
      OrderRequest.quantity request \<le> 0")
    case True
    with so Some have "e' = snd (reject ''Instrument is halted'' e) \<or>
        e' = snd (reject ''Risk limit exceeded'' e) \<or> e' = snd (reject ''Invalid quantity'' e)"
      by (auto simp: submit_order_def split: if_splits)
    then show ?thesis by (auto simp: reject_def)
  next
    case False
    with so Some show ?thesis
      by (cases "order_books e (OrderRequest.instrument_id request)") (auto simp: submit_order_def)
  qed
qed

lemma submit_order_wf:
  assumes wf: "engine_wf e" and so: "submit_order request e = Some (result, e')"
  shows "engine_wf e'"
  using submit_order_cases [OF so] wf by (auto intro: place_order_wf)

lemma replace_order_cases:
  assumes ro: "replace_order oid user new_price new_qty e = Some (r, e')"
  shows "e' = e \<or> (\<exists>c. cancel_order oid user e = Some (c, e')) \<or>
         (\<exists>old e1 result. active_orders e oid = Some old \<and>
            cancel_order oid user e = Some (True, e1) \<and>
            submit_order
              \<lparr> OrderRequest.user_id = user,
                OrderRequest.instrument_id = Order.instrument_id (heap (memory e1) old),
                OrderRequest.side = Order.side (heap (memory e1) old),
                OrderRequest.price =
                  (case new_price of Some p \<Rightarrow> p | None \<Rightarrow> Order.price (heap (memory e1) old)),
                OrderRequest.quantity =
                  (case new_qty of Some q \<Rightarrow> q
                   | None \<Rightarrow> Order.quantity (heap (memory e1) old) - filled_quantity (heap (memory e1) old)),
                OrderRequest.tif = Order.tif (heap (memory e1) old),
                OrderRequest.post_only = Order.post_only (heap (memory e1) old) \<rparr> e1 = Some (result, e'))"
proof (cases "active_orders e oid")
  case None
  with ro show ?thesis by (simp add: replace_order_def)
next
  case (Some old)
  show ?thesis
  proof (cases "Order.user_id (heap (memory e) old) \<noteq> user")
    case True
    with ro Some show ?thesis by (simp add: replace_order_def)
  next
    case False
    then have u: "Order.user_id (heap (memory e) old) = user" by simp
    show ?thesis
    proof (cases "cancel_order oid user e")
      case None
      with ro Some u show ?thesis by (simp add: replace_order_def)
    next
      case co: (Some p)
      obtain cancelled e1 where p: "p = (cancelled, e1)" by (cases p)
      show ?thesis
      proof (cases cancelled)
        case False
        with ro Some u co p have "e' = e1" by (simp add: replace_order_def)
        with co p False have "cancel_order oid user e = Some (False, e')" by simp
        then show ?thesis by blast
      next
        case True
        with ro Some u co p show ?thesis
          by (simp add: replace_order_def Let_def split: option.splits prod.splits)
      qed
    qed
  qed
qed

lemma replace_order_wf:
  assumes wf: "engine_wf e" and ro: "replace_order oid user new_price new_qty e = Some (r, e')"
  shows "engine_wf e'"
  using replace_order_cases [OF ro] wf
  by (auto dest: cancel_order_step(1) submit_order_wf)

lemma cancel_each_wf:
  "engine_wf e \<Longrightarrow> cancel_each ids user e = Some e' \<Longrightarrow> engine_wf e'"
proof (induction ids arbitrary: e)
  case Nil
  then show ?case by simp
next
  case (Cons oid ids)
  from Cons.prems(2) obtain r e1 where co: "cancel_order oid user e = Some (r, e1)"
    and ce: "cancel_each ids user e1 = Some e'"
    by (auto split: option.splits)
  from Cons.IH [OF cancel_order_step(1) [OF Cons.prems(1) co] ce] show ?case .
qed

lemma cancel_all_cases:
  "cancel_all user e = Some (r, e') \<Longrightarrow> \<exists>ids. cancel_each ids user e = Some e'"
  by (cases "user_orders e user") (auto simp: cancel_all_def split: option.splits intro: exI [of _ "[]"])

lemma get_snapshot_memory:
  "brk (memory (snd (get_snapshot i e))) = brk (memory e)"
  "heap (memory (snd (get_snapshot i e))) = heap (memory e)"
  "order_books (snd (get_snapshot i e)) = order_books e"
  "active_orders (snd (get_snapshot i e)) = active_orders e"
  "positions (snd (get_snapshot i e)) = positions e"
  "fill_history (snd (get_snapshot i e)) = fill_history e"
  by (simp_all add: get_snapshot_def OrderBook_get_snapshot_def now_def split: option.splits prod.splits)

lemma get_snapshot_wf: "engine_wf e \<Longrightarrow> engine_wf (snd (get_snapshot i e))"
proof -
  assume wf: "engine_wf e"
  show ?thesis
  proof (rule engine_wfI)
    fix j
    show "(instruments (snd (get_snapshot i e)) j = None) = (order_books (snd (get_snapshot i e)) j = None)"
      using engine_wf_dom [OF wf, of j] by (simp add: get_snapshot_instruments get_snapshot_memory)
  next
    fix j b assume b: "order_books (snd (get_snapshot i e)) j = Some b"
    then have b': "order_books e j = Some b" by (simp add: get_snapshot_memory)
    show "OrderBook.instrument_id b = j" by (rule engine_wf_book(2) [OF wf b'])
    from engine_wf_book(1) [OF wf b'] show "book_wf (memory (snd (get_snapshot i e))) b"
      by (rule book_wf_transfer) (simp_all add: get_snapshot_memory)
  next
    fix oid a assume "active_orders (snd (get_snapshot i e)) oid = Some a"
    then have a: "active_orders e oid = Some a" by (simp add: get_snapshot_memory)
    note ea = engine_wf_active [OF wf a]
    show "a < brk (memory (snd (get_snapshot i e)))" using ea(1) by (simp add: get_snapshot_memory)
    show "order_books (snd (get_snapshot i e)) (Order.instrument_id (heap (memory (snd (get_snapshot i e))) a)) \<noteq> None"
      using ea(2) by (simp add: get_snapshot_memory)
  qed
qed

lemma simple_ops_wf:
  assumes "engine_wf e"
  shows "engine_wf (snd (add_instrument spec e))"
    and "engine_wf (snd (halt_instrument i halted e))"
    and "engine_wf (snd (settle_instrument i v e))"
    and "engine_wf (set_risk_limits user limits e)"
proof -
  show "engine_wf (snd (add_instrument spec e))"
  proof (cases "instruments e (InstrumentSpec.id spec)")
    case None
    then have e': "snd (add_instrument spec e) =
        e\<lparr> instruments := (instruments e)(InstrumentSpec.id spec \<mapsto> spec),
           order_books := (order_books e)(InstrumentSpec.id spec \<mapsto> OrderBook0 (InstrumentSpec.id spec)) \<rparr>"
      by (simp add: add_instrument_def)
    have w0: "book_wf m (OrderBook0 j)" for m j
      by (simp add: book_wf_def book_sorted_def OrderBook0_def)
    show ?thesis
      unfolding e'
    proof (rule engine_wfI)
      fix j
      show "(instruments (e\<lparr> instruments := (instruments e)(InstrumentSpec.id spec \<mapsto> spec),
           order_books := (order_books e)(InstrumentSpec.id spec \<mapsto> OrderBook0 (InstrumentSpec.id spec)) \<rparr>) j = None) =
         (order_books (e\<lparr> instruments := (instruments e)(InstrumentSpec.id spec \<mapsto> spec),
           order_books := (order_books e)(InstrumentSpec.id spec \<mapsto> OrderBook0 (InstrumentSpec.id spec)) \<rparr>) j = None)"
        using engine_wf_dom [OF assms, of j] by simp
    next
      fix j b assume "order_books (e\<lparr> instruments := (instruments e)(InstrumentSpec.id spec \<mapsto> spec),
           order_books := (order_books e)(InstrumentSpec.id spec \<mapsto> OrderBook0 (InstrumentSpec.id spec)) \<rparr>) j = Some b"
      then have b: "(j = InstrumentSpec.id spec \<and> b = OrderBook0 j) \<or> order_books e j = Some b"
        by (auto split: if_splits)
      from b engine_wf_book(2) [OF assms, of j b] show "OrderBook.instrument_id b = j"
        by (auto simp: OrderBook0_def)
      from b engine_wf_book(1) [OF assms, of j b] w0
      show "book_wf (memory (e\<lparr> instruments := (instruments e)(InstrumentSpec.id spec \<mapsto> spec),
           order_books := (order_books e)(InstrumentSpec.id spec \<mapsto> OrderBook0 (InstrumentSpec.id spec)) \<rparr>)) b"
        by auto
    next
      fix oid a assume "active_orders (e\<lparr> instruments := (instruments e)(InstrumentSpec.id spec \<mapsto> spec),
           order_books := (order_books e)(InstrumentSpec.id spec \<mapsto> OrderBook0 (InstrumentSpec.id spec)) \<rparr>) oid = Some a"
      then have a: "active_orders e oid = Some a" by simp
      note ea = engine_wf_active [OF assms a]
      show "a < brk (memory (e\<lparr> instruments := (instruments e)(InstrumentSpec.id spec \<mapsto> spec),
           order_books := (order_books e)(InstrumentSpec.id spec \<mapsto> OrderBook0 (InstrumentSpec.id spec)) \<rparr>))"
        using ea(1) by simp
      show "order_books (e\<lparr> instruments := (instruments e)(InstrumentSpec.id spec \<mapsto> spec),
           order_books := (order_books e)(InstrumentSpec.id spec \<mapsto> OrderBook0 (InstrumentSpec.id spec)) \<rparr>)
          (Order.instrument_id (heap (memory (e\<lparr> instruments := (instruments e)(InstrumentSpec.id spec \<mapsto> spec),
           order_books := (order_books e)(InstrumentSpec.id spec \<mapsto> OrderBook0 (InstrumentSpec.id spec)) \<rparr>)) a)) \<noteq> None"
        using ea(2) by simp
    qed
  next
    case (Some x)
    with assms show ?thesis by (simp add: add_instrument_def)
  qed
  show "engine_wf (snd (halt_instrument i halted e))"
  proof (cases "instruments e i")
    case None
    then show ?thesis using assms by (simp add: halt_instrument_def)
  next
    case (Some inst)
    then have "snd (halt_instrument i halted e) =
        e\<lparr> instruments := (instruments e)(i \<mapsto> inst\<lparr> is_halted := halted \<rparr>) \<rparr>"
      by (simp add: halt_instrument_def)
    with Some assms engine_wf_dom [OF assms, of i] show ?thesis by (auto simp: engine_wf_def)
  qed
  show "engine_wf (snd (settle_instrument i v e))"
  proof (cases "instruments e i")
    case None
    then show ?thesis using assms by (simp add: settle_instrument_def)
  next
    case (Some inst)
    then have "snd (settle_instrument i v e) =
        e\<lparr> positions := map (\<lambda>(user, user_positions).
                                      (user, settle_user inst i v user_positions)) (positions e),
           instruments := (instruments e)(i \<mapsto> inst\<lparr> is_halted := True \<rparr>) \<rparr>"
      by (simp add: settle_instrument_def)
    with Some assms engine_wf_dom [OF assms, of i] show ?thesis by (auto simp: engine_wf_def)
  qed
  show "engine_wf (set_risk_limits user limits e)"
    using assms unfolding engine_wf_def by (simp add: set_risk_limits_def)
qed

lemma apply_op_wf:
  assumes wf: "engine_wf e" and ap: "apply_op op e = Some e'"
  shows "engine_wf e'"
proof (cases op)
  case (AddInstrument spec)
  with ap simple_ops_wf(1) [OF wf] show ?thesis by auto
next
  case (HaltInstrument i halted)
  with ap simple_ops_wf(2) [OF wf] show ?thesis by auto
next
  case (SubmitOrder request)
  with ap wf show ?thesis by (auto dest: submit_order_wf)
next
  case (CancelOrder oid user)
  with ap wf show ?thesis by (auto dest: cancel_order_step(1))
next
  case (ReplaceOrder oid user new_price new_qty)
  with ap wf show ?thesis by (auto dest: replace_order_wf)
next
  case (CancelAll user)
  with ap obtain r where "cancel_all user e = Some (r, e')" by auto
  from cancel_all_cases [OF this] wf show ?thesis by (auto dest: cancel_each_wf)
next
  case (SettleInstrument i v)
  with ap simple_ops_wf(3) [OF wf] show ?thesis by auto
next
  case (SetRiskLimits user limits)
  with ap simple_ops_wf(4) [OF wf] show ?thesis by auto
next
  case (GetSnapshot i)
  with ap get_snapshot_wf [OF wf] show ?thesis by auto
qed

lemma run_wf: "engine_wf e \<Longrightarrow> run ops e = Some e' \<Longrightarrow> engine_wf e'"
proof (induction ops arbitrary: e)
  case Nil
  then show ?case by simp
next
  case (Cons op ops)
  from Cons.prems(2) obtain e1 where a: "apply_op op e = Some e1" and r: "run ops e1 = Some e'"
    by (auto split: option.splits)
  from Cons.IH [OF apply_op_wf [OF Cons.prems(1) a] r] show ?case .
qed

lemma submit_order_total_wf:
  assumes "engine_wf e"
  shows "\<exists>result e'. submit_order request e = Some (result, e')"
  by (rule submit_order_total) (use engine_wf_dom [OF assms] in auto)

lemma replace_order_total:
  assumes wf: "engine_wf e"
  shows "\<exists>r e'. replace_order oid user new_price new_qty e = Some (r, e')"
proof (cases "active_orders e oid")
  case None
  then show ?thesis by (auto simp: replace_order_def)
next
  case (Some old)
  from cancel_order_total [OF wf, of oid user] obtain c e1 where
    co: "cancel_order oid user e = Some (c, e1)" by blast
  note w1 = cancel_order_step(1) [OF wf co]
  show ?thesis
  proof (cases "Order.user_id (heap (memory e) old) \<noteq> user \<or> \<not> c")
    case True
    with Some co show ?thesis by (auto simp: replace_order_def)
  next
    case False
    let ?request = "\<lparr> OrderRequest.user_id = user,
                OrderRequest.instrument_id = Order.instrument_id (heap (memory e1) old),
                OrderRequest.side = Order.side (heap (memory e1) old),
                OrderRequest.price =
                  (case new_price of Some p \<Rightarrow> p | None \<Rightarrow> Order.price (heap (memory e1) old)),
                OrderRequest.quantity =
                  (case new_qty of Some q \<Rightarrow> q
                   | None \<Rightarrow> Order.quantity (heap (memory e1) old) - filled_quantity (heap (memory e1) old)),
                OrderRequest.tif = Order.tif (heap (memory e1) old),
                OrderRequest.post_only = Order.post_only (heap (memory e1) old) \<rparr>"
    from submit_order_total_wf [OF w1, of ?request] obtain result e2 where
      "submit_order ?request e1 = Some (result, e2)" by blast
    with False Some co show ?thesis by (auto simp: replace_order_def Let_def)
  qed
qed

lemma cancel_each_total:
  "engine_wf e \<Longrightarrow> \<exists>e'. cancel_each ids user e = Some e'"
proof (induction ids arbitrary: e)
  case Nil
  then show ?case by simp
next
  case (Cons oid ids)
  from cancel_order_total [OF Cons.prems, of oid user] obtain c e1 where
    co: "cancel_order oid user e = Some (c, e1)" by blast
  from Cons.IH [OF cancel_order_step(1) [OF Cons.prems co]] co show ?case by simp
qed

lemma apply_op_total:
  assumes wf: "engine_wf e"
  shows "\<exists>e'. apply_op op e = Some e'"
proof (cases op)
  case (SubmitOrder request)
  with submit_order_total_wf [OF wf, of request] show ?thesis by auto
next
  case (CancelOrder oid user)
  with cancel_order_total [OF wf, of oid user] show ?thesis by auto
next
  case (ReplaceOrder oid user new_price new_qty)
  with replace_order_total [OF wf, of oid user new_price new_qty] show ?thesis by auto
next
  case (CancelAll user)
  show ?thesis
  proof (cases "user_orders e user")
    case None
    with CancelAll show ?thesis by (simp add: cancel_all_def)
  next
    case (Some ids)
    from cancel_each_total [OF wf, of ids user] obtain e' where "cancel_each ids user e = Some e'"
      by blast
    with Some CancelAll show ?thesis by (simp add: cancel_all_def)
  qed
qed simp_all

lemma run_total: "engine_wf e \<Longrightarrow> \<exists>e'. run ops e = Some e'"
proof (induction ops arbitrary: e)
  case Nil
  then show ?case by simp
next
  case (Cons op ops)
  from apply_op_total [OF Cons.prems, of op] obtain e1 where a: "apply_op op e = Some e1" by blast
  from Cons.IH [OF apply_op_wf [OF Cons.prems a]] a show ?case by simp
qed

section \<open>Prices and average prices are never negative\<close>

lemma map_find_in_set: "map_find k m = Some v \<Longrightarrow> (k, v) \<in> set m"
  by (induction m) (auto split: if_splits)

lemma map_at_all:
  assumes "\<And>j v. (j, v) \<in> set m \<Longrightarrow> Q v" and "Q d" and "\<And>v. Q v \<Longrightarrow> Q (f v)"
  shows "(j, v) \<in> set (map_at k d f m) \<Longrightarrow> Q v"
  using assms(1)
proof (induction m)
  case Nil
  then show ?case using assms(2,3) by auto
next
  case (Cons a m)
  obtain k' v' where a: "a = (k', v')" by (cases a)
  from Cons.prems(2) have hd: "Q v'" and tl: "\<And>j v. (j, v) \<in> set m \<Longrightarrow> Q v"
    by (auto simp: a)
  from Cons.prems(1) Cons.IH [OF _ tl] hd tl assms(2,3) show ?case
    by (auto simp: a split: if_splits)
qed

lemma map_modify_all:
  assumes "\<And>j v. (j, v) \<in> set m \<Longrightarrow> Q v" and "\<And>v. Q v \<Longrightarrow> Q (f v)"
  shows "(j, v) \<in> set (map_modify k f m) \<Longrightarrow> Q v"
  using assms(1)
proof (induction m)
  case Nil
  then show ?case by simp
next
  case (Cons a m)
  obtain k' v' where a: "a = (k', v')" by (cases a)
  from Cons.prems(2) have hd: "Q v'" and tl: "\<And>j v. (j, v) \<in> set m \<Longrightarrow> Q v"
    by (auto simp: a)
  from Cons.prems(1) Cons.IH [OF _ tl] hd tl assms(2) show ?case
    by (auto simp: a split: if_splits)
qed

lemma cdiv_nonneg: "0 \<le> a \<Longrightarrow> 0 < b \<Longrightarrow> 0 \<le> cdiv a b"
  by (simp add: cdiv_def pos_imp_zdiv_nonneg_iff)

lemma position_after_fill_vwap:
  assumes "0 \<le> vwap pos" and "0 \<le> Fill.price fill"
  shows "0 \<le> vwap (position_after_fill fill pos)"
proof -
  have avg: "0 \<le> cdiv (vwap pos * \<bar>net_qty pos\<bar> + Fill.price fill * \<bar>fill_qty fill\<bar>)
                     (\<bar>net_qty pos\<bar> + \<bar>fill_qty fill\<bar>)"
    if "net_qty pos \<noteq> 0"
  proof (rule cdiv_nonneg)
    show "0 \<le> vwap pos * \<bar>net_qty pos\<bar> + Fill.price fill * \<bar>fill_qty fill\<bar>"
      using assms by simp
    show "0 < \<bar>net_qty pos\<bar> + \<bar>fill_qty fill\<bar>" using that by simp
  qed
  show ?thesis
    using assms avg by (auto simp: position_after_fill_def Let_def)
qed

lemma ledger_fill_nonneg:
  assumes "ledger_nonneg P" and "0 \<le> Fill.price f"
  shows "ledger_nonneg (ledger_fill f P)"
  unfolding ledger_nonneg_def
proof (intro allI impI)
  fix u ups j pos
  assume 1: "(u, ups) \<in> set (ledger_fill f P)" and 2: "(j, pos) \<in> set ups"
  let ?Q = "\<lambda>ups. \<forall>j pos. (j, pos) \<in> set ups \<longrightarrow> 0 \<le> vwap pos"
  have inner: "?Q (map_at (Fill.instrument_id f) Position0 (position_after_fill f) ups)" if "?Q ups" for ups
  proof (intro allI impI)
    fix j pos
    assume "(j, pos) \<in> set (map_at (Fill.instrument_id f) Position0 (position_after_fill f) ups)"
    then show "0 \<le> vwap pos"
    proof (rule map_at_all [rotated 3])
      show "0 \<le> vwap v" if "(j, v) \<in> set ups" for j v using \<open>?Q ups\<close> that by blast
      show "0 \<le> vwap Position0" by (simp add: Position0_def)
      show "0 \<le> vwap (position_after_fill f v)" if "0 \<le> vwap v" for v
        by (rule position_after_fill_vwap [OF that assms(2)])
    qed
  qed
  from 1 have "?Q ups"
    unfolding ledger_fill_def
  proof (rule map_at_all [rotated 3])
    show "?Q v" if "(j, v) \<in> set P" for j v using assms(1) that unfolding ledger_nonneg_def by blast
    show "?Q []" by simp
    show "?Q (map_at (Fill.instrument_id f) Position0 (position_after_fill f) v)" if "?Q v" for v
      by (rule inner [OF that])
  qed
  with 2 show "0 \<le> vwap pos" by blast
qed

lemma fold_ledger_fill_nonneg:
  "ledger_nonneg P \<Longrightarrow> \<forall>f \<in> set fs. 0 \<le> Fill.price f \<Longrightarrow> ledger_nonneg (fold ledger_fill fs P)"
  by (induction fs arbitrary: P) (auto intro: ledger_fill_nonneg)

lemma settle_nonneg:
  assumes "ledger_nonneg P"
  shows "ledger_nonneg (map (\<lambda>(user, user_positions). (user, settle_user inst i v user_positions)) P)"
  unfolding ledger_nonneg_def
proof (intro allI impI)
  fix u ups j pos
  assume 1: "(u, ups) \<in> set (map (\<lambda>(user, user_positions). (user, settle_user inst i v user_positions)) P)"
    and 2: "(j, pos) \<in> set ups"
  from 1 obtain ups0 where u0: "(u, ups0) \<in> set P" and ups: "ups = settle_user inst i v ups0" by auto
  have q0: "0 \<le> vwap x" if "(k, x) \<in> set ups0" for k x
    using assms u0 that unfolding ledger_nonneg_def by blast
  show "0 \<le> vwap pos"
  proof (cases "ups = ups0")
    case True
    with 2 q0 show ?thesis by blast
  next
    case False
    with ups have "ups = map_modify i (settle_position inst v) ups0"
      by (auto simp: settle_user_def split: option.splits if_splits)
    with 2 have "(j, pos) \<in> set (map_modify i (settle_position inst v) ups0)" by simp
    then show ?thesis
    proof (rule map_modify_all [rotated 2])
      show "0 \<le> vwap x" if "(k, x) \<in> set ups0" for k x by (rule q0 [OF that])
      show "0 \<le> vwap (settle_position inst v x)" for x by (simp add: settle_position_def Let_def)
    qed
  qed
qed

end
